(* ===== verification/Prelude.thy ===== *)
theory Prelude
  imports Main "HOL-Library.Word" "HOL-Library.Sublist"
begin

text \<open>
  Shared vocabulary of the development: the outcomes a C++ operation can have, bytes and
  characters, the machine integers of the code, string views, and the decimal printer of the
  C++ standard library, with the generic lemmas on them that the component theories use.
\<close>

unbundle bit_operations_syntax

named_theorems outcome_simps \<open>unfolding of the outcome combinators\<close>

section \<open>Outcomes\<close>

text \<open>
  What can end an operation other than its normal return: the library's own exception, with
  its message, and the situations in which the C++ program has no defined continuation. The
  code is modelled with its assertions enabled, as its debug and test builds run it.
\<close>

datatype fault =
    TracerException string
  | OutOfBounds
  | EmptyContainer
  | NullDereference
  | EmptyOptional
  | MovedFrom
  | AssertionFailed
  | SignedOverflow
  | UseAfterFree

type_synonym 'a outcome = "fault + 'a"

text \<open>Sequencing: a fault ends the operation, a value is passed on.\<close>

definition and_then :: "'a outcome \<Rightarrow> ('a \<Rightarrow> 'b outcome) \<Rightarrow> 'b outcome" where
  "and_then r k = (case r of Inl f \<Rightarrow> Inl f | Inr x \<Rightarrow> k x)"

text \<open>A condition that must hold for the operation to go on.\<close>

definition require :: "bool \<Rightarrow> fault \<Rightarrow> 'a outcome \<Rightarrow> 'a outcome" where
  "require b f k = (if b then k else Inl f)"

definition is_ok :: "'a outcome \<Rightarrow> bool" where
  "is_ok r = (case r of Inl _ \<Rightarrow> False | Inr _ \<Rightarrow> True)"

text \<open>A fault that is not an exception of the library is an error of the program itself.\<close>

definition is_exception :: "fault \<Rightarrow> bool" where
  "is_exception f = (case f of TracerException _ \<Rightarrow> True | _ \<Rightarrow> False)"

lemma and_then_simps [simp, outcome_simps]:
  "and_then (Inl f) k = Inl f" "and_then (Inr x) k = k x"
  by (simp_all add: and_then_def)

lemma require_simps [simp, outcome_simps]:
  "require True f k = k" "require False f k = Inl f"
  by (simp_all add: require_def)

lemma is_ok_simps [simp, outcome_simps]: "\<not> is_ok (Inl f)" "is_ok (Inr x)"
  by (simp_all add: is_ok_def)

lemma is_ok_iff: "is_ok r \<longleftrightarrow> (\<exists>x. r = Inr x)"
  by (cases r) simp_all

lemma and_then_eq_Inr:
  "and_then r k = Inr y \<longleftrightarrow> (\<exists>x. r = Inr x \<and> k x = Inr y)"
  by (cases r) simp_all

lemma and_then_eq_Inl:
  "and_then r k = Inl f \<longleftrightarrow> r = Inl f \<or> (\<exists>x. r = Inr x \<and> k x = Inl f)"
  by (cases r) simp_all

lemma require_eq_Inr: "require b f k = Inr y \<longleftrightarrow> b \<and> k = Inr y"
  by (simp add: require_def)

lemma require_eq_Inl: "require b f k = Inl g \<longleftrightarrow> (if b then k = Inl g else f = g)"
  by (simp add: require_def)

lemmas outcome_eqs = and_then_eq_Inr and_then_eq_Inl require_eq_Inr require_eq_Inl

lemma is_exception_simps [simp]:
  "is_exception (TracerException m)" "\<not> is_exception OutOfBounds"
  "\<not> is_exception EmptyContainer" "\<not> is_exception NullDereference"
  "\<not> is_exception MovedFrom" "\<not> is_exception AssertionFailed"
  "\<not> is_exception SignedOverflow"
  by (simp_all add: is_exception_def)

section \<open>Machine words\<close>

text \<open>
  \<open>n - 1\<close> on an unsigned 64-bit count: it wraps around at 0. Counts of objects in memory
  are below \<open>2 ^ 64\<close>, so this is the only value at which the width shows.
\<close>

definition uint64_pred :: "nat \<Rightarrow> nat" where
  "uint64_pred n = (if n = 0 then 2 ^ 64 - 1 else n - 1)"

lemma uint64_pred_simps [simp]:
  "uint64_pred 0 = 18446744073709551615" "uint64_pred (Suc n) = n"
  by (simp_all add: uint64_pred_def)

text \<open>
  Signed 64-bit arithmetic: a result outside the range is undefined behaviour. Division
  truncates towards zero.
\<close>

definition int64_range :: "int \<Rightarrow> bool" where
  "int64_range x \<longleftrightarrow> - (2 ^ 63) \<le> x \<and> x < 2 ^ 63"

definition int64 :: "int \<Rightarrow> int outcome" where
  "int64 x = require (int64_range x) SignedOverflow (Inr x)"

definition trunc_div :: "int \<Rightarrow> int \<Rightarrow> int" where
  "trunc_div dividend divisor =
     (let q = \<bar>dividend\<bar> div \<bar>divisor\<bar> in if (0 \<le> dividend) = (0 < divisor) then q else - q)"

lemma int64_in [simp]: "int64_range x \<Longrightarrow> int64 x = Inr x"
  by (simp add: int64_def)

lemma int64_out [simp]: "\<not> int64_range x \<Longrightarrow> int64 x = Inl SignedOverflow"
  by (simp add: int64_def)

section \<open>Bytes, characters and memory\<close>

text \<open>
  A \<open>std::string\<close> is a list of characters; the bit operations of the code work on
  \<open>uint8_t\<close>. The two conversions are the bits of the value.
\<close>

type_synonym byte = "8 word"

definition char_byte :: "char \<Rightarrow> byte" where
  "char_byte c = of_char c"

definition byte_char :: "byte \<Rightarrow> char" where
  "byte_char w =
     Char (bit w 0) (bit w 1) (bit w 2) (bit w 3) (bit w 4) (bit w 5) (bit w 6) (bit w 7)"

lemma less_eight_cases: "n < (8::nat) \<Longrightarrow>
    n = 0 \<or> n = 1 \<or> n = 2 \<or> n = 3 \<or> n = 4 \<or> n = 5 \<or> n = 6 \<or> n = 7"
  by arith

lemma bit_char_byte:
  "bit (char_byte (Char b0 b1 b2 b3 b4 b5 b6 b7)) n \<longleftrightarrow>
     n < 8 \<and> [b0, b1, b2, b3, b4, b5, b6, b7] ! n"
  unfolding char_byte_def of_char_Char
  by (simp only: bit_horner_sum_bit_iff) (auto simp: possible_bit_def)

lemma byte_char_char_byte [simp]: "byte_char (char_byte c) = c"
  by (cases c) (simp add: byte_char_def bit_char_byte)

lemma char_byte_byte_char [simp]: "char_byte (byte_char w) = w"
proof (rule bit_word_eqI)
  fix n assume "n < LENGTH(8)"
  then show "bit (char_byte (byte_char w)) n = bit w n"
    by (auto simp: byte_char_def bit_char_byte dest!: less_eight_cases)
qed

lemma char_byte_inject [simp]: "char_byte c = char_byte d \<longleftrightarrow> c = d"
  by (metis byte_char_char_byte)

lemma byte_char_inject [simp]: "byte_char v = byte_char w \<longleftrightarrow> v = w"
  by (metis char_byte_byte_char)

text \<open>Bytes are compared bit by bit; \<open>byte_bits\<close> decides equations between shifted bytes.\<close>

lemma byte_bit_beyond [simp]: "8 \<le> n \<Longrightarrow> \<not> bit (w::byte) n"
  using bit_imp_le_length [of w n] by auto

lemma less_64_iff: "v < (64::byte) \<longleftrightarrow> \<not> bit v 6 \<and> \<not> bit v 7"
proof -
  have "v < 64 \<longleftrightarrow> v AND mask 6 = v"
    using mask_eq_iff_w2p [where 'a = 8 and n = 6 and w = v] by (auto simp: word_size)
  also have "\<dots> \<longleftrightarrow> (\<forall>n<8. bit v n \<longrightarrow> n < 6)"
    by (auto simp: bit_eq_iff bit_simps)
  also have "\<dots> \<longleftrightarrow> \<not> bit v 6 \<and> \<not> bit v 7"
    by (simp add: numeral_eq_Suc All_less_Suc conj_commute)
  finally show ?thesis .
qed

lemma byte_eq_iff: "v = w \<longleftrightarrow> bit v 0 = bit w 0 \<and> bit v 1 = bit w 1 \<and> bit v 2 = bit w 2
    \<and> bit v 3 = bit w 3 \<and> bit v 4 = bit w 4 \<and> bit v 5 = bit w 5 \<and> bit v 6 = bit w 6
    \<and> bit v 7 = bit w 7" for v w :: byte
proof -
  have "v = w \<longleftrightarrow> (\<forall>n<8. bit v n = bit w n)" by (auto intro: bit_word_eqI)
  also have "\<dots> \<longleftrightarrow> bit v 0 = bit w 0 \<and> bit v 1 = bit w 1 \<and> bit v 2 = bit w 2
    \<and> bit v 3 = bit w 3 \<and> bit v 4 = bit w 4 \<and> bit v 5 = bit w 5 \<and> bit v 6 = bit w 6
    \<and> bit v 7 = bit w 7"
    by (simp add: numeral_eq_Suc All_less_Suc) (simp only: conj_ac)
  finally show ?thesis .
qed

lemmas byte_bits = byte_eq_iff less_64_iff bit_simps bit_numeral_rec

text \<open>Reading memory: an index at or past the end is undefined behaviour.\<close>

definition read_at :: "'a list \<Rightarrow> nat \<Rightarrow> 'a outcome" where
  "read_at xs i = require (i < length xs) OutOfBounds (Inr (xs ! i))"

lemma read_at_in [simp]: "i < length xs \<Longrightarrow> read_at xs i = Inr (xs ! i)"
  by (simp add: read_at_def)

lemma read_at_out [simp]: "length xs \<le> i \<Longrightarrow> read_at xs i = Inl OutOfBounds"
  by (simp add: read_at_def)

text \<open>Writing through an index: undefined behaviour at or past the end.\<close>

definition write_at :: "'a list \<Rightarrow> nat \<Rightarrow> 'a \<Rightarrow> 'a list outcome" where
  "write_at xs i v = require (i < length xs) OutOfBounds (Inr (xs[i := v]))"

lemma write_at_in [simp]: "i < length xs \<Longrightarrow> write_at xs i v = Inr (xs[i := v])"
  by (simp add: write_at_def)

lemma write_at_out [simp]: "length xs \<le> i \<Longrightarrow> write_at xs i v = Inl OutOfBounds"
  by (simp add: write_at_def)

lemma nth_update: "h < length xs \<Longrightarrow> xs[i := x] ! h = (if i = h then x else xs ! h)"
  by simp

text \<open>\<open>front()\<close> and \<open>back()\<close> of a container: undefined behaviour when it is empty.\<close>

definition front_of :: "'a list \<Rightarrow> 'a outcome" where
  "front_of xs = require (xs \<noteq> []) EmptyContainer (Inr (hd xs))"

definition back_of :: "'a list \<Rightarrow> 'a outcome" where
  "back_of xs = require (xs \<noteq> []) EmptyContainer (Inr (last xs))"

lemma front_of_simps [simp]: "front_of [] = Inl EmptyContainer" "front_of (x # xs) = Inr x"
  by (simp_all add: front_of_def)

lemma back_of_simps [simp]: "back_of [] = Inl EmptyContainer" "back_of (xs @ [x]) = Inr x"
  by (simp_all add: back_of_def)

lemma back_nonempty: "xs \<noteq> [] \<Longrightarrow> back_of xs = Inr (last xs)"
  by (simp add: back_of_def)

lemma front_nonempty: "xs \<noteq> [] \<Longrightarrow> front_of xs = Inr (hd xs)"
  by (simp add: front_of_def)

section \<open>String views\<close>

text \<open>
  A string view is a pointer to the first character and a length. Where the code uses the
  characters of a view, the model has a \<open>string\<close>. Where it hands \<open>view.data()\<close> to a function
  that expects a NUL-terminated string, the length is lost and the function reads on up to the
  first NUL: there the model has the readable memory from the pointer on, and the length.
\<close>

record string_view =
  sv_memory :: string
  sv_length :: nat

definition sv_characters :: "string_view \<Rightarrow> string" where
  "sv_characters v = take (sv_length v) (sv_memory v)"

definition c_string :: "string_view \<Rightarrow> string outcome" where
  "c_string v = require (CHR 0x00 \<in> set (sv_memory v)) OutOfBounds
     (Inr (takeWhile (\<lambda>c. c \<noteq> CHR 0x00) (sv_memory v)))"

text \<open>The view of a string literal or of a \<open>std::string\<close>: a NUL follows the characters.\<close>

definition view_of :: "string \<Rightarrow> string_view" where
  "view_of s = \<lparr>sv_memory = s @ [CHR 0x00], sv_length = length s\<rparr>"

lemma sv_characters_view_of [simp]: "sv_characters (view_of s) = s"
  by (simp add: sv_characters_def view_of_def)

lemma c_string_view_of [simp]: "CHR 0x00 \<notin> set s \<Longrightarrow> c_string (view_of s) = Inr s"
  by (simp add: c_string_def view_of_def takeWhile_append2 cong: conj_cong)
    (subst takeWhile_append2, auto)

lemma c_string_terminated:
  "CHR 0x00 \<notin> set s \<Longrightarrow> c_string \<lparr>sv_memory = s @ CHR 0x00 # rest, sv_length = n\<rparr> = Inr s"
  by (simp add: c_string_def) (subst takeWhile_append2, auto)

section \<open>Decimal printing\<close>

text \<open>\<open>std::to_string\<close> of a 32-bit integer.\<close>

type_synonym int32 = "32 word"

definition digits :: string where
  "digits = ''0123456789''"

definition is_digit :: "char \<Rightarrow> bool" where
  "is_digit c \<longleftrightarrow> c \<in> set digits"

fun nat_digits :: "nat \<Rightarrow> string" where
  "nat_digits n = (if n < 10 then [digits ! n] else nat_digits (n div 10) @ [digits ! (n mod 10)])"

declare nat_digits.simps [simp del]

definition int_digits :: "int \<Rightarrow> string" where
  "int_digits i = (if i < 0 then CHR ''-'' # nat_digits (nat (- i)) else nat_digits (nat i))"

definition std_to_string :: "int32 \<Rightarrow> string" where
  "std_to_string w = int_digits (sint w)"

lemma digit_is_digit: "n < 10 \<Longrightarrow> is_digit (digits ! n)"
  unfolding is_digit_def by (rule nth_mem) (simp add: digits_def)

lemma nat_digits_digits: "list_all is_digit (nat_digits n)"
proof (induction n rule: nat_digits.induct)
  case (1 n)
  then show ?case by (subst nat_digits.simps) (auto intro: digit_is_digit)
qed

lemma nat_digits_nonempty [simp]: "nat_digits n \<noteq> []"
  by (subst nat_digits.simps) simp

lemma is_digit_no_dash: "is_digit c \<Longrightarrow> c \<noteq> CHR ''-''"
  by (auto simp: is_digit_def digits_def)

text \<open>The number a sequence of digits stands for, read most significant digit first.\<close>

definition digit_value :: "char \<Rightarrow> nat" where
  "digit_value c = length (takeWhile (\<lambda>d. d \<noteq> c) digits)"

definition digits_value :: "string \<Rightarrow> nat" where
  "digits_value cs = foldl (\<lambda>n c. 10 * n + digit_value c) 0 cs"

lemma digit_value_nth: "n < 10 \<Longrightarrow> digit_value (digits ! n) = n"
  by (simp add: digit_value_def digits_def less_Suc_eq numeral_eq_Suc) auto

lemma digits_value_nat_digits: "digits_value (nat_digits n) = n"
proof (induction n rule: nat_digits.induct)
  case (1 n)
  have "digits_value (xs @ [c]) = 10 * digits_value xs + digit_value c" for xs c
    by (simp add: digits_value_def)
  moreover have "digits_value [c] = digit_value c" for c by (simp add: digits_value_def)
  ultimately show ?case using "1.IH"
    by (subst nat_digits.simps) (simp add: digit_value_nth del: digits_value_def)
qed

end
