(* ===== verification/Base64.thy ===== *)
theory Base64
  imports Prelude
begin

text \<open>
  The codec of \<^verbatim>\<open>source/utils/base64.h\<close>: its two tables, the per-character steps
  \<open>encodeBase\<close>, \<open>encodeLast\<close>, \<open>decodeBase\<close> and \<open>decodeLast\<close>, and the two entry points
  \<open>encode\<close> and \<open>decodeWithoutPadding\<close>. The output string and the carried bits
  \<open>next_c\<close>, which the code passes by reference, are returned updated. Positions
  count the characters of a string in memory, which is below \<open>2 ^ 64\<close>, and are \<open>nat\<close>;
  the one place where the 64 bits show, \<open>last = n - 1\<close> at \<open>n = 0\<close>, wraps around.
\<close>

section \<open>Tables\<close>

definition CHAR_TABLE :: string where
  "CHAR_TABLE = ''ABCDEFGHIJKLMNOPQRSTUVWXYZabcdefghijklmnopqrstuvwxyz0123456789+/''"

definition REVERSE_LOOKUP_TABLE :: "byte list" where
  "REVERSE_LOOKUP_TABLE =
    [64, 64, 64, 64, 64, 64, 64, 64, 64, 64, 64, 64, 64, 64, 64, 64, 64, 64, 64, 64, 64, 64, 64, 64,
     64, 64, 64, 64, 64, 64, 64, 64, 64, 64, 64, 64, 64, 64, 64, 64, 64, 64, 64, 62, 64, 64, 64, 63,
     52, 53, 54, 55, 56, 57, 58, 59, 60, 61, 64, 64, 64, 64, 64, 64, 64, 0,  1,  2,  3,  4,  5,  6,
     7,  8,  9,  10, 11, 12, 13, 14, 15, 16, 17, 18, 19, 20, 21, 22, 23, 24, 25, 64, 64, 64, 64, 64,
     64, 26, 27, 28, 29, 30, 31, 32, 33, 34, 35, 36, 37, 38, 39, 40, 41, 42, 43, 44, 45, 46, 47, 48,
     49, 50, 51, 64, 64, 64, 64, 64, 64, 64, 64, 64, 64, 64, 64, 64, 64, 64, 64, 64, 64, 64, 64, 64,
     64, 64, 64, 64, 64, 64, 64, 64, 64, 64, 64, 64, 64, 64, 64, 64, 64, 64, 64, 64, 64, 64, 64, 64,
     64, 64, 64, 64, 64, 64, 64, 64, 64, 64, 64, 64, 64, 64, 64, 64, 64, 64, 64, 64, 64, 64, 64, 64,
     64, 64, 64, 64, 64, 64, 64, 64, 64, 64, 64, 64, 64, 64, 64, 64, 64, 64, 64, 64, 64, 64, 64, 64,
     64, 64, 64, 64, 64, 64, 64, 64, 64, 64, 64, 64, 64, 64, 64, 64, 64, 64, 64, 64, 64, 64, 64, 64,
     64, 64, 64, 64, 64, 64, 64, 64, 64, 64, 64, 64, 64, 64, 64, 64]"

section \<open>Encoding\<close>

text \<open>
  \<open>char_table[i]\<close>. The array has 65 elements, the terminating NUL included; an index past
  it is undefined behaviour, so every read is checked.
\<close>

definition char_table_at :: "byte \<Rightarrow> char outcome" where
  "char_table_at i = read_at (CHAR_TABLE @ [CHR 0x00]) (unat i)"

definition encodeBase :: "byte \<Rightarrow> nat \<Rightarrow> byte \<Rightarrow> string \<Rightarrow> (byte \<times> string) outcome" where
  "encodeBase cur_char pos next_c ret =
    (if pos mod 3 = 0 then
       and_then (char_table_at (drop_bit 2 cur_char)) (\<lambda>c.
       Inr (push_bit 4 (cur_char AND 0x03), ret @ [c]))
     else if pos mod 3 = 1 then
       and_then (char_table_at (next_c OR drop_bit 4 cur_char)) (\<lambda>c.
       Inr (push_bit 2 (cur_char AND 0x0f), ret @ [c]))
     else
       and_then (char_table_at (next_c OR drop_bit 6 cur_char)) (\<lambda>c.
       and_then (char_table_at (cur_char AND 0x3f)) (\<lambda>d.
       Inr (0, ret @ [c] @ [d]))))"

definition encodeLast :: "nat \<Rightarrow> byte \<Rightarrow> string \<Rightarrow> bool \<Rightarrow> string outcome" where
  "encodeLast pos last_char ret add_padding =
    (if pos mod 3 = 1 then
       and_then (char_table_at last_char) (\<lambda>c.
       Inr (ret @ [c] @ (if add_padding then [CHR ''=''] @ [CHR ''=''] else [])))
     else if pos mod 3 = 2 then
       and_then (char_table_at last_char) (\<lambda>c.
       Inr (ret @ [c] @ (if add_padding then [CHR ''=''] else [])))
     else Inr ret)"

text \<open>The loop of \<open>Base64::encode\<close>, over the characters it has still to read.\<close>

fun encode_loop :: "string \<Rightarrow> nat \<Rightarrow> byte \<Rightarrow> string \<Rightarrow> (nat \<times> byte \<times> string) outcome" where
  "encode_loop [] pos next_c ret = Inr (pos, next_c, ret)"
| "encode_loop (x # xs) pos next_c ret =
     and_then (encodeBase (char_byte x) pos next_c ret) (\<lambda>(next_c', ret').
     encode_loop xs (pos + 1) next_c' ret')"

definition encode :: "string \<Rightarrow> bool \<Rightarrow> string outcome" where
  "encode input add_padding =
     and_then (encode_loop input 0 0 '''') (\<lambda>(pos, next_c, ret).
     encodeLast pos next_c ret add_padding)"

text \<open>The overloads without \<open>add_padding\<close>, which pad.\<close>

definition encode_padded :: "string \<Rightarrow> string outcome" where
  "encode_padded input = encode input True"

section \<open>Decoding\<close>

text \<open>\<open>ret.back() |= x\<close>.\<close>

definition or_back :: "string \<Rightarrow> byte \<Rightarrow> string outcome" where
  "or_back ret x =
     and_then (back_of ret) (\<lambda>b. Inr (butlast ret @ [byte_char (char_byte b OR x)]))"

definition decodeBase :: "char \<Rightarrow> nat \<Rightarrow> string \<Rightarrow> (bool \<times> string) outcome" where
  "decodeBase cur_char pos ret =
     and_then (read_at REVERSE_LOOKUP_TABLE (unat (char_byte cur_char))) (\<lambda>c.
     if c = 64 then Inr (False, ret)
     else if pos mod 4 = 0 then Inr (True, ret @ [byte_char (push_bit 2 c)])
     else if pos mod 4 = 1 then
       and_then (or_back ret (drop_bit 4 c)) (\<lambda>ret'.
       Inr (True, ret' @ [byte_char (push_bit 4 c)]))
     else if pos mod 4 = 2 then
       and_then (or_back ret (drop_bit 2 c)) (\<lambda>ret'.
       Inr (True, ret' @ [byte_char (push_bit 6 c)]))
     else
       and_then (or_back ret c) (\<lambda>ret'. Inr (True, ret')))"

definition decodeLast :: "char \<Rightarrow> nat \<Rightarrow> string \<Rightarrow> (bool \<times> string) outcome" where
  "decodeLast cur_char pos ret =
     and_then (read_at REVERSE_LOOKUP_TABLE (unat (char_byte cur_char))) (\<lambda>c.
     if c = 64 then Inr (False, ret)
     else if pos mod 4 = 0 then Inr (False, ret)
     else if pos mod 4 = 1 then
       and_then (or_back ret (drop_bit 4 c)) (\<lambda>ret'. Inr (c AND 0xf = 0, ret'))
     else if pos mod 4 = 2 then
       and_then (or_back ret (drop_bit 2 c)) (\<lambda>ret'. Inr (c AND 0x3 = 0, ret'))
     else
       and_then (or_back ret c) (\<lambda>ret'. Inr (True, ret')))"

text \<open>
  The loop \<open>for (i = 0; i < last; ++i)\<close>: it stops with \<open>False\<close> at the first invalid
  character, which makes the function return the empty string.
\<close>

function decode_loop :: "string \<Rightarrow> nat \<Rightarrow> nat \<Rightarrow> string \<Rightarrow> (bool \<times> string) outcome" where
  "decode_loop input i last_pos ret =
     (if i < last_pos then
        and_then (read_at input i) (\<lambda>ch.
        and_then (decodeBase ch i ret) (\<lambda>(ok, ret').
        if ok then decode_loop input (i + 1) last_pos ret' else Inr (False, ret')))
      else Inr (True, ret))"
  by pat_completeness auto
termination
  by (relation "measure (\<lambda>(input, i, last_pos, ret). last_pos - i)") auto

declare decode_loop.simps [simp del]

text \<open>At most the last two characters can be padding.\<close>

definition unpadded_length :: "string \<Rightarrow> nat" where
  "unpadded_length input =
     (let n = length input in
      if input ! (n - 1) = CHR ''='' then
        (let n = n - 1 in if n > 0 \<and> input ! (n - 1) = CHR ''='' then n - 1 else n)
      else n)"

definition max_length :: "nat \<Rightarrow> nat" where
  "max_length n =
     (let m = (n + 3) div 4 * 3;
          m = (if n mod 4 = 3 then m - 1 else m)
      in if n mod 4 = 2 then m - 2 else m)"

definition decodeWithoutPadding :: "string \<Rightarrow> string outcome" where
  "decodeWithoutPadding input =
     (if input = [] then Inr ''''
      else
        let n = unpadded_length input;
            last_pos = uint64_pred n
        in
          and_then (decode_loop input 0 last_pos '''') (\<lambda>(ok, ret).
          if \<not> ok then Inr ''''
          else
            and_then (read_at input last_pos) (\<lambda>ch.
            and_then (decodeLast ch last_pos ret) (\<lambda>(ok', ret').
            if \<not> ok' then Inr ''''
            else require (length ret' = max_length n) AssertionFailed (Inr ret')))))"

section \<open>The alphabet\<close>

definition lookup :: "char \<Rightarrow> byte" where
  "lookup c = REVERSE_LOOKUP_TABLE ! unat (char_byte c)"

definition symbol :: "byte \<Rightarrow> char" where
  "symbol v = CHAR_TABLE ! unat v"

lemma length_CHAR_TABLE [simp]: "length CHAR_TABLE = 64"
  by (simp add: CHAR_TABLE_def)

lemma length_REVERSE_LOOKUP_TABLE [simp]: "length REVERSE_LOOKUP_TABLE = 256"
  by (simp add: REVERSE_LOOKUP_TABLE_def)

lemma tables_agree_forward:
  "map (\<lambda>c. REVERSE_LOOKUP_TABLE ! unat (char_byte c)) CHAR_TABLE = map word_of_nat [0..<64]"
  by (simp add: upt_rec CHAR_TABLE_def REVERSE_LOOKUP_TABLE_def char_byte_def)

lemma tables_agree_backward:
  "list_all (\<lambda>(n, v). v = 64 \<or> v < 64 \<and> char_byte (CHAR_TABLE ! unat v) = n)
     (zip (map word_of_nat [0..<256]) REVERSE_LOOKUP_TABLE)"
  unfolding REVERSE_LOOKUP_TABLE_def
  by (simp add: upt_rec CHAR_TABLE_def char_byte_def)

text \<open>The tables are inverse to each other on the 64 symbols; 64 marks every other character.\<close>

lemma lookup_symbol [simp]:
  assumes "v < 64"
  shows "lookup (symbol v) = v"
proof -
  have v: "unat v < 64" using assms by (simp add: word_less_nat_alt)
  have "map (\<lambda>c. REVERSE_LOOKUP_TABLE ! unat (char_byte c)) CHAR_TABLE ! unat v
      = map word_of_nat [0..<64] ! unat v"
    by (simp only: tables_agree_forward)
  with v show ?thesis by (simp add: lookup_def symbol_def)
qed

lemma lookup_cases:
  "lookup c = 64 \<or> lookup c < 64 \<and> symbol (lookup c) = c"
proof -
  let ?n = "unat (char_byte c)" and ?z = "zip (map word_of_nat [0..<256]) REVERSE_LOOKUP_TABLE"
  have n: "?n < 256" using unsigned_less [of "char_byte c", where ?'a = nat] by simp
  then have "?z ! ?n = (char_byte c, lookup c)" by (simp add: lookup_def)
  moreover have "?z ! ?n \<in> set ?z" using n by (intro nth_mem) simp
  ultimately have "(char_byte c, lookup c) \<in> set ?z" by metis
  from bspec [OF tables_agree_backward [unfolded list_all_iff] this]
  show ?thesis by (simp add: symbol_def)
qed

lemma lookup_less_64: "lookup c \<noteq> 64 \<Longrightarrow> lookup c < 64"
  using lookup_cases by blast

lemma symbol_lookup: "lookup c \<noteq> 64 \<Longrightarrow> symbol (lookup c) = c"
  using lookup_cases by blast

lemma lookup_read [simp]: "read_at REVERSE_LOOKUP_TABLE (unat (char_byte c)) = Inr (lookup c)"
  using unsigned_less [of "char_byte c", where ?'a = nat] by (simp add: lookup_def)

lemma char_table_at_symbol [simp]: "v < 64 \<Longrightarrow> char_table_at v = Inr (symbol v)"
  by (simp add: char_table_at_def symbol_def nth_append word_less_nat_alt)

lemma symbol_mem: "v < 64 \<Longrightarrow> symbol v \<in> set CHAR_TABLE"
  by (simp add: symbol_def word_less_nat_alt)

lemma alphabet_excludes: "CHR ''='' \<notin> set CHAR_TABLE" "CHR ''-'' \<notin> set CHAR_TABLE"
  by (simp_all add: CHAR_TABLE_def)

lemma lookup_excludes: "lookup (CHR ''='') = 64" "lookup (CHR ''-'') = 64"
  by (metis alphabet_excludes lookup_cases symbol_mem)+

section \<open>Words of six bits\<close>

lemma sextet_bounds [simp]:
  "drop_bit 2 a < (64::byte)"
  "push_bit 4 (a AND 3) < (64::byte)"
  "push_bit 2 (a AND 15) < (64::byte)"
  "push_bit 4 (a AND 3) OR drop_bit 4 b < (64::byte)"
  "push_bit 2 (a AND 15) OR drop_bit 6 b < (64::byte)"
  "a AND 63 < (64::byte)"
  "push_bit 4 a AND 48 < (64::byte)"
  "push_bit 2 a AND 60 < (64::byte)"
  "push_bit 4 a AND 48 OR drop_bit 4 b < (64::byte)"
  "push_bit 2 a AND 60 OR drop_bit 6 b < (64::byte)"
  by (simp_all add: byte_bits)

section \<open>The encoder, three octets at a time\<close>

text \<open>The 6-bit values the encoder emits, as the code computes them.\<close>

fun sextets :: "byte list \<Rightarrow> byte list" where
  "sextets [] = []"
| "sextets [a] = [drop_bit 2 a, push_bit 4 (a AND 3)]"
| "sextets [a, b] =
     [drop_bit 2 a, push_bit 4 (a AND 3) OR drop_bit 4 b, push_bit 2 (b AND 15)]"
| "sextets (a # b # c # r) =
     [drop_bit 2 a, push_bit 4 (a AND 3) OR drop_bit 4 b,
      push_bit 2 (b AND 15) OR drop_bit 6 c, c AND 63] @ sextets r"

definition padding :: "nat \<Rightarrow> string" where
  "padding n = (if n mod 3 = 1 then ''=='' else if n mod 3 = 2 then ''='' else '''')"

lemma padding_Suc3: "padding (Suc (Suc (Suc n))) = padding n"
proof -
  have "Suc (Suc (Suc n)) mod 3 = n mod 3" by presburger
  then show ?thesis by (simp add: padding_def)
qed

lemma sextets_less_64: "v \<in> set (sextets bs) \<Longrightarrow> v < 64"
  by (induction bs rule: sextets.induct) auto

lemma mod_3_steps:
  "pos mod 3 = 0 \<Longrightarrow> (pos + 1) mod 3 = (1::nat)"
  "pos mod 3 = 0 \<Longrightarrow> Suc pos mod 3 = (1::nat)"
  "pos mod 3 = 0 \<Longrightarrow> Suc (Suc pos) mod 3 = (2::nat)"
  "pos mod 3 = 0 \<Longrightarrow> Suc (Suc (Suc pos)) mod 3 = (0::nat)"
  by presburger+

text \<open>
  From a position that is a multiple of 3, with no carried bits, loop and final step emit the
  sextets of the input, in order, and then the padding: no table read is out of bounds.
\<close>

lemma encode_loop_sextets:
  assumes "pos mod 3 = 0"
  shows "and_then (encode_loop xs pos 0 ret) (\<lambda>(pos', next_c, ret'). encodeLast pos' next_c ret' pad)
    = Inr (ret @ map symbol (sextets (map char_byte xs)) @ (if pad then padding (length xs) else []))"
  using assms
proof (induction "map char_byte xs" arbitrary: xs pos ret rule: sextets.induct)
  case 1
  then show ?case by (simp add: encodeLast_def padding_def)
next
  case (2 a)
  then show ?case
    by (auto simp: encodeLast_def encodeBase_def padding_def mod_3_steps Cons_eq_map_conv)
next
  case (3 a b)
  then show ?case
    by (auto simp: encodeLast_def encodeBase_def padding_def mod_3_steps Cons_eq_map_conv)
next
  case (4 a b c r)
  then obtain x y z zs where xs: "xs = x # y # z # zs" and r: "r = map char_byte zs"
    by (auto simp: Cons_eq_map_conv)
  show ?case
    using "4.prems" "4.hyps"(1) [of zs "Suc (Suc (Suc pos))"] unfolding xs r
    by (simp add: encodeBase_def mod_3_steps padding_Suc3)
qed

lemma encode_eq_sextets:
  "encode s pad =
     Inr (map symbol (sextets (map char_byte s)) @ (if pad then padding (length s) else []))"
  using encode_loop_sextets [of 0 s "[]" pad] by (simp add: encode_def)

section \<open>The decoder, four characters at a time\<close>

text \<open>
  The octets that a sequence of 6-bit values stands for: none when a single value is left
  over or when the unused low bits of the last value are not zero.
\<close>

fun octets :: "byte list \<Rightarrow> byte list option" where
  "octets [] = Some []"
| "octets [v1] = None"
| "octets [v1, v2] =
     (if v2 AND 15 = 0 then Some [push_bit 2 v1 OR drop_bit 4 v2] else None)"
| "octets [v1, v2, v3] =
     (if v3 AND 3 = 0 then Some [push_bit 2 v1 OR drop_bit 4 v2, push_bit 4 v2 OR drop_bit 2 v3]
      else None)"
| "octets (v1 # v2 # v3 # v4 # r) =
     map_option ((@) [push_bit 2 v1 OR drop_bit 4 v2, push_bit 4 v2 OR drop_bit 2 v3,
                      push_bit 6 v3 OR v4]) (octets r)"

definition valid_chars :: "string \<Rightarrow> bool" where
  "valid_chars cs \<longleftrightarrow> list_all (\<lambda>c. lookup c \<noteq> 64) cs"

definition decode_spec :: "string \<Rightarrow> string option" where
  "decode_spec cs =
     (if valid_chars cs then map_option (map byte_char) (octets (map lookup cs)) else None)"

definition strip_padding :: "string \<Rightarrow> string" where
  "strip_padding input = take (unpadded_length input) input"

text \<open>Loop and last step as one recursion over the characters still to be read.\<close>

fun decode_chars :: "string \<Rightarrow> nat \<Rightarrow> string \<Rightarrow> (bool \<times> string) outcome" where
  "decode_chars [] pos ret = Inr (False, ret)"
| "decode_chars [c] pos ret = decodeLast c pos ret"
| "decode_chars (c # d # cs) pos ret =
     and_then (decodeBase c pos ret) (\<lambda>(ok, ret').
     if ok then decode_chars (d # cs) (pos + 1) ret' else Inr (False, ret'))"

lemma drop_take_Suc:
  "i < k \<Longrightarrow> k \<le> length xs \<Longrightarrow> drop i (take k xs) = xs ! i # drop (Suc i) (take k xs)"
  by (metis Cons_nth_drop_Suc length_take min.absorb2 nth_take)

lemma decode_loop_chars:
  assumes "i \<le> n" and "n < length input"
  shows "and_then (decode_loop input i n ret) (\<lambda>(ok, ret').
           if \<not> ok then Inr (False, ret')
           else and_then (read_at input n) (\<lambda>ch. decodeLast ch n ret'))
       = decode_chars (drop i (take (Suc n) input)) i ret"
  using assms
proof (induction input i n ret rule: decode_loop.induct)
  case (1 input i n ret)
  show ?case
  proof (cases "i < n")
    case True
    then have "drop i (take (Suc n) input)
        = input ! i # input ! Suc i # drop (Suc (Suc i)) (take (Suc n) input)"
      and tl: "drop (Suc i) (take (Suc n) input)
        = input ! Suc i # drop (Suc (Suc i)) (take (Suc n) input)"
      using "1.prems" by (simp_all add: drop_take_Suc)
    with True show ?thesis
      using "1.prems" "1.IH" [OF True]
      by (auto simp: decode_loop.simps [of input i n ret] and_then_def split: sum.splits)
  next
    case False
    with "1.prems" have "i = n" by simp
    with "1.prems" show ?thesis
      by (simp add: decode_loop.simps [of input n n ret] drop_take_Suc)
  qed
qed

lemma or_back_nonempty [simp]:
  "ret \<noteq> [] \<Longrightarrow>
     or_back ret x = Inr (butlast ret @ [byte_char (char_byte (last ret) OR x)])"
  by (simp add: or_back_def back_nonempty)

lemma mod_4_steps:
  "pos mod 4 = 0 \<Longrightarrow> Suc pos mod 4 = (1::nat)"
  "pos mod 4 = 0 \<Longrightarrow> Suc (Suc pos) mod 4 = (2::nat)"
  "pos mod 4 = 0 \<Longrightarrow> Suc (Suc (Suc pos)) mod 4 = (3::nat)"
  "pos mod 4 = 0 \<Longrightarrow> (3 + pos) mod 4 = (3::nat)"
  "pos mod 4 = 0 \<Longrightarrow> Suc (Suc (Suc (Suc pos))) mod 4 = (0::nat)"
  by presburger+

lemma decodeBase_steps:
  assumes "pos mod 4 = 0"
  shows
    "decodeBase c pos ret = (if lookup c = 64 then Inr (False, ret)
       else Inr (True, ret @ [byte_char (push_bit 2 (lookup c))]))"
    "ret \<noteq> [] \<Longrightarrow> decodeBase c (Suc pos) ret = (if lookup c = 64 then Inr (False, ret)
       else Inr (True, (butlast ret @ [byte_char (char_byte (last ret) OR drop_bit 4 (lookup c))])
                       @ [byte_char (push_bit 4 (lookup c))]))"
    "ret \<noteq> [] \<Longrightarrow> decodeBase c (Suc (Suc pos)) ret = (if lookup c = 64 then Inr (False, ret)
       else Inr (True, (butlast ret @ [byte_char (char_byte (last ret) OR drop_bit 2 (lookup c))])
                       @ [byte_char (push_bit 6 (lookup c))]))"
    "ret \<noteq> [] \<Longrightarrow> decodeBase c (Suc (Suc (Suc pos))) ret = (if lookup c = 64 then Inr (False, ret)
       else Inr (True, butlast ret @ [byte_char (char_byte (last ret) OR lookup c)]))"
  using assms by (simp_all add: decodeBase_def mod_4_steps)

lemma decodeLast_steps:
  assumes "pos mod 4 = 0"
  shows
    "decodeLast c pos ret = Inr (False, ret)"
    "ret \<noteq> [] \<Longrightarrow> decodeLast c (Suc pos) ret = (if lookup c = 64 then Inr (False, ret)
       else Inr (lookup c AND 15 = 0, butlast ret @ [byte_char (char_byte (last ret) OR drop_bit 4 (lookup c))]))"
    "ret \<noteq> [] \<Longrightarrow> decodeLast c (Suc (Suc pos)) ret = (if lookup c = 64 then Inr (False, ret)
       else Inr (lookup c AND 3 = 0, butlast ret @ [byte_char (char_byte (last ret) OR drop_bit 2 (lookup c))]))"
    "ret \<noteq> [] \<Longrightarrow> decodeLast c (Suc (Suc (Suc pos))) ret = (if lookup c = 64 then Inr (False, ret)
       else Inr (True, butlast ret @ [byte_char (char_byte (last ret) OR lookup c)]))"
  using assms by (simp_all add: decodeLast_def mod_4_steps)

text \<open>
  From a position that is a multiple of 4 the decoder appends the octets its characters stand
  for, or reports failure; it never touches an empty result.
\<close>

lemma decode_chars_spec:
  assumes "pos mod 4 = 0" and "cs \<noteq> []"
  shows "case decode_spec cs of
      None \<Rightarrow> \<exists>r. decode_chars cs pos ret = Inr (False, r)
    | Some bs \<Rightarrow> decode_chars cs pos ret = Inr (True, ret @ bs)"
  using assms
proof (induction "map lookup cs" arbitrary: cs pos ret rule: octets.induct)
  case 1
  then show ?case by simp
next
  case (2 v1)
  then show ?case
    by (auto simp: Cons_eq_map_conv decode_spec_def decodeLast_steps split: option.splits)
next
  case (3 v1 v2)
  then show ?case
    by (auto simp: Cons_eq_map_conv decode_spec_def valid_chars_def decodeBase_steps
        decodeLast_steps butlast_append)
next
  case (4 v1 v2 v3)
  then show ?case
    by (auto simp: Cons_eq_map_conv decode_spec_def valid_chars_def decodeBase_steps
        decodeLast_steps butlast_append)
next
  case (5 v1 v2 v3 v4 r)
  then obtain c1 c2 c3 c4 cs' where cs: "cs = c1 # c2 # c3 # c4 # cs'" and r: "r = map lookup cs'"
    by (auto simp: Cons_eq_map_conv)
  show ?case
  proof (cases cs')
    case Nil
    with "5.prems" show ?thesis unfolding cs
      by (auto simp: decode_spec_def valid_chars_def decodeBase_steps decodeLast_steps
          butlast_append)
  next
    case (Cons c5 cs'')
    with "5.prems" "5.hyps"(1) [of cs' "Suc (Suc (Suc (Suc pos)))"] show ?thesis
      unfolding cs r
      by (auto simp: decode_spec_def valid_chars_def decodeBase_steps mod_4_steps
          butlast_append split: option.splits if_splits)
  qed
qed

lemma max_length_Suc4: "max_length (Suc (Suc (Suc (Suc n)))) = max_length n + 3"
proof -
  have "Suc (Suc (Suc (Suc n))) mod 4 = n mod 4" by presburger
  moreover have "(Suc (Suc (Suc (Suc n))) + 3) div 4 = (n + 3) div 4 + 1" by presburger
  moreover have "n mod 4 \<in> {2, 3} \<Longrightarrow> (n + 3) div 4 \<ge> 1" by (simp, presburger)
  ultimately show ?thesis by (auto simp: max_length_def Let_def)
qed

lemma length_octets: "octets vs = Some bs \<Longrightarrow> length bs = max_length (length vs)"
proof (induction vs arbitrary: bs rule: octets.induct)
  case (5 v1 v2 v3 v4 r)
  then show ?case by (auto simp: max_length_Suc4)
qed (auto simp: max_length_def split: if_splits)

lemma unpadded_length_le: "unpadded_length input \<le> length input"
  by (auto simp: unpadded_length_def Let_def)

lemma length_strip_padding [simp]: "length (strip_padding input) = unpadded_length input"
  by (simp add: strip_padding_def unpadded_length_le)

lemma unpadded_length_0:
  assumes "input \<noteq> []" and "unpadded_length input = 0"
  shows "input ! 0 = CHR ''=''"
proof -
  obtain x xs where x: "input = x # xs" using assms(1) by (cases input) auto
  show ?thesis
  proof (cases xs)
    case Nil
    with assms(2) x show ?thesis by (simp add: unpadded_length_def split: if_splits)
  next
    case (Cons y ys)
    with assms(2) x show ?thesis
      by (cases ys) (auto simp: unpadded_length_def Let_def split: if_splits)
  qed
qed

text \<open>
  The decoder as a whole: on every input it returns, without an out-of-range read, an access
  to an empty result or a failed assertion, and what it returns is the octets of the input
  without its padding, or the empty string.
\<close>

lemma decode_eq_spec:
  "decodeWithoutPadding input = Inr (case decode_spec (strip_padding input) of
     None \<Rightarrow> '''' | Some bs \<Rightarrow> bs)"
proof (cases "input = []")
  case True
  then show ?thesis
    by (simp add: decodeWithoutPadding_def strip_padding_def decode_spec_def valid_chars_def)
next
  case False
  let ?n = "unpadded_length input" and ?cs = "strip_padding input"
  show ?thesis
  proof (cases ?n)
    case 0
    then have "?cs = []" by (simp flip: length_0_conv)
    moreover from False 0 have "input ! 0 = CHR ''=''" by (rule unpadded_length_0)
    ultimately show ?thesis using False 0
      by (simp add: decodeWithoutPadding_def decode_loop.simps [of input 0] decodeBase_def
          lookup_excludes decode_spec_def valid_chars_def)
  next
    case (Suc m)
    have ne: "?cs \<noteq> []" using Suc by (simp flip: length_0_conv)
    have "m < length input" using Suc unpadded_length_le [of input] by simp
    then have "decodeWithoutPadding input =
        and_then (decode_chars ?cs 0 '''') (\<lambda>(ok, ret).
        if ok then require (length ret = max_length ?n) AssertionFailed (Inr ret) else Inr '''')"
      using False Suc decode_loop_chars [of 0 m input "[]", symmetric]
      by (auto simp: decodeWithoutPadding_def strip_padding_def and_then_def
          split: sum.splits if_splits)
    with decode_chars_spec [OF _ ne, of 0 "[]"] show ?thesis
      by (auto simp: decode_spec_def require_def length_octets split: option.splits if_splits)
  qed
qed

section \<open>Encoder and decoder are inverse\<close>

text \<open>Regrouping the bits one way and back: each line is a statement about eight bits.\<close>

lemma octets_of_sextets:
  "push_bit 2 (drop_bit 2 a) OR drop_bit 4 (push_bit 4 (a AND 3)) = (a::byte)"
  "push_bit 4 (a AND 3) AND 15 = (0::byte)"
  "push_bit 2 (a AND 15) AND 3 = (0::byte)"
  "push_bit 2 (drop_bit 2 a) OR drop_bit 4 (push_bit 4 (a AND 3) OR drop_bit 4 b) = (a::byte)"
  "push_bit 4 (push_bit 4 (a AND 3) OR drop_bit 4 b) OR drop_bit 2 (push_bit 2 (b AND 15)) = (b::byte)"
  "push_bit 4 (push_bit 4 (a AND 3) OR drop_bit 4 b) OR drop_bit 2 (push_bit 2 (b AND 15) OR drop_bit 6 c) = (b::byte)"
  "push_bit 6 (push_bit 2 (b AND 15) OR drop_bit 6 c) OR (c AND 63) = (c::byte)"
  by (simp_all add: byte_bits)

lemma sextets_of_octets:
  fixes v1 v2 v3 v4 :: byte
  shows
  "v1 < 64 \<Longrightarrow> v2 < 64 \<Longrightarrow> drop_bit 2 (push_bit 2 v1 OR drop_bit 4 v2) = v1"
  "v2 < 64 \<Longrightarrow> v2 AND 15 = 0 \<Longrightarrow> push_bit 4 ((push_bit 2 v1 OR drop_bit 4 v2) AND 3) = v2"
  "v2 < 64 \<Longrightarrow> v3 < 64 \<Longrightarrow>
     push_bit 4 ((push_bit 2 v1 OR drop_bit 4 v2) AND 3) OR drop_bit 4 (push_bit 4 v2 OR drop_bit 2 v3) = v2"
  "v3 < 64 \<Longrightarrow> v3 AND 3 = 0 \<Longrightarrow> push_bit 2 ((push_bit 4 v2 OR drop_bit 2 v3) AND 15) = v3"
  "v3 < 64 \<Longrightarrow> v4 < 64 \<Longrightarrow>
     push_bit 2 ((push_bit 4 v2 OR drop_bit 2 v3) AND 15) OR drop_bit 6 (push_bit 6 v3 OR v4) = v3"
  "v4 < 64 \<Longrightarrow> (push_bit 6 v3 OR v4) AND 63 = v4"
  by (simp_all add: byte_bits)

lemma octets_sextets: "octets (sextets bs) = Some bs"
  by (induction bs rule: sextets.induct)
    (simp_all only: sextets.simps octets.simps append.simps octets_of_sextets if_True option.map refl)

lemma sextets_octets:
  "octets vs = Some bs \<Longrightarrow> (\<And>v. v \<in> set vs \<Longrightarrow> v < 64) \<Longrightarrow> sextets bs = vs"
proof (induction vs arbitrary: bs rule: octets.induct)
  case (5 v1 v2 v3 v4 r)
  then obtain bs' where r: "octets r = Some bs'" and bs: "bs = [push_bit 2 v1 OR drop_bit 4 v2,
      push_bit 4 v2 OR drop_bit 2 v3, push_bit 6 v3 OR v4] @ bs'" by auto
  have "v1 < 64" "v2 < 64" "v3 < 64" "v4 < 64" "sextets bs' = r"
    using "5.prems"(2) "5.IH" [OF r] by simp_all
  then show ?case unfolding bs
    by (simp only: sextets.simps append.simps sextets_of_octets)
next
  case (3 v1 v2)
  then have "v2 AND 15 = 0" "bs = [push_bit 2 v1 OR drop_bit 4 v2]" "v1 < 64" "v2 < 64"
    by (simp_all split: if_splits)
  then show ?case by (simp only: sextets.simps sextets_of_octets)
next
  case (4 v1 v2 v3)
  then have "v3 AND 3 = 0" "bs = [push_bit 2 v1 OR drop_bit 4 v2, push_bit 4 v2 OR drop_bit 2 v3]"
    "v1 < 64" "v2 < 64" "v3 < 64"
    by (simp_all split: if_splits)
  then show ?case by (simp only: sextets.simps sextets_of_octets)
qed simp_all

lemma map_lookup_symbol:
  "(\<And>v. v \<in> set vs \<Longrightarrow> v < 64) \<Longrightarrow> map lookup (map symbol vs) = vs"
  by (induction vs) auto

lemma map_symbol_lookup: "valid_chars cs \<Longrightarrow> map symbol (map lookup cs) = cs"
  by (induction cs) (auto simp: valid_chars_def symbol_lookup)

lemma valid_chars_symbols:
  "(\<And>v. v \<in> set vs \<Longrightarrow> v < 64) \<Longrightarrow> valid_chars (map symbol vs)"
  by (auto simp: valid_chars_def list_all_iff)

lemma decode_spec_sextets:
  "decode_spec (map symbol (sextets (map char_byte s))) = Some s"
  using sextets_less_64 [of _ "map char_byte s"]
  by (simp add: decode_spec_def valid_chars_symbols map_lookup_symbol octets_sextets
      del: map_map) (simp add: comp_def)

lemma decode_spec_canonical:
  assumes "decode_spec cs = Some s"
  shows "map symbol (sextets (map char_byte s)) = cs"
proof -
  from assms obtain bs where valid: "valid_chars cs" and bs: "octets (map lookup cs) = Some bs"
    and s: "s = map byte_char bs"
    by (auto simp: decode_spec_def split: if_splits)
  have "sextets bs = map lookup cs"
    using valid by (intro sextets_octets [OF bs])
      (auto simp: valid_chars_def list_all_iff intro: lookup_less_64)
  then show ?thesis using map_symbol_lookup [OF valid] s by (simp add: comp_def)
qed

text \<open>Padding is a run of at most two characters outside the alphabet.\<close>

lemma strip_padding_symbols:
  assumes "\<And>v. v \<in> set vs \<Longrightarrow> v < 64" and "n mod 3 = 0 \<or> vs \<noteq> []"
  shows "strip_padding (map symbol vs @ padding n) = map symbol vs"
proof -
  have no_pad: "map symbol vs ! i \<noteq> CHR ''=''" if "i < length vs" for i
    using that assms(1) [of "vs ! i"] alphabet_excludes(1) symbol_mem [of "vs ! i"] by fastforce
  show ?thesis
    using no_pad [of "length vs - 1"] assms(2)
    by (auto simp: strip_padding_def unpadded_length_def padding_def Let_def nth_append
        split: if_splits)
qed

end
