(* ===== verification/Base64_Reference.thy ===== *)
theory Base64_Reference
  imports Base64
begin

text \<open>
  What the codec of \<^verbatim>\<open>source/utils/base64.h\<close> promises. RFC 4648 describes base64 on bit
  strings: the octets of the input are read as one stream of bits, most significant first, cut
  into groups of six with zeros added to the last one, and each group is written as one symbol
  of the alphabet; padding completes the text to a multiple of four characters. The reference
  encoder below is that description, with no carried bits and no positions; the code is proved
  to compute it. The theory closes with the interface that the header codec of the propagation
  code relies on.
\<close>

section \<open>The reference encoder\<close>

definition bits_of :: "nat \<Rightarrow> byte \<Rightarrow> bool list" where
  "bits_of k w = map (bit w) (rev [0..<k])"

definition bit_stream :: "byte list \<Rightarrow> bool list" where
  "bit_stream bs = concat (map (bits_of 8) bs)"

function groups_of_six :: "bool list \<Rightarrow> bool list list" where
  "groups_of_six bs =
     (if bs = [] then [] else take 6 (bs @ replicate 5 False) # groups_of_six (drop 6 bs))"
  by pat_completeness auto
termination
  by (relation "measure length") auto

declare groups_of_six.simps [simp del]

definition msb_value :: "bool list \<Rightarrow> nat" where
  "msb_value bs = foldl (\<lambda>n b. 2 * n + of_bool b) 0 bs"

definition rfc4648_encode :: "string \<Rightarrow> bool \<Rightarrow> string" where
  "rfc4648_encode s add_padding =
     (let body = map (\<lambda>g. CHAR_TABLE ! msb_value g) (groups_of_six (bit_stream (map char_byte s)))
      in body @ (if add_padding then replicate ((4 - length body mod 4) mod 4) (CHR ''='') else []))"

section \<open>The code's six-bit values are the groups of the bit stream\<close>

lemma groups_of_six_Nil [simp]: "groups_of_six [] = []"
  by (simp add: groups_of_six.simps)

lemma groups_of_six_append:
  "length g = 6 \<Longrightarrow> groups_of_six (g @ bs) = g # groups_of_six bs"
  by (subst groups_of_six.simps) auto

lemma groups_of_six_short:
  "bs \<noteq> [] \<Longrightarrow> length bs \<le> 6 \<Longrightarrow>
     groups_of_six bs = [bs @ replicate (6 - length bs) False]"
  by (subst groups_of_six.simps) (cases bs; auto)

lemma length_bits_of [simp]: "length (bits_of k w) = k"
  by (simp add: bits_of_def)

lemma bits_of_eval:
  "bits_of 8 w = [bit w 7, bit w 6, bit w 5, bit w 4, bit w 3, bit w 2, bit w 1, bit w 0]"
  "bits_of 6 w = [bit w 5, bit w 4, bit w 3, bit w 2, bit w 1, bit w 0]"
  unfolding bits_of_def by (simp_all add: upt_rec numeral_eq_Suc)

lemma regroup_one:
  "bits_of 8 a = bits_of 6 (drop_bit 2 a) @ [bit a 1, bit a 0]"
  "[bit a 1, bit a 0, False, False, False, False] = bits_of 6 (push_bit 4 (a AND 3))"
  by (simp_all add: bits_of_eval byte_bits)

lemma regroup_two:
  "bits_of 8 a @ bits_of 8 b = bits_of 6 (drop_bit 2 a)
     @ bits_of 6 (push_bit 4 (a AND 3) OR drop_bit 4 b) @ [bit b 3, bit b 2, bit b 1, bit b 0]"
  "[bit b 3, bit b 2, bit b 1, bit b 0, False, False] = bits_of 6 (push_bit 2 (b AND 15))"
  by (simp_all add: bits_of_eval byte_bits)

lemma regroup_three:
  "bits_of 8 a @ bits_of 8 b @ bits_of 8 c @ r = bits_of 6 (drop_bit 2 a)
     @ bits_of 6 (push_bit 4 (a AND 3) OR drop_bit 4 b)
     @ bits_of 6 (push_bit 2 (b AND 15) OR drop_bit 6 c) @ bits_of 6 (c AND 63) @ r"
  by (simp add: bits_of_eval byte_bits)

lemma groups_of_six_sextets: "groups_of_six (bit_stream bs) = map (bits_of 6) (sextets bs)"
proof (induction bs rule: sextets.induct)
  case 1
  then show ?case by (simp add: bit_stream_def)
next
  case (2 a)
  have "groups_of_six [bit a 1, bit a 0] = [bits_of 6 (push_bit 4 (a AND 3))]"
    unfolding regroup_one(2) [symmetric] by (simp add: groups_of_six_short numeral_eq_Suc)
  then show ?case
    by (simp only: bit_stream_def list.map concat.simps append_Nil2 regroup_one(1)
        groups_of_six_append length_bits_of sextets.simps)
next
  case (3 a b)
  have "groups_of_six [bit b 3, bit b 2, bit b 1, bit b 0] = [bits_of 6 (push_bit 2 (b AND 15))]"
    unfolding regroup_two(2) [symmetric] by (simp add: groups_of_six_short numeral_eq_Suc)
  then show ?case
    by (simp only: bit_stream_def list.map concat.simps append_Nil2 regroup_two(1)
        groups_of_six_append length_bits_of sextets.simps)
next
  case (4 a b c r)
  then show ?case
    by (simp only: bit_stream_def list.map concat.simps regroup_three
        groups_of_six_append length_bits_of sextets.simps append.simps)
qed

lemma msb_value_append_one: "msb_value (bs @ [b]) = 2 * msb_value bs + of_bool b"
  by (simp add: msb_value_def)

lemma msb_value_horner: "msb_value bs = horner_sum of_bool 2 (rev bs)"
  by (induction bs rule: rev_induct) (auto simp: msb_value_append_one msb_value_def)

lemma msb_value_bits_of:
  assumes "v < 64"
  shows "msb_value (bits_of 6 v) = unat v"
proof -
  have "msb_value (bits_of 6 v) = horner_sum of_bool 2 (map (bit (unat v)) [0..<6])"
    by (simp add: msb_value_horner bits_of_def rev_map bit_unsigned_iff cong: map_cong)
  also have "\<dots> = take_bit 6 (unat v)" by (simp only: horner_sum_bit_eq_take_bit)
  also have "\<dots> = unat v"
    using assms by (simp add: take_bit_nat_eq_self_iff word_less_nat_alt)
  finally show ?thesis .
qed

lemma length_sextets: "(4 - length (sextets bs) mod 4) mod 4 =
    (if length bs mod 3 = 1 then 2 else if length bs mod 3 = 2 then 1 else 0)"
proof (induction bs rule: sextets.induct)
  case (4 a b c r)
  have "Suc (Suc (Suc n)) mod 3 = n mod 3" for n :: nat by presburger
  then have "length (a # b # c # r) mod 3 = length r mod 3" by (simp only: length_Cons)
  then show ?case using "4.IH" by (simp only: sextets.simps length_append) simp
qed simp_all

lemma encode_eq_rfc4648: "encode s pad = Inr (rfc4648_encode s pad)"
proof -
  let ?vs = "sextets (map char_byte s)"
  have "map (\<lambda>g. CHAR_TABLE ! msb_value g) (map (bits_of 6) ?vs) = map symbol ?vs"
    using sextets_less_64 by (auto simp: symbol_def msb_value_bits_of)
  then have "rfc4648_encode s pad = map symbol ?vs
      @ (if pad then replicate ((4 - length ?vs mod 4) mod 4) (CHR ''='') else [])"
    by (simp only: rfc4648_encode_def groups_of_six_sextets Let_def length_map)
  moreover have "replicate 2 (CHR ''='') = ''==''" "replicate 1 (CHR ''='') = ''=''"
    by (simp_all add: numeral_2_eq_2)
  ultimately show ?thesis
    by (simp only: encode_eq_sextets length_sextets padding_def length_map)
      (simp only: if_distrib [of "\<lambda>n. replicate n _"] replicate.simps(1))
qed

section \<open>Properties of the codec\<close>

text \<open>C16. The encoder computes the base64 encoding of RFC 4648, padded or not, for every input;
  in particular no read of the symbol table is out of bounds.\<close>

theorem encode_is_rfc4648: "encode s add_padding = Inr (rfc4648_encode s add_padding)"
  by (rule encode_eq_rfc4648)

lemma decode_encode_aux:
  assumes "encode s pad = Inr t"
  shows "decodeWithoutPadding t = Inr s"
proof -
  let ?vs = "sextets (map char_byte s)"
  have lt: "\<And>v. v \<in> set ?vs \<Longrightarrow> v < 64" by (rule sextets_less_64)
  have "?vs \<noteq> [] \<or> length s mod 3 = 0"
    by (cases "map char_byte s" rule: sextets.cases) auto
  then have "strip_padding (map symbol ?vs @ padding (length s)) = map symbol ?vs"
    by (intro strip_padding_symbols lt) auto
  moreover have "strip_padding (map symbol ?vs @ padding 0) = map symbol ?vs"
    by (intro strip_padding_symbols lt) auto
  ultimately have "strip_padding t = map symbol ?vs"
    using assms by (auto simp: encode_eq_sextets padding_def [of 0])
  then show ?thesis by (simp only: decode_eq_spec decode_spec_sextets option.case)
qed

text \<open>C17. Decoding what the encoder wrote, with or without padding, gives back the input.\<close>

theorem decode_encode: "and_then (encode s add_padding) decodeWithoutPadding = Inr s"
  using decode_encode_aux [of s add_padding] by (simp add: encode_eq_sextets)

text \<open>C33. The decoder returns on every input, with no fault: it returns the octets that the
  input without its padding stands for, and the empty string when there are none, because of a
  character outside the alphabet, a single left-over character or unused bits that are set.\<close>

theorem decode_every_input:
  "decodeWithoutPadding input =
     Inr (case decode_spec (strip_padding input) of None \<Rightarrow> '''' | Some s \<Rightarrow> s)"
  by (rule decode_eq_spec)

text \<open>The decoder accepts canonical text only: a non-empty result encodes to exactly the
  characters that were decoded, so no two texts, padding apart, decode to one value.\<close>

lemma decode_accepts_canonical:
  assumes "decodeWithoutPadding input = Inr s" and "s \<noteq> ''''"
  shows "encode s False = Inr (strip_padding input)"
proof -
  have "decode_spec (strip_padding input) = Some s"
    using assms by (auto simp: decode_eq_spec split: option.splits)
  then show ?thesis by (simp add: encode_eq_sextets decode_spec_canonical)
qed

lemma decode_accepts_canonical_witness:
  "decodeWithoutPadding ''SGVsbG8='' = Inr ''Hello'' \<and> encode ''Hello'' False = Inr ''SGVsbG8''"
proof -
  have e: "encode ''Hello'' True = Inr ''SGVsbG8=''" by code_simp
  then have d: "decodeWithoutPadding ''SGVsbG8='' = Inr ''Hello''" by (rule decode_encode_aux)
  moreover have "strip_padding ''SGVsbG8='' = ''SGVsbG8''"
    by (simp add: strip_padding_def unpadded_length_def)
  ultimately show ?thesis using decode_accepts_canonical [OF d] by simp
qed

text \<open>The buffer the encoder reserves, \<open>(length + 2) / 3 * 4\<close> characters, is exactly the
  length of the padded output.\<close>

lemma encode_reserved_length:
  "\<exists>t. encode s True = Inr t \<and> length t = (length s + 2) div 3 * 4"
proof -
  have "length (sextets bs) + length (padding (length bs)) = (length bs + 2) div 3 * 4" for bs
  proof (induction bs rule: sextets.induct)
    case (4 a b c r)
    have "(length (a # b # c # r) + 2) div 3 = (length r + 2) div 3 + 1" by simp
    with "4.IH" show ?case by (simp only: sextets.simps length_Cons padding_Suc3) simp
  qed (simp_all add: padding_def)
  from this [of "map char_byte s"] show ?thesis by (simp add: encode_eq_sextets)
qed

section \<open>The interface of a header field codec\<close>

text \<open>
  What the sw8 header code relies on when it writes fields with one function and reads them
  with another: writing succeeds, a written field holds no separator, and reading gives it back.
\<close>

locale field_codec =
  fixes write_field :: "string \<Rightarrow> string outcome"
    and read_field :: "string \<Rightarrow> string outcome"
    and text_of :: "string \<Rightarrow> string"
    and separator :: char
  assumes write_text: "write_field s = Inr (text_of s)"
    and no_separator: "separator \<notin> set (text_of s)"
    and read_text: "read_field (text_of s) = Inr s"
begin

lemma text_injective: "text_of s = text_of s' \<longleftrightarrow> s = s'"
  using read_text by (metis sum.inject(2))

lemma write_injective: "write_field s = write_field s' \<longleftrightarrow> s = s'"
  by (simp add: write_text text_injective)

lemma takeWhile_text:
  "takeWhile (\<lambda>c. c \<noteq> separator) (text_of s @ separator # rest) = text_of s"
  using no_separator [of s] by (subst takeWhile_append2) auto

end

definition base64_text :: "string \<Rightarrow> string" where
  "base64_text s = rfc4648_encode s True"

lemma encode_padded_text: "encode_padded s = Inr (base64_text s)"
  by (simp add: encode_padded_def base64_text_def encode_eq_rfc4648)

lemma base64_text_no_dash: "CHR ''-'' \<notin> set (base64_text s)"
proof -
  have "CHR ''-'' \<notin> set (map symbol (sextets bs))" for bs
    using sextets_less_64 [of _ bs] symbol_mem alphabet_excludes(2) by fastforce
  moreover have "CHR ''-'' \<notin> set (padding n)" for n by (simp add: padding_def)
  moreover have "base64_text s = map symbol (sextets (map char_byte s)) @ padding (length s)"
    using encode_padded_text [of s] by (simp add: encode_padded_def encode_eq_sextets)
  ultimately show ?thesis by (metis Un_iff set_append)
qed

interpretation b64: field_codec encode_padded decodeWithoutPadding base64_text "CHR ''-''"
  by unfold_locales (auto simp: encode_padded_text base64_text_no_dash
      intro!: decode_encode_aux [of _ True] simp flip: encode_padded_def)

end
