(* ===== verification/Propagation.thy ===== *)
theory Propagation
  imports Base64_Reference
begin

text \<open>
  The decoding of the \<open>sw8\<close> and \<open>sw8-x\<close> headers: \<open>SpanContextImpl\<close>,
  \<open>SpanContextExtensionImpl\<close> and the two functions that create them
  (\<^verbatim>\<open>source/propagation_impl.{h,cc}\<close>, \<^verbatim>\<open>cpp2sky/propagation.h\<close>). A constructor returns the
  object, or the exception it throws, or the undefined behaviour it runs into. The two
  constructors split the header with the same loop, which is one function here, with the number
  of fields and the message of the exception as arguments.

  \<open>absl::SimpleAtoi\<close> belongs to the Abseil library and is an argument of the model: it returns
  the 32-bit value of a text, or nothing.
\<close>

section \<open>Splitting a header at its dashes\<close>

definition EXPECTED_FIELD_COUNT :: nat where
  "EXPECTED_FIELD_COUNT = 8"

definition EXPECTED_EXTENSION_FIELD_COUNT :: nat where
  "EXPECTED_EXTENSION_FIELD_COUNT = 1"

text \<open>
  The loop over the characters that remain, with the index of the current field, the characters
  read for it so far, and the array of fields. \<open>count\<close> is the size of the array.
\<close>

fun split_loop ::
  "nat \<Rightarrow> string \<Rightarrow> string \<Rightarrow> nat \<Rightarrow> string \<Rightarrow> string list \<Rightarrow> (nat \<times> string \<times> string list) outcome"
where
  "split_loop count message [] current_field_idx v field_values = Inr (current_field_idx, v, field_values)"
| "split_loop count message (c # cs) current_field_idx v field_values =
     (if current_field_idx \<ge> count then Inl (TracerException message)
      else if c = CHR ''-'' then
        and_then (write_at field_values current_field_idx v) (\<lambda>field_values'.
        split_loop count message cs (current_field_idx + 1) '''' field_values')
      else split_loop count message cs current_field_idx (v @ [c]) field_values)"

text \<open>The loop, the assignment of the last field after it, and the check of the count.\<close>

definition parse_fields :: "nat \<Rightarrow> string \<Rightarrow> string \<Rightarrow> string list outcome" where
  "parse_fields count message header_value =
     and_then (split_loop count message header_value 0 '''' (replicate count '''')) (\<lambda>(idx, v, field_values).
     and_then (write_at field_values idx v) (\<lambda>field_values.
     if idx \<noteq> count - 1 then Inl (TracerException message) else Inr field_values))"

section \<open>The span context\<close>

record span_context =
  sc_sample :: bool
  sc_trace_id :: string
  sc_trace_segment_id :: string
  sc_span_id :: int32
  sc_service :: string
  sc_service_instance :: string
  sc_endpoint :: string
  sc_target_address :: string

definition SpanContextImpl :: "(string \<Rightarrow> int32 option) \<Rightarrow> string \<Rightarrow> span_context outcome" where
  "SpanContextImpl simple_atoi header_value =
     and_then (parse_fields EXPECTED_FIELD_COUNT
       ''Invalid span context format. It must have 8 fields.'' header_value) (\<lambda>field_values.
     if field_values ! 0 \<noteq> ''0'' \<and> field_values ! 0 \<noteq> ''1'' then
       Inl (TracerException ''Invalid span context format. Sample field must be 0 or 1.'')
     else
       and_then (decodeWithoutPadding (field_values ! 1)) (\<lambda>trace_id.
       and_then (decodeWithoutPadding (field_values ! 2)) (\<lambda>trace_segment_id.
       case simple_atoi (field_values ! 3) of
         None \<Rightarrow> Inl (TracerException
           ''Invalid span id format. Span id field must be integer number.'')
       | Some span_id \<Rightarrow>
           and_then (decodeWithoutPadding (field_values ! 4)) (\<lambda>service.
           and_then (decodeWithoutPadding (field_values ! 5)) (\<lambda>service_instance.
           and_then (decodeWithoutPadding (field_values ! 6)) (\<lambda>endpoint.
           and_then (decodeWithoutPadding (field_values ! 7)) (\<lambda>target_address.
           Inr \<lparr>sc_sample = True, sc_trace_id = trace_id, sc_trace_segment_id = trace_segment_id,
                sc_span_id = span_id, sc_service = service,
                sc_service_instance = service_instance, sc_endpoint = endpoint,
                sc_target_address = target_address\<rparr>)))))))"

definition createSpanContext :: "(string \<Rightarrow> int32 option) \<Rightarrow> string \<Rightarrow> span_context outcome" where
  "createSpanContext simple_atoi ctx = SpanContextImpl simple_atoi ctx"

section \<open>The span context extension\<close>

datatype tracing_mode = Default | Skip

record span_context_extension =
  sce_tracing_mode :: tracing_mode

definition SpanContextExtensionImpl :: "string \<Rightarrow> span_context_extension outcome" where
  "SpanContextExtensionImpl header_value =
     and_then (parse_fields EXPECTED_EXTENSION_FIELD_COUNT
       ''Invalid span context format. It must have 1 fields.'' header_value) (\<lambda>field_values.
     if field_values ! 0 \<noteq> ''0'' \<and> field_values ! 0 \<noteq> ''1'' then
       Inl (TracerException ''Invalid span context format. tracing mode field must be 0 or 1.'')
     else Inr \<lparr>sce_tracing_mode = (if field_values ! 0 = ''1'' then Skip else Default)\<rparr>)"

definition createSpanContextExtension :: "string \<Rightarrow> span_context_extension outcome" where
  "createSpanContextExtension ctx = SpanContextExtensionImpl ctx"

section \<open>What the splitting computes\<close>

text \<open>The fields of a header: the texts between its dashes.\<close>

fun split_dash :: "string \<Rightarrow> string list" where
  "split_dash [] = [[]]"
| "split_dash (c # cs) =
     (if c = CHR ''-'' then [] # split_dash cs
      else (case split_dash cs of [] \<Rightarrow> [[c]] | f # fs \<Rightarrow> (c # f) # fs))"

fun join_dash :: "string list \<Rightarrow> string" where
  "join_dash [] = ''''"
| "join_dash [f] = f"
| "join_dash (f # g # fs) = f @ ''-'' @ join_dash (g # fs)"

lemma split_dash_nonempty [simp]: "split_dash cs \<noteq> []"
  by (cases cs) (auto split: list.splits)

lemma split_dash_singleton: "split_dash cs = [f] \<Longrightarrow> f = cs"
  by (induction cs arbitrary: f) (auto split: if_splits list.splits)

lemma split_dash_no_dash: "f \<in> set (split_dash cs) \<Longrightarrow> CHR ''-'' \<notin> set f"
  by (induction cs arbitrary: f) (auto split: if_splits list.splits)

lemma join_split_dash: "join_dash (split_dash cs) = cs"
proof (induction cs)
  case (Cons c cs)
  obtain f fs where s: "split_dash cs = f # fs" by (cases "split_dash cs") auto
  with Cons show ?case by (cases fs) auto
qed simp

lemma split_dash_append:
  "CHR ''-'' \<notin> set f \<Longrightarrow> split_dash (f @ CHR ''-'' # cs) = f # split_dash cs"
  by (induction f) auto

lemma split_dash_plain: "CHR ''-'' \<notin> set f \<Longrightarrow> split_dash f = [f]"
  by (induction f) auto

lemma split_join_dash:
  "fs \<noteq> [] \<Longrightarrow> list_all (\<lambda>f. CHR ''-'' \<notin> set f) fs \<Longrightarrow> split_dash (join_dash fs) = fs"
  by (induction fs rule: join_dash.induct) (auto simp: split_dash_plain split_dash_append)

text \<open>
  The loop with the assignment after it, from any point of the header: it succeeds when the
  fields that remain fill the array exactly. When there is one field too many and it is empty,
  the header ended with the dash of the last field, no character was left to run into the check
  at the head of the loop, and the assignment writes past the array.
\<close>

lemma split_loop_result:
  assumes "length field_values = count" and "idx \<le> count" and "idx = count \<Longrightarrow> v = ''''"
  shows "and_then (split_loop count message cs idx v field_values) (\<lambda>(idx, v, field_values).
      and_then (write_at field_values idx v) (\<lambda>field_values.
      if idx \<noteq> count - 1 then Inl (TracerException message) else Inr field_values))
    = (let fs = split_dash cs in
       if idx + length fs = count then Inr (take idx field_values @ (v @ hd fs) # tl fs)
       else if idx + length fs = Suc count \<and> last fs = '''' then Inl OutOfBounds
       else Inl (TracerException message))"
  using assms
proof (induction cs arbitrary: idx v field_values)
  case Nil
  then show ?case
    by (cases "idx < count") (auto simp: Let_def upd_conv_take_nth_drop)
next
  case (Cons c cs)
  show ?case
  proof (cases "idx < count")
    case False
    with Cons.prems have "idx = count" by simp
    moreover have "length (split_dash (c # cs)) = 1 \<Longrightarrow> last (split_dash (c # cs)) \<noteq> ''''"
      using split_dash_singleton [of "c # cs"]
      by (auto simp: length_Suc_conv simp del: split_dash.simps)
    moreover have "length (split_dash (c # cs)) \<noteq> 0" by (simp del: split_dash.simps)
    ultimately show ?thesis by (auto simp: Let_def simp del: split_dash.simps)
  next
    case True
    obtain f fs where fs: "split_dash cs = f # fs" by (cases "split_dash cs") auto
    have "take (Suc idx) (field_values[idx := v]) = take idx field_values @ [v]"
      using True Cons.prems(1) by (simp add: take_Suc_conv_app_nth)
    then show ?thesis
      using True Cons.prems(1) fs Cons.IH [of "field_values[idx := v]" "Suc idx" "''''"]
        Cons.IH [of field_values idx "v @ [c]"]
      by (auto simp: Let_def)
  qed
qed

lemma parse_fields_result:
  assumes "0 < count"
  shows "parse_fields count message header_value =
    (let fs = split_dash header_value in
     if length fs = count then Inr fs
     else if length fs = Suc count \<and> last fs = '''' then Inl OutOfBounds
     else Inl (TracerException message))"
proof -
  have "hd (split_dash header_value) # tl (split_dash header_value) = split_dash header_value"
    by simp
  then show ?thesis
    using split_loop_result [of "replicate count ''''" count 0 "''''" message header_value] assms
    by (simp add: parse_fields_def Let_def del: hd_Cons_tl list.collapse)
qed

section \<open>The span context header\<close>

definition decoded :: "string \<Rightarrow> string" where
  "decoded x = (case decode_spec (strip_padding x) of None \<Rightarrow> '''' | Some s \<Rightarrow> s)"

lemma decode_decoded: "decodeWithoutPadding x = Inr (decoded x)"
  by (simp add: decoded_def decode_eq_spec)

text \<open>The constructor with the splitting and the decoding replaced by their results.\<close>

lemma SpanContextImpl_eq:
  "SpanContextImpl simple_atoi h =
    (let fs = split_dash h in
     if length fs \<noteq> 8 then
       Inl (if length fs = 9 \<and> last fs = '''' then OutOfBounds
            else TracerException ''Invalid span context format. It must have 8 fields.'')
     else if fs ! 0 \<noteq> ''0'' \<and> fs ! 0 \<noteq> ''1'' then
       Inl (TracerException ''Invalid span context format. Sample field must be 0 or 1.'')
     else case simple_atoi (fs ! 3) of
       None \<Rightarrow> Inl (TracerException
           ''Invalid span id format. Span id field must be integer number.'')
     | Some i \<Rightarrow> Inr \<lparr>sc_sample = True, sc_trace_id = decoded (fs ! 1),
         sc_trace_segment_id = decoded (fs ! 2), sc_span_id = i, sc_service = decoded (fs ! 4),
         sc_service_instance = decoded (fs ! 5), sc_endpoint = decoded (fs ! 6),
         sc_target_address = decoded (fs ! 7)\<rparr>)"
  by (auto simp: SpanContextImpl_def parse_fields_result EXPECTED_FIELD_COUNT_def Let_def
      decode_decoded split: option.split)

lemma SpanContextImpl_Inr_iff:
  "SpanContextImpl simple_atoi h = Inr sc \<longleftrightarrow>
    (\<exists>f0 f1 f2 f3 f4 f5 f6 f7. split_dash h = [f0, f1, f2, f3, f4, f5, f6, f7]
      \<and> f0 \<in> {''0'', ''1''} \<and> sc_sample sc \<and> simple_atoi f3 = Some (sc_span_id sc)
      \<and> decodeWithoutPadding f1 = Inr (sc_trace_id sc)
      \<and> decodeWithoutPadding f2 = Inr (sc_trace_segment_id sc)
      \<and> decodeWithoutPadding f4 = Inr (sc_service sc)
      \<and> decodeWithoutPadding f5 = Inr (sc_service_instance sc)
      \<and> decodeWithoutPadding f6 = Inr (sc_endpoint sc)
      \<and> decodeWithoutPadding f7 = Inr (sc_target_address sc))"
proof (cases "length (split_dash h) = 8")
  case True
  then obtain f0 f1 f2 f3 f4 f5 f6 f7 where "split_dash h = [f0, f1, f2, f3, f4, f5, f6, f7]"
    by (auto simp: numeral_eq_Suc length_Suc_conv)
  then show ?thesis
    by (cases sc) (auto simp: SpanContextImpl_eq Let_def decode_decoded split: option.split)
next
  case False
  then show ?thesis by (auto simp: SpanContextImpl_eq Let_def)
qed

text \<open>C14. A \<open>sw8\<close> header is accepted exactly when it has eight fields between its dashes, the
  first one is \<open>0\<close> or \<open>1\<close> and the fourth one is a 32-bit integer; the context then holds that
  integer and the decoded texts, and is sampled whatever the first field said.\<close>

theorem span_context_accepted:
  "SpanContextImpl simple_atoi h = Inr sc \<longleftrightarrow>
    (\<exists>f0 f1 f2 f3 f4 f5 f6 f7. split_dash h = [f0, f1, f2, f3, f4, f5, f6, f7]
      \<and> f0 \<in> {''0'', ''1''} \<and> sc_sample sc \<and> simple_atoi f3 = Some (sc_span_id sc)
      \<and> decodeWithoutPadding f1 = Inr (sc_trace_id sc)
      \<and> decodeWithoutPadding f2 = Inr (sc_trace_segment_id sc)
      \<and> decodeWithoutPadding f4 = Inr (sc_service sc)
      \<and> decodeWithoutPadding f5 = Inr (sc_service_instance sc)
      \<and> decodeWithoutPadding f6 = Inr (sc_endpoint sc)
      \<and> decodeWithoutPadding f7 = Inr (sc_target_address sc))"
  by (rule SpanContextImpl_Inr_iff)

text \<open>C30. What ends the construction otherwise, in the order of the checks: the wrong number of
  fields, a first field other than \<open>0\<close> and \<open>1\<close>, a fourth field that is no integer. All are
  exceptions but one: eight fields and a dash at the end are undefined behaviour.\<close>

theorem span_context_rejected:
  "SpanContextImpl simple_atoi h = Inl f \<longleftrightarrow>
    (let fs = split_dash h in
      length fs \<noteq> 8 \<and> f = (if length fs = 9 \<and> last fs = '''' then OutOfBounds
        else TracerException ''Invalid span context format. It must have 8 fields.'')
    \<or> length fs = 8 \<and> fs ! 0 \<notin> {''0'', ''1''}
      \<and> f = TracerException ''Invalid span context format. Sample field must be 0 or 1.''
    \<or> length fs = 8 \<and> fs ! 0 \<in> {''0'', ''1''} \<and> simple_atoi (fs ! 3) = None
      \<and> f = TracerException ''Invalid span id format. Span id field must be integer number.'')"
  by (auto simp: SpanContextImpl_eq Let_def split: option.split)

lemma split_dash_snoc: "split_dash (h @ ''-'') = split_dash h @ ['''']"
  by (induction h) (auto split: list.splits)

text \<open>A header of eight fields followed by one more dash, which a peer can send, makes the
  constructor assign the ninth element of an array of eight.\<close>

lemma span_context_trailing_dash:
  assumes "length (split_dash h) = 8"
  shows "SpanContextImpl simple_atoi (h @ ''-'') = Inl OutOfBounds"
  using assms by (simp add: SpanContextImpl_eq Let_def split_dash_snoc)

lemma span_context_trailing_dash_witness:
  "SpanContextImpl (\<lambda>_. None)
     ''1-MQ==-NQ==-3-bWVzaA==-aW5zdGFuY2U=-L2FwaS92MS9oZWFsdGg=-ZXhhbXBsZS5jb206ODA4MA==-''
   = Inl OutOfBounds"
proof -
  let ?h = "''1-MQ==-NQ==-3-bWVzaA==-aW5zdGFuY2U=-L2FwaS92MS9oZWFsdGg=-ZXhhbXBsZS5jb206ODA4MA==''"
  have "length (split_dash ?h) = 8" by simp
  from span_context_trailing_dash [OF this] show ?thesis by simp
qed

section \<open>The extension header\<close>

text \<open>The extension header is accepted in exactly two forms, \<open>0\<close> for the default mode and
  \<open>1\<close> for skipping the analysis; a text without dashes other than these and a text with dashes
  are refused by an exception, but for a single dash at the end, which is undefined behaviour.\<close>

lemma span_context_extension_result:
  "SpanContextExtensionImpl h =
    (if h = ''0'' then Inr \<lparr>sce_tracing_mode = Default\<rparr>
     else if h = ''1'' then Inr \<lparr>sce_tracing_mode = Skip\<rparr>
     else if CHR ''-'' \<notin> set h then
       Inl (TracerException ''Invalid span context format. tracing mode field must be 0 or 1.'')
     else if CHR ''-'' \<notin> set (butlast h) then Inl OutOfBounds
     else Inl (TracerException ''Invalid span context format. It must have 1 fields.''))"
proof (cases "CHR ''-'' \<in> set h")
  case False
  then show ?thesis
    by (simp add: SpanContextExtensionImpl_def parse_fields_result
        EXPECTED_EXTENSION_FIELD_COUNT_def split_dash_plain Let_def)
next
  case True
  then obtain f r where h: "h = f @ CHR ''-'' # r" and f: "CHR ''-'' \<notin> set f"
    by (auto dest: split_list_first)
  have "(length (split_dash h) = 2 \<and> last (split_dash h) = '''') \<longleftrightarrow> r = ''''"
    using f by (auto simp: h split_dash_append length_Suc_conv dest: split_dash_singleton)
  moreover have "CHR ''-'' \<notin> set (butlast h) \<longleftrightarrow> r = ''''"
    using f by (auto simp: h butlast_append)
  moreover have "h \<noteq> ''0''" "h \<noteq> ''1''" using True by auto
  moreover have "length (split_dash h) \<noteq> 1" by (simp add: h f split_dash_append)
  ultimately show ?thesis using True
    by (auto simp: SpanContextExtensionImpl_def parse_fields_result
        EXPECTED_EXTENSION_FIELD_COUNT_def Let_def numeral_2_eq_2)
qed

section \<open>Headers written field by field\<close>

text \<open>
  What a writer of headers can rely on: fields written by a codec whose separator is the dash
  are found again by the splitting, and reading them gives back what was written.
\<close>

context field_codec begin

lemma split_joined:
  assumes "separator = CHR ''-''" and "ss \<noteq> []"
  shows "split_dash (join_dash (map text_of ss)) = map text_of ss"
  using assms no_separator by (intro split_join_dash) (auto simp: list_all_iff)

lemma read_joined:
  assumes "separator = CHR ''-''" and "ss \<noteq> []"
  shows "map read_field (split_dash (join_dash (map text_of ss))) = map Inr ss"
  by (simp add: split_joined [OF assms] read_text)

end

text \<open>The header protocol, version 3: the eight fields of a context, as text.\<close>

definition sw8_text :: "span_context \<Rightarrow> string" where
  "sw8_text sc = join_dash
     [''1'', base64_text (sc_trace_id sc), base64_text (sc_trace_segment_id sc),
      std_to_string (sc_span_id sc), base64_text (sc_service sc),
      base64_text (sc_service_instance sc), base64_text (sc_endpoint sc),
      base64_text (sc_target_address sc)]"

text \<open>\<open>absl::SimpleAtoi\<close> reads what \<open>std::to_string\<close> prints.\<close>

definition simple_atoi_spec :: "(string \<Rightarrow> int32 option) \<Rightarrow> bool" where
  "simple_atoi_spec simple_atoi \<longleftrightarrow> (\<forall>w. simple_atoi (std_to_string w) = Some w)"

lemma std_to_string_no_dash: "0 \<le> sint w \<Longrightarrow> CHR ''-'' \<notin> set (std_to_string w)"
  using nat_digits_digits [of "nat (sint w)"]
  by (auto simp: std_to_string_def int_digits_def list_all_iff dest: is_digit_no_dash)

lemma sw8_text_split:
  assumes "0 \<le> sint (sc_span_id sc)"
  shows "split_dash (sw8_text sc) =
     [''1'', base64_text (sc_trace_id sc), base64_text (sc_trace_segment_id sc),
      std_to_string (sc_span_id sc), base64_text (sc_service sc),
      base64_text (sc_service_instance sc), base64_text (sc_endpoint sc),
      base64_text (sc_target_address sc)]"
  unfolding sw8_text_def
  by (rule split_join_dash) (simp_all add: b64.no_separator std_to_string_no_dash assms)

lemma SpanContextImpl_sw8_text:
  assumes "simple_atoi_spec simple_atoi" and "0 \<le> sint (sc_span_id sc)"
  shows "SpanContextImpl simple_atoi (sw8_text sc) = Inr (sc\<lparr>sc_sample := True\<rparr>)"
  unfolding SpanContextImpl_Inr_iff sw8_text_split [OF assms(2)]
  using assms(1) by (simp add: b64.read_text simple_atoi_spec_def)

lemma base64_text_empty: "base64_text s = '''' \<longleftrightarrow> s = ''''"
proof -
  have "base64_text '''' = ''''" by code_simp
  then show ?thesis using b64.read_text by (metis sum.inject(2))
qed

text \<open>The sign of a negative span id is one more separator.\<close>

lemma sw8_text_split_negative:
  assumes "sint (sc_span_id sc) < 0"
  shows "split_dash (sw8_text sc) =
     [''1'', base64_text (sc_trace_id sc), base64_text (sc_trace_segment_id sc),
      '''', nat_digits (nat (- sint (sc_span_id sc))), base64_text (sc_service sc),
      base64_text (sc_service_instance sc), base64_text (sc_endpoint sc),
      base64_text (sc_target_address sc)]"
proof -
  let ?fs = "[''1'', base64_text (sc_trace_id sc), base64_text (sc_trace_segment_id sc),
      '''', nat_digits (nat (- sint (sc_span_id sc))), base64_text (sc_service sc),
      base64_text (sc_service_instance sc), base64_text (sc_endpoint sc),
      base64_text (sc_target_address sc)]"
  have text_eq: "sw8_text sc = join_dash ?fs"
    using assms by (simp add: sw8_text_def std_to_string_def int_digits_def)
  have "CHR ''-'' \<notin> set (nat_digits n)" for n
    using nat_digits_digits [of n] by (auto simp: list_all_iff dest: is_digit_no_dash)
  then show ?thesis unfolding text_eq by (intro split_join_dash) (simp_all add: b64.no_separator)
qed

lemma SpanContextImpl_sw8_text_negative:
  assumes "sint (sc_span_id sc) < 0"
  shows "SpanContextImpl simple_atoi (sw8_text sc) =
    Inl (if sc_target_address sc = '''' then OutOfBounds
      else TracerException ''Invalid span context format. It must have 8 fields.'')"
  by (simp add: SpanContextImpl_eq sw8_text_split_negative [OF assms] Let_def base64_text_empty)

lemma read_sw8_text:
  assumes "simple_atoi_spec simple_atoi"
  shows "SpanContextImpl simple_atoi (sw8_text sc) =
    (if 0 \<le> sint (sc_span_id sc) then Inr (sc\<lparr>sc_sample := True\<rparr>)
     else Inl (if sc_target_address sc = '''' then OutOfBounds
       else TracerException ''Invalid span context format. It must have 8 fields.''))"
  using SpanContextImpl_sw8_text [OF assms] SpanContextImpl_sw8_text_negative by simp

text \<open>Any context whose span id is not negative survives the trip: the constructor reads
  back from the header text every field that was written to it. A negative id does not: its
  sign is one more dash, the header is refused, and when the target address is empty the
  constructor writes past its array before it counts the fields.\<close>

lemma span_context_roundtrip:
  assumes "simple_atoi_spec simple_atoi"
  shows "SpanContextImpl simple_atoi (sw8_text sc) =
    (if 0 \<le> sint (sc_span_id sc) then Inr (sc\<lparr>sc_sample := True\<rparr>)
     else Inl (if sc_target_address sc = '''' then OutOfBounds
       else TracerException ''Invalid span context format. It must have 8 fields.''))"
  using assms by (rule read_sw8_text)

text \<open>A reader of decimal integers, to instantiate the hypothesis with.\<close>

definition decimal_atoi :: "string \<Rightarrow> int32 option" where
  "decimal_atoi s =
     (let negative = (s \<noteq> '''' \<and> hd s = CHR ''-''); ds = (if negative then tl s else s);
          v = (if negative then - int (digits_value ds) else int (digits_value ds))
      in if ds \<noteq> '''' \<and> list_all is_digit ds \<and> - (2 ^ 31) \<le> v \<and> v < 2 ^ 31
         then Some (word_of_int v) else None)"

lemma int_digits_nonneg_hd: "0 \<le> i \<Longrightarrow> hd (int_digits i) \<noteq> CHR ''-''"
  using nat_digits_digits [of "nat i"] nat_digits_nonempty [of "nat i"]
  by (cases "nat_digits (nat i)") (auto simp: int_digits_def dest: is_digit_no_dash)

lemma decimal_atoi_spec: "simple_atoi_spec decimal_atoi"
  unfolding simple_atoi_spec_def
proof
  fix w :: int32
  have "- (2 ^ 31) \<le> sint w" "sint w < 2 ^ 31"
    using sint_ge [of w] sint_lt [of w] by simp_all
  then show "decimal_atoi (std_to_string w) = Some w"
    using int_digits_nonneg_hd [of "sint w"]
    by (cases "sint w < 0") (auto simp: decimal_atoi_def std_to_string_def int_digits_def Let_def
        digits_value_nat_digits nat_digits_digits)
qed

lemma span_context_roundtrip_witness:
  "sw8_text \<lparr>sc_sample = True, sc_trace_id = ''1'', sc_trace_segment_id = ''5'', sc_span_id = 3,
      sc_service = ''mesh'', sc_service_instance = ''instance'', sc_endpoint = ''/api/v1/health'',
      sc_target_address = ''example.com:8080''\<rparr>
   = ''1-MQ==-NQ==-3-bWVzaA==-aW5zdGFuY2U=-L2FwaS92MS9oZWFsdGg=-ZXhhbXBsZS5jb206ODA4MA==''
   \<and> simple_atoi_spec decimal_atoi
   \<and> SpanContextImpl decimal_atoi
      ''1-MQ==-NQ==-3-bWVzaA==-aW5zdGFuY2U=-L2FwaS92MS9oZWFsdGg=-ZXhhbXBsZS5jb206ODA4MA==''
     = Inr \<lparr>sc_sample = True, sc_trace_id = ''1'', sc_trace_segment_id = ''5'', sc_span_id = 3,
      sc_service = ''mesh'', sc_service_instance = ''instance'', sc_endpoint = ''/api/v1/health'',
      sc_target_address = ''example.com:8080''\<rparr>"
proof -
  have "sw8_text \<lparr>sc_sample = True, sc_trace_id = ''1'', sc_trace_segment_id = ''5'', sc_span_id = 3,
      sc_service = ''mesh'', sc_service_instance = ''instance'', sc_endpoint = ''/api/v1/health'',
      sc_target_address = ''example.com:8080''\<rparr>
    = ''1-MQ==-NQ==-3-bWVzaA==-aW5zdGFuY2U=-L2FwaS92MS9oZWFsdGg=-ZXhhbXBsZS5jb206ODA4MA==''"
    by code_simp
  then show ?thesis
    using span_context_roundtrip [OF decimal_atoi_spec, of "\<lparr>sc_sample = True,
      sc_trace_id = ''1'', sc_trace_segment_id = ''5'', sc_span_id = 3, sc_service = ''mesh'',
      sc_service_instance = ''instance'', sc_endpoint = ''/api/v1/health'',
      sc_target_address = ''example.com:8080''\<rparr>"] decimal_atoi_spec
    by simp
qed

end
