(* ===== verification/Random_Generator.thy ===== *)
theory Random_Generator
  imports Prelude
begin

text \<open>
  \<open>RandomGeneratorImpl\<close> of \<^verbatim>\<open>source/utils/random_generator.{h,cc}\<close>: a buffer of 2048
  random characters, refilled when fewer than 16 are left, and the formatting of 16 of them as
  a version 4 UUID. The thread-local buffer and index are the state. The random device with its
  uniform distribution over \<open>0 .. CHARS.size() - 1\<close> is the environment: a stream of draws of
  which the state records how many were used. The theory proves that the buffering is
  invisible, and states the generator interface that the tracing context relies on.
\<close>

definition UUID_LENGTH :: nat where
  "UUID_LENGTH = 36"

definition CHARS :: string where
  "CHARS = ''0123456789AaBbCcDdEeFfGgHhIiJjKkLlMmNnOoPpQqRrSsTtUuVvWwXxYyZz''"

definition BUFFERED_SIZE :: nat where
  "BUFFERED_SIZE = 2048"

record random_generator =
  buffered :: "byte list"
  buffered_idx :: nat
  draws :: "nat \<Rightarrow> nat"   \<comment> \<open>what the distribution returns, draw by draw\<close>
  drawn :: nat              \<comment> \<open>how many draws were made\<close>

definition new_generator :: "(nat \<Rightarrow> nat) \<Rightarrow> random_generator" where
  "new_generator ds = \<lparr>buffered = replicate BUFFERED_SIZE 0, buffered_idx = BUFFERED_SIZE,
     draws = ds, drawn = 0\<rparr>"

text \<open>The loop of \<open>randomBuffer\<close>: \<open>ch[i] = CHARS[dist(engine)]\<close> for \<open>i < len\<close>.\<close>

fun random_chars :: "(nat \<Rightarrow> nat) \<Rightarrow> nat \<Rightarrow> nat \<Rightarrow> byte list outcome" where
  "random_chars ds k 0 = Inr []"
| "random_chars ds k (Suc len) =
     and_then (read_at CHARS (ds k)) (\<lambda>c.
     and_then (random_chars ds (Suc k) len) (\<lambda>cs.
     Inr (char_byte c # cs)))"

definition randomBuffer :: "nat \<Rightarrow> random_generator \<Rightarrow> random_generator outcome" where
  "randomBuffer len g =
     and_then (random_chars (draws g) (drawn g) len) (\<lambda>cs.
     Inr (g\<lparr>buffered := cs, drawn := drawn g + len\<rparr>))"

definition hex :: string where
  "hex = ''0123456789abcdef''"

text \<open>One turn of a formatting loop: the two digits of byte \<open>i\<close>, shifted by \<open>off\<close> places.\<close>

definition put_hex :: "byte list \<Rightarrow> nat \<Rightarrow> nat \<Rightarrow> string \<Rightarrow> string" where
  "put_hex rand off i uuid =
     (let d = rand ! i in
      uuid[2 * i + off := hex ! unat (drop_bit 4 d), 2 * i + off + 1 := hex ! unat (d AND 0x0f)])"

text \<open>The five loops and the four dashes, on the array \<open>char uuid[UUID_LENGTH]\<close>.\<close>

definition format_uuid :: "byte list \<Rightarrow> string \<Rightarrow> string" where
  "format_uuid rand uuid =
     (let uuid = fold (put_hex rand 0) [0..<4] uuid;
          uuid = uuid[8 := CHR ''-''];
          uuid = fold (put_hex rand 1) [4..<6] uuid;
          uuid = uuid[13 := CHR ''-''];
          uuid = fold (put_hex rand 2) [6..<8] uuid;
          uuid = uuid[18 := CHR ''-''];
          uuid = fold (put_hex rand 3) [8..<10] uuid;
          uuid = uuid[23 := CHR ''-'']
      in fold (put_hex rand 4) [10..<16] uuid)"

definition set_version :: "byte list \<Rightarrow> byte list" where
  "set_version rand =
     (let rand = rand[6 := (rand ! 6 AND 0x0f) OR 0x40] in rand[8 := (rand ! 8 AND 0x3f) OR 0x80])"

definition uuid :: "random_generator \<Rightarrow> (string \<times> random_generator) outcome" where
  "uuid g =
     and_then (if buffered_idx g + 16 > BUFFERED_SIZE
               then and_then (randomBuffer BUFFERED_SIZE g) (\<lambda>g'. Inr (g'\<lparr>buffered_idx := 0\<rparr>))
               else Inr g) (\<lambda>g.
     require (buffered_idx g + 16 \<le> BUFFERED_SIZE) AssertionFailed (
       let idx = buffered_idx g;
           rand = set_version (take 16 (drop idx (buffered g)));
           buffered' = take idx (buffered g) @ rand @ drop (idx + 16) (buffered g)
       in Inr (format_uuid rand (replicate UUID_LENGTH (CHR 0x00)),
               g\<lparr>buffered := buffered', buffered_idx := idx + 16\<rparr>)))"

section \<open>What the formatting writes\<close>

definition hex2 :: "byte \<Rightarrow> string" where
  "hex2 d = [hex ! unat (drop_bit 4 d), hex ! unat (d AND 0x0f)]"

definition uuid_text :: "byte list \<Rightarrow> string" where
  "uuid_text bs =
     concat (map hex2 (take 4 bs)) @ ''-'' @ concat (map hex2 (take 2 (drop 4 bs))) @ ''-''
     @ concat (map hex2 (take 2 (drop 6 bs))) @ ''-'' @ concat (map hex2 (take 2 (drop 8 bs)))
     @ ''-'' @ concat (map hex2 (drop 10 bs))"

lemma list_update_Cons_numeral:
  "(x # xs)[numeral n := y] = x # xs[pred_numeral n := y]"
  by (simp add: numeral_eq_Suc)

lemma loop_ranges:
  "[0..<4] = [0, 1, 2, 3]" "[4..<6] = [4, 5]" "[6..<8] = [6, 7]" "[8..<10] = [8, 9]"
  "[10..<16] = [10, 11, 12, 13, 14, 15]"
  "[0..<16] = [0, 1, 2, 3, 4, 5, 6, 7, 8, 9, 10, 11, 12, 13, 14, 15]"
  "[0..<36] = [0, 1, 2, 3, 4, 5, 6, 7, 8, 9, 10, 11, 12, 13, 14, 15, 16, 17, 18, 19, 20, 21, 22,
     23, 24, 25, 26, 27, 28, 29, 30, 31, 32, 33, 34, 35]"
  by (simp_all add: upt_rec)

text \<open>The array is overwritten completely: what it held before does not matter.\<close>

lemma format_uuid_explicit:
  "format_uuid [r0, r1, r2, r3, r4, r5, r6, r7, r8, r9, r10, r11, r12, r13, r14, r15]
     [u0, u1, u2, u3, u4, u5, u6, u7, u8, u9, u10, u11, u12, u13, u14, u15, u16, u17, u18,
      u19, u20, u21, u22, u23, u24, u25, u26, u27, u28, u29, u30, u31, u32, u33, u34, u35]
   = uuid_text [r0, r1, r2, r3, r4, r5, r6, r7, r8, r9, r10, r11, r12, r13, r14, r15]"
  by (simp add: format_uuid_def Let_def loop_ranges put_hex_def list_update_Cons_numeral
      uuid_text_def hex2_def)

lemma format_uuid_text:
  assumes "length rand = 16" and "length u = 36"
  shows "format_uuid rand u = uuid_text rand"
proof -
  obtain f where r: "rand = map f [0..<16]" using map_nth [of rand] assms(1) by metis
  obtain g where u: "u = map g [0..<36]" using map_nth [of u] assms(2) by metis
  show ?thesis unfolding r u loop_ranges list.map by (rule format_uuid_explicit)
qed

section \<open>The buffering is invisible\<close>

text \<open>
  The reference generator keeps no buffer: its \<open>k\<close>th identifier is made of the draws
  \<open>16 k .. 16 k + 15\<close>.
\<close>

definition nth_block :: "(nat \<Rightarrow> nat) \<Rightarrow> nat \<Rightarrow> byte list" where
  "nth_block ds k = map (\<lambda>i. char_byte (CHARS ! ds i)) [16 * k..<16 * k + 16]"

definition reference_uuid :: "(nat \<Rightarrow> nat) \<Rightarrow> nat \<Rightarrow> string" where
  "reference_uuid ds k = uuid_text (set_version (nth_block ds k))"

text \<open>The distribution returns indices of \<open>CHARS\<close>.\<close>

definition draws_in_range :: "(nat \<Rightarrow> nat) \<Rightarrow> bool" where
  "draws_in_range ds \<longleftrightarrow> (\<forall>k. ds k < length CHARS)"

fun next_uuids :: "nat \<Rightarrow> random_generator \<Rightarrow> (string list \<times> random_generator) outcome" where
  "next_uuids 0 g = Inr ([], g)"
| "next_uuids (Suc n) g =
     and_then (uuid g) (\<lambda>(s, g').
     and_then (next_uuids n g') (\<lambda>(ss, g''). Inr (s # ss, g'')))"

definition generator_inv :: "(nat \<Rightarrow> nat) \<Rightarrow> nat \<Rightarrow> random_generator \<Rightarrow> bool" where
  "generator_inv ds k g \<longleftrightarrow>
     draws g = ds \<and> length (buffered g) = 2048 \<and> buffered_idx g \<le> 2048 \<and> 16 dvd buffered_idx g
     \<and> drawn g = 16 * k + (2048 - buffered_idx g)
     \<and> drop (buffered_idx g) (buffered g) = map (\<lambda>i. char_byte (CHARS ! ds i)) [16 * k..<drawn g]"

lemma random_chars_map:
  "draws_in_range ds \<Longrightarrow>
     random_chars ds k n = Inr (map (\<lambda>i. char_byte (CHARS ! ds i)) [k..<k + n])"
proof (induction n arbitrary: k)
  case (Suc n)
  have "[k..<k + Suc n] = k # [Suc k..<Suc k + n]" by (simp add: upt_rec)
  with Suc show ?case by (simp add: draws_in_range_def)
qed simp

lemma length_set_version [simp]: "length (set_version rand) = length rand"
  by (simp add: set_version_def)

lemma generator_inv_new: "generator_inv ds 0 (new_generator ds)"
  by (simp add: generator_inv_def new_generator_def BUFFERED_SIZE_def)

lemma generator_inv_refill:
  assumes inv: "generator_inv ds k g" and ds: "draws_in_range ds"
    and full: "buffered_idx g + 16 > BUFFERED_SIZE"
  shows "\<exists>g'. randomBuffer BUFFERED_SIZE g = Inr g' \<and> generator_inv ds k (g'\<lparr>buffered_idx := 0\<rparr>)"
proof -
  have "buffered_idx g = 2048"
    using inv full by (auto simp: generator_inv_def BUFFERED_SIZE_def dvd_def)
  with inv have "draws g = ds" "drawn g = 16 * k" by (simp_all add: generator_inv_def)
  then show ?thesis
    using random_chars_map [OF ds]
    by (simp add: randomBuffer_def generator_inv_def BUFFERED_SIZE_def)
qed

lemma generator_inv_take:
  assumes inv: "generator_inv ds k g" and room: "buffered_idx g + 16 \<le> 2048"
  defines "rand \<equiv> set_version (take 16 (drop (buffered_idx g) (buffered g)))"
  shows "rand = set_version (nth_block ds k)"
    and "generator_inv ds (Suc k) (g\<lparr>buffered := take (buffered_idx g) (buffered g) @ rand
           @ drop (buffered_idx g + 16) (buffered g), buffered_idx := buffered_idx g + 16\<rparr>)"
proof -
  let ?f = "\<lambda>i. char_byte (CHARS ! ds i)" and ?i = "buffered_idx g"
  have unread: "drop ?i (buffered g) = map ?f [16 * k..<drawn g]"
    and drawn: "drawn g = 16 * k + (2048 - ?i)" "16 * k + 16 \<le> drawn g"
    using inv room by (auto simp: generator_inv_def)
  then have "take 16 (drop ?i (buffered g)) = nth_block ds k"
    by (simp add: nth_block_def take_map)
  then show "rand = set_version (nth_block ds k)" by (simp add: rand_def)
  have "drop (?i + 16) (buffered g) = drop 16 (drop ?i (buffered g))" by (simp add: add.commute)
  also have "\<dots> = map ?f [16 * Suc k..<drawn g]" by (simp add: unread drop_map add.commute)
  finally have rest: "drop (?i + 16) (buffered g) = map ?f [16 * Suc k..<drawn g]" .
  have len: "length rand = 16" using inv room by (simp add: rand_def generator_inv_def)
  with inv room rest drawn show "generator_inv ds (Suc k) (g\<lparr>buffered :=
      take ?i (buffered g) @ rand @ drop (?i + 16) (buffered g), buffered_idx := ?i + 16\<rparr>)"
    by (auto simp: generator_inv_def)
qed

lemma uuid_step:
  assumes inv: "generator_inv ds k g" and ds: "draws_in_range ds"
  shows "\<exists>g'. uuid g = Inr (reference_uuid ds k, g') \<and> generator_inv ds (Suc k) g'"
proof -
  obtain h where h: "(if buffered_idx g + 16 > BUFFERED_SIZE
      then and_then (randomBuffer BUFFERED_SIZE g) (\<lambda>g'. Inr (g'\<lparr>buffered_idx := 0\<rparr>))
      else Inr g) = Inr h" and inv_h: "generator_inv ds k h" and room: "buffered_idx h + 16 \<le> 2048"
  proof (cases "buffered_idx g + 16 > BUFFERED_SIZE")
    case True
    with generator_inv_refill [OF inv ds] that show thesis by force
  next
    case False
    with inv that [of g] show thesis by (simp add: BUFFERED_SIZE_def)
  qed
  note taken = generator_inv_take [OF inv_h room]
  let ?rand = "set_version (take 16 (drop (buffered_idx h) (buffered h)))"
  have "length ?rand = 16" using inv_h room by (simp add: generator_inv_def)
  then have "format_uuid ?rand (replicate UUID_LENGTH (CHR 0x00)) = reference_uuid ds k"
    using taken(1) by (simp add: format_uuid_text UUID_LENGTH_def reference_uuid_def)
  with taken(2) room show ?thesis
    unfolding uuid_def h and_then_simps by (simp add: Let_def BUFFERED_SIZE_def)
qed

lemma next_uuids_reference:
  assumes "draws_in_range ds" and "generator_inv ds k g"
  shows "\<exists>g'. next_uuids n g = Inr (map (reference_uuid ds) [k..<k + n], g')
           \<and> generator_inv ds (k + n) g'"
  using assms(2)
proof (induction n arbitrary: k g)
  case 0
  then show ?case by simp
next
  case (Suc n)
  from uuid_step [OF Suc.prems assms(1)] obtain g1 where
    g1: "uuid g = Inr (reference_uuid ds k, g1)" "generator_inv ds (Suc k) g1" by blast
  from Suc.IH [OF g1(2)] obtain g2 where
    g2: "next_uuids n g1 = Inr (map (reference_uuid ds) [Suc k..<Suc k + n], g2)"
      "generator_inv ds (Suc k + n) g2" by blast
  have "[k..<k + Suc n] = k # [Suc k..<Suc k + n]" by (simp add: upt_rec)
  with g1(1) g2 show ?case by simp
qed

section \<open>The shape of an identifier\<close>

definition hex_digit :: "char \<Rightarrow> bool" where
  "hex_digit c \<longleftrightarrow> c \<in> set hex"

text \<open>
  RFC 4122, version 4, variant 1, in lower case: what each of the 36 characters must satisfy.
\<close>

definition uuid_v4_pattern :: "(char \<Rightarrow> bool) list" where
  "uuid_v4_pattern =
     (let dash = (\<lambda>c. c = CHR ''-'') in
      replicate 8 hex_digit @ [dash] @ replicate 4 hex_digit @ [dash]
      @ [\<lambda>c. c = CHR ''4''] @ replicate 3 hex_digit @ [dash]
      @ [\<lambda>c. c \<in> set ''89ab''] @ replicate 3 hex_digit @ [dash] @ replicate 12 hex_digit)"

definition is_uuid_v4 :: "string \<Rightarrow> bool" where
  "is_uuid_v4 s \<longleftrightarrow> list_all2 (\<lambda>p c. p c) uuid_v4_pattern s"

lemma hex_digit_nth: "n < 16 \<Longrightarrow> hex_digit (hex ! n)"
  unfolding hex_digit_def by (rule nth_mem) (simp add: hex_def)

lemma hex_digit_nibbles [simp]:
  "hex_digit (hex ! unat (drop_bit 4 (d::byte)))" "hex_digit (hex ! unat (d AND 15))"
proof -
  have "unat (drop_bit 4 d) = unat d div 16" by (simp only: unat_drop_bit_eq) (simp add: drop_bit_eq_div)
  moreover have "unat d < 256" using unsigned_less [of d, where ?'a = nat] by simp
  ultimately show "hex_digit (hex ! unat (drop_bit 4 d))" by (intro hex_digit_nth) simp
  have "d AND 15 = take_bit 4 d" by (simp add: take_bit_eq_mask mask_numeral)
  then have "unat (d AND 15) = take_bit 4 (unat d)" by (simp only: unsigned_take_bit_eq)
  then show "hex_digit (hex ! unat (d AND 15))" by (intro hex_digit_nth) (simp add: take_bit_eq_mod)
qed

lemma version_digit: "hex ! 4 = CHR ''4''"
  by (simp add: hex_def)

lemma variant_digit: "hex ! unat (drop_bit 4 ((d AND 63) OR 128 :: byte)) \<in> set ''89ab''"
proof -
  have "drop_bit 4 ((d AND 63) OR 128) \<in> {8, 9, 10, 11}"
    by (simp add: byte_bits) blast
  then show ?thesis by (auto simp: hex_def)
qed

lemma replicate_numeral: "replicate (numeral n) x = x # replicate (pred_numeral n) x"
  by (simp add: numeral_eq_Suc)

lemma uuid_text_shape:
  assumes "length bs = 16"
  shows "is_uuid_v4 (uuid_text (set_version bs))"
proof -
  obtain f where bs: "bs = map f [0..<16]" using map_nth [of bs] assms by metis
  have "is_uuid_v4 (uuid_text (set_version
      [r0, r1, r2, r3, r4, r5, r6, r7, r8, r9, r10, r11, r12, r13, r14, r15]))"
    for r0 r1 r2 r3 r4 r5 r6 r7 r8 r9 r10 r11 r12 r13 r14 r15
    using variant_digit [of r8]
    by (simp add: is_uuid_v4_def uuid_v4_pattern_def uuid_text_def hex2_def set_version_def
        list_update_Cons_numeral Let_def replicate_numeral version_digit)
  then show ?thesis unfolding bs loop_ranges list.map .
qed

text \<open>
  The characters of \<open>CHARS\<close> have codes between \<open>0x30\<close> and \<open>0x7a\<close>, so the high digit of
  every byte, except where version and variant overwrite it, is one of five.
\<close>

definition observed_pattern :: "(char \<Rightarrow> bool) list" where
  "observed_pattern =
     (let dash = (\<lambda>c. c = CHR ''-''); high = (\<lambda>c. c \<in> set ''34567''); byte = [high, hex_digit] in
      byte @ byte @ byte @ byte @ [dash] @ byte @ byte @ [dash]
      @ [\<lambda>c. c = CHR ''4'', hex_digit] @ byte @ [dash]
      @ [\<lambda>c. c \<in> set ''89ab'', hex_digit] @ byte @ [dash]
      @ byte @ byte @ byte @ byte @ byte @ byte)"

lemma CHARS_high_digits:
  "list_all (\<lambda>c. hex ! unat (drop_bit 4 (char_byte c)) \<in> set ''34567'') CHARS"
  by (simp add: CHARS_def char_byte_def hex_def)

lemma uuid_text_observed:
  assumes "length bs = 16" and "\<forall>b \<in> set bs. hex ! unat (drop_bit 4 b) \<in> set ''34567''"
  shows "list_all2 (\<lambda>p c. p c) observed_pattern (uuid_text (set_version bs))"
proof -
  obtain f where bs: "bs = map f [0..<16]" using map_nth [of bs] assms(1) by metis
  have "list_all2 (\<lambda>p c. p c) observed_pattern (uuid_text (set_version
      [r0, r1, r2, r3, r4, r5, r6, r7, r8, r9, r10, r11, r12, r13, r14, r15]))"
    if "\<forall>b \<in> set [r0, r1, r2, r3, r4, r5, r6, r7, r8, r9, r10, r11, r12, r13, r14, r15].
          hex ! unat (drop_bit 4 b) \<in> set ''34567''"
    for r0 r1 r2 r3 r4 r5 r6 r7 r8 r9 r10 r11 r12 r13 r14 r15
    using variant_digit [of r8] that
    by (simp add: observed_pattern_def uuid_text_def hex2_def set_version_def
        list_update_Cons_numeral Let_def version_digit)
  with assms(2) show ?thesis unfolding bs loop_ranges list.map by blast
qed

lemma nth_block_high_digits:
  assumes "draws_in_range ds" and "b \<in> set (nth_block ds k)"
  shows "hex ! unat (drop_bit 4 b) \<in> set ''34567''"
proof -
  from assms obtain c where "c \<in> set CHARS" "b = char_byte c"
    by (auto simp: nth_block_def draws_in_range_def intro: nth_mem)
  with CHARS_high_digits show ?thesis unfolding list_all_iff by blast
qed

lemma length_nth_block [simp]: "length (nth_block ds k) = 16"
  by (simp add: nth_block_def)

section \<open>Properties of the generator\<close>

text \<open>C35. Buffering does not show: from a fresh thread, the first \<open>n\<close> calls return the
  identifiers of the generator that draws 16 characters per call, so every draw is used once
  and in order; no call faults.\<close>

theorem uuid_buffering_invisible:
  assumes "draws_in_range ds"
  shows "\<exists>g. next_uuids n (new_generator ds) = Inr (map (reference_uuid ds) [0..<n], g)"
  using next_uuids_reference [OF assms generator_inv_new, of n] by auto

text \<open>C36. Every identifier is a well-formed version 4 UUID.\<close>

theorem uuid_well_formed:
  assumes "draws_in_range ds" and "next_uuids n (new_generator ds) = Inr (ss, g)"
  shows "list_all is_uuid_v4 ss"
  using next_uuids_reference [OF assms(1) generator_inv_new, of n] assms(2)
  by (auto simp: list_all_iff reference_uuid_def uuid_text_shape)

text \<open>The identifiers use a fraction of the space RFC 4122 section 4.4 asks for: of the two
  digits of a byte, the high one is always \<open>3\<close> to \<open>7\<close> (version and variant apart), because the
  random bytes are letters and digits.\<close>

lemma uuid_high_digits_limited:
  assumes "draws_in_range ds" and "next_uuids n (new_generator ds) = Inr (ss, g)"
  shows "\<forall>s \<in> set ss. list_all2 (\<lambda>p c. p c) observed_pattern s"
  using next_uuids_reference [OF assms(1) generator_inv_new, of n] assms
  by (auto simp: reference_uuid_def intro!: uuid_text_observed nth_block_high_digits)

lemma zero_draws: "draws_in_range (\<lambda>_. 0)"
  by (simp add: draws_in_range_def CHARS_def)

lemma zero_draws_uuid:
  "\<exists>g. next_uuids 1 (new_generator (\<lambda>_. 0)) = Inr ([''30303030-3030-4030-b030-303030303030''], g)"
proof -
  have "reference_uuid (\<lambda>_. 0) 0 = ''30303030-3030-4030-b030-303030303030''"
    by (simp add: reference_uuid_def nth_block_def uuid_text_def hex2_def set_version_def
        loop_ranges CHARS_def char_byte_def hex_def list_update_Cons_numeral)
  then show ?thesis using next_uuids_reference [OF zero_draws generator_inv_new, of 1] by auto
qed

theorem uuid_buffering_invisible_witness:
  "draws_in_range (\<lambda>_. 0) \<and>
   (\<exists>g. next_uuids 300 (new_generator (\<lambda>_. 0)) = Inr (map (reference_uuid (\<lambda>_. 0)) [0..<300], g))"
  using zero_draws uuid_buffering_invisible [OF zero_draws, of 300] by blast

theorem uuid_well_formed_witness:
  "(\<exists>g. next_uuids 1 (new_generator (\<lambda>_. 0)) = Inr ([''30303030-3030-4030-b030-303030303030''], g))
   \<and> is_uuid_v4 ''30303030-3030-4030-b030-303030303030''"
  using zero_draws_uuid uuid_well_formed [OF zero_draws] by fastforce

lemma uuid_high_digits_limited_witness:
  "(\<exists>g. next_uuids 1 (new_generator (\<lambda>_. 0)) = Inr ([''30303030-3030-4030-b030-303030303030''], g))
   \<and> list_all2 (\<lambda>p c. p c) observed_pattern ''30303030-3030-4030-b030-303030303030''"
  using zero_draws_uuid uuid_high_digits_limited [OF zero_draws] by fastforce

section \<open>The generator interface\<close>

text \<open>
  \<open>RandomGenerator\<close> of \<^verbatim>\<open>cpp2sky/internal/random_generator.h\<close> as its clients see it: a
  call returns, what it returns has the shape of an identifier, and the generator can be
  called again.
\<close>

locale id_source =
  fixes next_id :: "'g \<Rightarrow> (string \<times> 'g) outcome"
    and ready :: "'g \<Rightarrow> bool"
    and is_id :: "string \<Rightarrow> bool"
  assumes next_id_returns:
    "ready g \<Longrightarrow> \<exists>s g'. next_id g = Inr (s, g') \<and> is_id s \<and> ready g'"
begin

lemma next_id_shape: "ready g \<Longrightarrow> next_id g = Inr (s, g') \<Longrightarrow> is_id s \<and> ready g'"
  using next_id_returns by fastforce

lemma next_id_no_fault: "ready g \<Longrightarrow> next_id g \<noteq> Inl f"
  using next_id_returns by fastforce

end

definition generator_ready :: "random_generator \<Rightarrow> bool" where
  "generator_ready g \<longleftrightarrow> draws_in_range (draws g) \<and> (\<exists>k. generator_inv (draws g) k g)"

interpretation random: id_source uuid generator_ready is_uuid_v4
proof
  fix g
  assume "generator_ready g"
  then obtain k where ds: "draws_in_range (draws g)" and inv: "generator_inv (draws g) k g"
    by (auto simp: generator_ready_def)
  from uuid_step [OF inv ds] obtain g' where
    "uuid g = Inr (reference_uuid (draws g) k, g')" "generator_inv (draws g) (Suc k) g'" by blast
  moreover from this(2) have "draws g' = draws g" by (simp add: generator_inv_def)
  ultimately show "\<exists>s g'. uuid g = Inr (s, g') \<and> is_uuid_v4 s \<and> generator_ready g'"
    using ds by (auto simp: generator_ready_def reference_uuid_def uuid_text_shape)
qed

lemma generator_ready_new: "draws_in_range ds \<Longrightarrow> generator_ready (new_generator ds)"
  using generator_inv_new [of ds] by (auto simp: generator_ready_def new_generator_def)

end
