(* ===== verification/Clock.thy ===== *)
theory Clock
  imports Prelude
begin

text \<open>
  Time stamps and the interval timer: \<open>TimePoint\<close> of \<^verbatim>\<open>cpp2sky/time.h\<close> (its two
  specialisations, for the system and the steady clock, have the same text) and \<open>Timer\<close> of
  \<^verbatim>\<open>source/utils/timer.h\<close>. A clock reading is an argument. The number of clock ticks in a
  millisecond is a property of the standard library's clock (a million where clocks count
  nanoseconds) and is an argument as well.
\<close>

record time_point =
  point :: int

definition fetch :: "int \<Rightarrow> time_point \<Rightarrow> int" where
  "fetch ticks_per_ms p = trunc_div (point p) ticks_per_ms"

record timer =
  prev_time :: int
  interval :: int

definition new_timer :: "int \<Rightarrow> int \<Rightarrow> timer outcome" where
  "new_timer interval_sec now =
     and_then (int64 (interval_sec * 1000)) (\<lambda>i. Inr \<lparr>prev_time = now, interval = i\<rparr>)"

definition check :: "int \<Rightarrow> timer \<Rightarrow> (bool \<times> timer) outcome" where
  "check current_time t =
     and_then (int64 (current_time - prev_time t)) (\<lambda>elapsed.
       let result = elapsed > interval t
       in Inr (result, if result then t\<lparr>prev_time := current_time\<rparr> else t))"

text \<open>A run of checks: the readings at which the timer fired.\<close>

fun run_checks :: "int list \<Rightarrow> timer \<Rightarrow> (int list \<times> timer) outcome" where
  "run_checks [] t = Inr ([], t)"
| "run_checks (now # ts) t =
     and_then (check now t) (\<lambda>(fired, t').
     and_then (run_checks ts t') (\<lambda>(fs, t''). Inr (if fired then now # fs else fs, t'')))"

text \<open>Readings of a clock that started at its epoch: never negative, within 64 bits.\<close>

definition clock_reading :: "int \<Rightarrow> bool" where
  "clock_reading x \<longleftrightarrow> 0 \<le> x \<and> x < 2 ^ 63"

lemma elapsed_in_range: "clock_reading a \<Longrightarrow> clock_reading b \<Longrightarrow> int64_range (a - b)"
  by (auto simp: clock_reading_def int64_range_def)

lemma check_eq:
  "clock_reading now \<Longrightarrow> clock_reading (prev_time t) \<Longrightarrow>
     check now t = Inr (now - prev_time t > interval t,
       if now - prev_time t > interval t then t\<lparr>prev_time := now\<rparr> else t)"
  by (simp add: check_def elapsed_in_range)

text \<open>The timer never fires twice within its interval: whatever the readings it is checked
  at, each firing comes more than the interval after the one before (after its creation, for
  the first), and no subtraction overflows.\<close>

lemma timer_firings_spaced:
  assumes "list_all clock_reading readings" and "clock_reading (prev_time t)"
  shows "\<exists>fired t'. run_checks readings t = Inr (fired, t')
    \<and> successively (\<lambda>a b. b - a > interval t) (prev_time t # fired)
    \<and> prev_time t' = last (prev_time t # fired) \<and> interval t' = interval t"
  using assms
proof (induction readings arbitrary: t)
  case Nil
  then show ?case by simp
next
  case (Cons now ts)
  show ?case
  proof (cases "now - prev_time t > interval t")
    case True
    with Cons.IH [of "t\<lparr>prev_time := now\<rparr>"] Cons.prems show ?thesis
      by (auto simp: check_eq)
  next
    case False
    with Cons.IH [of t] Cons.prems show ?thesis by (auto simp: check_eq)
  qed
qed

lemma timer_firings_spaced_witness:
  "new_timer 5 1000 = Inr \<lparr>prev_time = 1000, interval = 5000\<rparr>
   \<and> run_checks [6000, 6001, 9000, 11002] \<lparr>prev_time = 1000, interval = 5000\<rparr>
       = Inr ([6001, 11002], \<lparr>prev_time = 11002, interval = 5000\<rparr>)
   \<and> successively (\<lambda>a b. b - a > 5000) [1000, 6001, 11002 :: int]"
proof -
  let ?t = "\<lparr>prev_time = 1000, interval = 5000\<rparr>" and ?rs = "[6000, 6001, 9000, 11002]"
  have run: "run_checks ?rs ?t = Inr ([6001, 11002], \<lparr>prev_time = 11002, interval = 5000\<rparr>)"
    by (simp add: check_def int64_range_def)
  moreover have "new_timer 5 1000 = Inr ?t" by (simp add: new_timer_def int64_range_def)
  ultimately show ?thesis
    using timer_firings_spaced [of ?rs ?t] by (simp add: clock_reading_def)
qed

lemma trunc_div_cases:
  assumes "0 < b"
  shows "trunc_div a b = (if 0 \<le> a then a div b else - (- a div b))"
  using assms by (auto simp: trunc_div_def sgn_if)

lemma trunc_div_mono:
  assumes "0 < b" and "a \<le> a'"
  shows "trunc_div a b \<le> trunc_div a' b"
proof -
  have "a div b \<le> a' div b" "- a' div b \<le> - a div b"
    using assms by (simp_all add: zdiv_mono1)
  moreover have "0 \<le> x \<Longrightarrow> 0 \<le> x div b" for x
    using assms(1) by (simp add: pos_imp_zdiv_nonneg_iff)
  from this [of a'] this [of "- a"] have "a < 0 \<Longrightarrow> 0 \<le> a' \<Longrightarrow> - (- a div b) \<le> a' div b" by simp
  ultimately show ?thesis using assms(2) by (auto simp: trunc_div_cases [OF assms(1)])
qed

text \<open>A time stamp has millisecond resolution: later points never get smaller stamps, and
  the stamp of a point at or after the epoch is the whole number of milliseconds since then.\<close>

lemma fetch_milliseconds:
  assumes "0 < ticks_per_ms" and "point p \<le> point q" and "0 \<le> point q"
  shows "fetch ticks_per_ms p \<le> fetch ticks_per_ms q
    \<and> fetch ticks_per_ms q * ticks_per_ms \<le> point q
    \<and> point q < (fetch ticks_per_ms q + 1) * ticks_per_ms"
proof (intro conjI)
  show "fetch ticks_per_ms p \<le> fetch ticks_per_ms q"
    using assms by (simp add: fetch_def trunc_div_mono)
  have q: "fetch ticks_per_ms q = point q div ticks_per_ms"
    using assms by (simp add: fetch_def trunc_div_cases)
  have split: "point q div ticks_per_ms * ticks_per_ms + point q mod ticks_per_ms = point q"
    by simp
  then show "fetch ticks_per_ms q * ticks_per_ms \<le> point q"
    unfolding q using pos_mod_sign [OF assms(1), of "point q"] by linarith
  show "point q < (fetch ticks_per_ms q + 1) * ticks_per_ms"
    unfolding q distrib_right using split pos_mod_bound [OF assms(1), of "point q"] by linarith
qed

lemma fetch_milliseconds_witness:
  "fetch 1000000 \<lparr>point = - 1999999\<rparr> = - 1 \<and> fetch 1000000 \<lparr>point = 1999999\<rparr> = 1
   \<and> fetch 1000000 \<lparr>point = - 1999999\<rparr> \<le> fetch 1000000 \<lparr>point = 1999999\<rparr>"
proof -
  have "fetch 1000000 \<lparr>point = - 1999999\<rparr> = - 1" "fetch 1000000 \<lparr>point = 1999999\<rparr> = 1"
    by (simp_all add: fetch_def trunc_div_def)
  with fetch_milliseconds [of 1000000 "\<lparr>point = - 1999999\<rparr>" "\<lparr>point = 1999999\<rparr>"]
  show ?thesis by simp
qed

end
