(* ===== verification/Config.thy ===== *)
theory Config
  imports Prelude
begin

text \<open>
  The configuration message \<open>TracerConfig\<close> (\<^verbatim>\<open>cpp2sky/config.proto\<close>): a record with the fields of
  the message, in their order.
\<close>

datatype protocol = GRPC | REST

record tracer_config =
  cfg_protocol :: protocol
  cfg_service_name :: string
  cfg_instance_name :: string
  cfg_address :: string
  cfg_token :: string
  cfg_delayed_buffer_size :: "32 word"
  cfg_ignore_operation_name_suffix :: "string list"
  cfg_cds_request_interval :: "32 word"

end
