(* ===== verification/Tracing_Context.thy ===== *)
theory Tracing_Context
  imports Propagation Random_Generator Clock Config
begin

text \<open>
  Segments and spans: \<open>TracingSpanImpl\<close>, \<open>TracingContextImpl\<close> and \<open>TracingContextFactory\<close>
  (\<^verbatim>\<open>source/tracing_context_impl.{h,cc}\<close>, \<^verbatim>\<open>cpp2sky/tracing_context.h\<close>).

  The protobuf messages are records with the fields the code sets; a field never set has the
  value proto3 gives it, and an enumeration field never set is \<open>None\<close>. A segment object owns
  its span objects. A \<open>TracingSpanImpl\<close> holds a reference to one of them: the model has its
  position, which never changes because span objects are only added. The \<open>TracingSpanImpl\<close>
  objects of a context, which the application shares with it, form a store \<open>span_objects\<close>; a
  handle is a position in it. Moving the segment out of the context, as \<open>createSegmentObject\<close>
  does, leaves it in a state the language does not specify: the segment is \<open>None\<close> from then on,
  and whatever reads or writes it ends in the fault \<open>MovedFrom\<close>.
\<close>

section \<open>Messages\<close>

text \<open>The enumerators that the code names; other values can be set through the interface.\<close>

datatype span_type = Entry | Exit | Other_Span_Type int
datatype span_layer = Http | Other_Span_Layer int
datatype ref_type = CrossProcess

record segment_reference =
  ref_reftype :: ref_type
  ref_traceid :: string
  ref_parenttracesegmentid :: string
  ref_parentspanid :: int32
  ref_parentservice :: string
  ref_parentserviceinstance :: string
  ref_parentendpoint :: string
  ref_networkaddressusedatpeer :: string

record key_value =
  kv_key :: string
  kv_value :: string

record log_entry =
  log_time :: int
  log_data :: "key_value list"

record span_object =
  so_spanid :: int32
  so_parentspanid :: int32
  so_starttime :: int
  so_endtime :: int
  so_refs :: "segment_reference list"
  so_operationname :: string
  so_peer :: string
  so_spantype :: "span_type option"
  so_spanlayer :: "span_layer option"
  so_componentid :: int32
  so_iserror :: bool
  so_tags :: "key_value list"
  so_logs :: "log_entry list"
  so_skipanalysis :: bool

definition empty_span_object :: span_object where
  "empty_span_object = \<lparr>so_spanid = 0, so_parentspanid = 0, so_starttime = 0, so_endtime = 0,
     so_refs = [], so_operationname = '''', so_peer = '''', so_spantype = None,
     so_spanlayer = None, so_componentid = 0, so_iserror = False, so_tags = [], so_logs = [],
     so_skipanalysis = False\<rparr>"

record segment_object =
  seg_traceid :: string
  seg_tracesegmentid :: string
  seg_spans :: "span_object list"
  seg_service :: string
  seg_serviceinstance :: string

section \<open>State\<close>

record tracing_span =
  finished :: bool
  span_store :: nat

type_synonym span_handle = nat

record tracing_context =
  parent_span_context :: "span_context option"
  parent_ext_span_context :: "span_context_extension option"
  spans :: "span_handle list"
  segment_store :: "segment_object option"
  should_skip_analysis :: bool
  span_objects :: "tracing_span list"

type_synonym context_op = "tracing_context \<Rightarrow> tracing_context outcome"

definition segment_of :: "tracing_context \<Rightarrow> segment_object outcome" where
  "segment_of c = (case segment_store c of None \<Rightarrow> Inl MovedFrom | Some seg \<Rightarrow> Inr seg)"

text \<open>What a span refers to, and the writing of it through the reference.\<close>

definition span_of :: "span_handle \<Rightarrow> tracing_context \<Rightarrow> span_object outcome" where
  "span_of h c =
     and_then (read_at (span_objects c) h) (\<lambda>ts.
     and_then (segment_of c) (\<lambda>seg.
     read_at (seg_spans seg) (span_store ts)))"

definition update_span :: "span_handle \<Rightarrow> (span_object \<Rightarrow> span_object) \<Rightarrow> context_op" where
  "update_span h f c =
     and_then (read_at (span_objects c) h) (\<lambda>ts.
     and_then (segment_of c) (\<lambda>seg.
     and_then (read_at (seg_spans seg) (span_store ts)) (\<lambda>so.
     Inr (c\<lparr>segment_store := Some (seg\<lparr>seg_spans := (seg_spans seg)[span_store ts := f so]\<rparr>)\<rparr>))))"

text \<open>\<open>assert(!finished_)\<close>.\<close>

definition assert_unfinished :: "span_handle \<Rightarrow> context_op \<Rightarrow> context_op" where
  "assert_unfinished h k c =
     and_then (read_at (span_objects c) h) (\<lambda>ts. require (\<not> finished ts) AssertionFailed (k c))"

section \<open>Spans\<close>

definition spanId :: "span_handle \<Rightarrow> tracing_context \<Rightarrow> int32 outcome" where
  "spanId h c = and_then (span_of h c) (\<lambda>so. Inr (so_spanid so))"

definition spanType :: "span_handle \<Rightarrow> tracing_context \<Rightarrow> span_type option outcome" where
  "spanType h c = and_then (span_of h c) (\<lambda>so. Inr (so_spantype so))"

definition operationName :: "span_handle \<Rightarrow> tracing_context \<Rightarrow> string outcome" where
  "operationName h c = and_then (span_of h c) (\<lambda>so. Inr (so_operationname so))"

definition parentSpanId :: "span_handle \<Rightarrow> tracing_context \<Rightarrow> int32 outcome" where
  "parentSpanId h c = and_then (span_of h c) (\<lambda>so. Inr (so_parentspanid so))"

definition startTime :: "span_handle \<Rightarrow> tracing_context \<Rightarrow> int outcome" where
  "startTime h c = and_then (span_of h c) (\<lambda>so. Inr (so_starttime so))"

definition endTime :: "span_handle \<Rightarrow> tracing_context \<Rightarrow> int outcome" where
  "endTime h c = and_then (span_of h c) (\<lambda>so. Inr (so_endtime so))"

definition peer :: "span_handle \<Rightarrow> tracing_context \<Rightarrow> string outcome" where
  "peer h c = and_then (span_of h c) (\<lambda>so. Inr (so_peer so))"

definition spanLayer :: "span_handle \<Rightarrow> tracing_context \<Rightarrow> span_layer option outcome" where
  "spanLayer h c = and_then (span_of h c) (\<lambda>so. Inr (so_spanlayer so))"

definition errorStatus :: "span_handle \<Rightarrow> tracing_context \<Rightarrow> bool outcome" where
  "errorStatus h c = and_then (span_of h c) (\<lambda>so. Inr (so_iserror so))"

definition skipAnalysis :: "span_handle \<Rightarrow> tracing_context \<Rightarrow> bool outcome" where
  "skipAnalysis h c = and_then (span_of h c) (\<lambda>so. Inr (so_skipanalysis so))"

definition componentId :: "span_handle \<Rightarrow> tracing_context \<Rightarrow> int32 outcome" where
  "componentId h c = and_then (span_of h c) (\<lambda>so. Inr (so_componentid so))"

text \<open>A copy of the span object.\<close>

definition createSpanObject :: "span_handle \<Rightarrow> tracing_context \<Rightarrow> span_object outcome" where
  "createSpanObject h c = span_of h c"

definition span_finished :: "span_handle \<Rightarrow> tracing_context \<Rightarrow> bool outcome" where
  "span_finished h c = and_then (read_at (span_objects c) h) (\<lambda>ts. Inr (finished ts))"

definition setParentSpanId :: "span_handle \<Rightarrow> int32 \<Rightarrow> context_op" where
  "setParentSpanId h span_id =
     assert_unfinished h (update_span h (\<lambda>so. so\<lparr>so_parentspanid := span_id\<rparr>))"

definition setPeer :: "span_handle \<Rightarrow> string \<Rightarrow> context_op" where
  "setPeer h remote_address =
     assert_unfinished h (update_span h (\<lambda>so. so\<lparr>so_peer := remote_address\<rparr>))"

definition setSpanType :: "span_handle \<Rightarrow> span_type \<Rightarrow> context_op" where
  "setSpanType h ty = update_span h (\<lambda>so. so\<lparr>so_spantype := Some ty\<rparr>)"

definition setSpanLayer :: "span_handle \<Rightarrow> span_layer \<Rightarrow> context_op" where
  "setSpanLayer h layer = update_span h (\<lambda>so. so\<lparr>so_spanlayer := Some layer\<rparr>)"

definition setErrorStatus :: "span_handle \<Rightarrow> context_op" where
  "setErrorStatus h = update_span h (\<lambda>so. so\<lparr>so_iserror := True\<rparr>)"

definition setSkipAnalysis :: "span_handle \<Rightarrow> context_op" where
  "setSkipAnalysis h = update_span h (\<lambda>so. so\<lparr>so_skipanalysis := True\<rparr>)"

definition addLogImpl :: "span_handle \<Rightarrow> string \<Rightarrow> string \<Rightarrow> int \<Rightarrow> context_op" where
  "addLogImpl h k v timestamp =
     assert_unfinished h (update_span h (\<lambda>so. so\<lparr>so_logs := so_logs so @
       [\<lparr>log_time = timestamp, log_data = [\<lparr>kv_key = k, kv_value = v\<rparr>]\<rparr>]\<rparr>))"

text \<open>
  The overloads without a time read the system clock: the reading is the argument, and so is
  the number of ticks in a millisecond of the clock that was read.
\<close>

definition addLog :: "span_handle \<Rightarrow> string \<Rightarrow> string \<Rightarrow> int \<Rightarrow> time_point \<Rightarrow> context_op" where
  "addLog h k v ticks current_time = addLogImpl h k v (fetch ticks current_time)"

definition addTag :: "span_handle \<Rightarrow> string \<Rightarrow> string \<Rightarrow> context_op" where
  "addTag h k v =
     assert_unfinished h (update_span h (\<lambda>so. so\<lparr>so_tags := so_tags so @
       [\<lparr>kv_key = k, kv_value = v\<rparr>]\<rparr>))"

definition startSpanImpl :: "span_handle \<Rightarrow> string \<Rightarrow> int \<Rightarrow> context_op" where
  "startSpanImpl h operation_name timestamp =
     update_span h (\<lambda>so. so\<lparr>so_operationname := operation_name, so_starttime := timestamp\<rparr>)"

definition startSpan :: "span_handle \<Rightarrow> string \<Rightarrow> int \<Rightarrow> time_point \<Rightarrow> context_op" where
  "startSpan h operation_name ticks current_time =
     startSpanImpl h operation_name (fetch ticks current_time)"

definition mark_finished :: "span_handle \<Rightarrow> context_op" where
  "mark_finished h c =
     and_then (read_at (span_objects c) h) (\<lambda>ts.
     Inr (c\<lparr>span_objects := (span_objects c)[h := ts\<lparr>finished := True\<rparr>]\<rparr>))"

definition endSpanImpl :: "span_handle \<Rightarrow> int \<Rightarrow> context_op" where
  "endSpanImpl h timestamp =
     assert_unfinished h (\<lambda>c.
       and_then (update_span h (\<lambda>so. so\<lparr>so_endtime := timestamp\<rparr>) c) (mark_finished h))"

definition endSpan :: "span_handle \<Rightarrow> int \<Rightarrow> time_point \<Rightarrow> context_op" where
  "endSpan h ticks current_time = endSpanImpl h (fetch ticks current_time)"

definition setComponentId :: "span_handle \<Rightarrow> int32 \<Rightarrow> context_op" where
  "setComponentId h component_id =
     assert_unfinished h (update_span h (\<lambda>so. so\<lparr>so_componentid := component_id\<rparr>))"

definition setOperationName :: "span_handle \<Rightarrow> string \<Rightarrow> context_op" where
  "setOperationName h name =
     assert_unfinished h (update_span h (\<lambda>so. so\<lparr>so_operationname := name\<rparr>))"

definition segment_ref_of :: "span_context \<Rightarrow> segment_reference" where
  "segment_ref_of sc = \<lparr>ref_reftype = CrossProcess, ref_traceid = sc_trace_id sc,
     ref_parenttracesegmentid = sc_trace_segment_id sc, ref_parentspanid = sc_span_id sc,
     ref_parentservice = sc_service sc, ref_parentserviceinstance = sc_service_instance sc,
     ref_parentendpoint = sc_endpoint sc, ref_networkaddressusedatpeer = sc_target_address sc\<rparr>"

definition addSegmentRef :: "span_handle \<Rightarrow> span_context \<Rightarrow> context_op" where
  "addSegmentRef h span_context =
     update_span h (\<lambda>so. so\<lparr>so_refs := so_refs so @ [segment_ref_of span_context]\<rparr>)"

section \<open>Segments\<close>

text \<open>
  The constructor of a span adds a span object to the segment of the context, with the default
  component id. It returns the handle of the new \<open>TracingSpanImpl\<close>.
\<close>

definition TracingSpanImpl ::
  "int32 \<Rightarrow> tracing_context \<Rightarrow> (span_handle \<times> tracing_context) outcome"
where
  "TracingSpanImpl span_id c =
     and_then (segment_of c) (\<lambda>seg.
     Inr (length (span_objects c),
       c\<lparr>segment_store := Some (seg\<lparr>seg_spans := seg_spans seg @
           [empty_span_object\<lparr>so_spanid := span_id, so_componentid := 9000\<rparr>]\<rparr>),
         span_objects := span_objects c @
           [\<lparr>finished = False, span_store = length (seg_spans seg)\<rparr>]\<rparr>))"

definition createSpan :: "tracing_context \<Rightarrow> (span_handle \<times> tracing_context) outcome" where
  "createSpan c =
     and_then (TracingSpanImpl (word_of_nat (length (spans c))) c) (\<lambda>(current_span, c).
     and_then (setSpanLayer current_span Http c) (\<lambda>c.
     and_then (if should_skip_analysis c then setSkipAnalysis current_span c else Inr c) (\<lambda>c.
     Inr (current_span, c\<lparr>spans := spans c @ [current_span]\<rparr>))))"

text \<open>
  The parent of an exit span is a span of the same context, or a null pointer. The parent span
  id of an entry span is \<open>-1\<close>, the pointer of an entry span that is refused is null.
\<close>

definition createExitSpan ::
  "span_handle option \<Rightarrow> tracing_context \<Rightarrow> (span_handle \<times> tracing_context) outcome"
where
  "createExitSpan parent_span c =
     and_then (createSpan c) (\<lambda>(current_span, c).
     and_then (case parent_span of None \<Rightarrow> Inl NullDereference | Some p \<Rightarrow> spanId p c) (\<lambda>parent_id.
     and_then (setParentSpanId current_span parent_id c) (\<lambda>c.
     and_then (setSpanType current_span Exit c) (\<lambda>c.
     Inr (current_span, c)))))"

definition createEntrySpan ::
  "tracing_context \<Rightarrow> (span_handle option \<times> tracing_context) outcome"
where
  "createEntrySpan c =
     (if spans c \<noteq> [] then Inr (None, c)
      else
        and_then (createSpan c) (\<lambda>(current_span, c).
        and_then (setParentSpanId current_span (- 1) c) (\<lambda>c.
        and_then (setSpanType current_span Entry c) (\<lambda>c.
        and_then (case parent_span_context c of
            None \<Rightarrow> Inr c
          | Some parent \<Rightarrow> addSegmentRef current_span parent c) (\<lambda>c.
        Inr (Some current_span, c))))))"

definition encodeSpan :: "span_handle \<Rightarrow> string \<Rightarrow> tracing_context \<Rightarrow> string outcome" where
  "encodeSpan parent_span target_address c =
     and_then (spanId parent_span c) (\<lambda>parent_spanid.
     and_then (front_of (spans c)) (\<lambda>first.
     and_then (operationName first c) (\<lambda>endpoint.
     and_then (segment_of c) (\<lambda>seg.
     and_then (encode_padded (seg_traceid seg)) (\<lambda>traceid.
     and_then (encode_padded (seg_tracesegmentid seg)) (\<lambda>tracesegmentid.
     and_then (encode_padded (seg_service seg)) (\<lambda>service.
     and_then (encode_padded (seg_serviceinstance seg)) (\<lambda>serviceinstance.
     and_then (encode_padded endpoint) (\<lambda>endpoint.
     and_then (encode_padded target_address) (\<lambda>target_address.
     Inr (''1-'' @ traceid @ ''-'' @ tracesegmentid @ ''-'' @ std_to_string parent_spanid @ ''-''
       @ service @ ''-'' @ serviceinstance @ ''-'' @ endpoint @ ''-'' @ target_address)))))))))))"

definition createSW8HeaderValue :: "string \<Rightarrow> tracing_context \<Rightarrow> string option outcome" where
  "createSW8HeaderValue target_address c =
     and_then (back_of (spans c)) (\<lambda>target_span.
     and_then (spanType target_span c) (\<lambda>ty.
     if ty \<noteq> Some Exit then Inr None
     else and_then (encodeSpan target_span target_address c) (\<lambda>v. Inr (Some v))))"

definition createSegmentObject ::
  "tracing_context \<Rightarrow> (segment_object \<times> tracing_context) outcome"
where
  "createSegmentObject c =
     and_then (segment_of c) (\<lambda>seg. Inr (seg, c\<lparr>spans := [], segment_store := None\<rparr>))"

fun ready_loop :: "span_handle list \<Rightarrow> tracing_context \<Rightarrow> bool outcome" where
  "ready_loop [] c = Inr True"
| "ready_loop (h # hs) c =
     and_then (span_finished h c) (\<lambda>f. if \<not> f then Inr False else ready_loop hs c)"

definition readyToSend :: "tracing_context \<Rightarrow> bool outcome" where
  "readyToSend c = ready_loop (spans c) c"

text \<open>The message is a view: the code reads it as a NUL-terminated string.\<close>

definition logMessage :: "string_view \<Rightarrow> tracing_context \<Rightarrow> string outcome" where
  "logMessage message c =
     and_then (c_string message) (\<lambda>message.
     and_then (segment_of c) (\<lambda>seg.
     and_then
       (if spans c \<noteq> [] then and_then (back_of (spans c)) (\<lambda>h.
          and_then (spanId h c) (\<lambda>i. Inr (std_to_string i)))
        else Inr ''-1'') (\<lambda>last_id.
     Inr (message @ ''\", \"SW_CTX\": ['' @ ''\"'' @ seg_service seg @ ''\",''
       @ ''\"'' @ seg_serviceinstance seg @ ''\",'' @ ''\"'' @ seg_traceid seg @ ''\",''
       @ ''\"'' @ seg_tracesegmentid seg @ ''\",'' @ ''\"'' @ last_id @ ''\"]}''))))"

definition context_setSkipAnalysis :: "tracing_context \<Rightarrow> tracing_context" where
  "context_setSkipAnalysis c = c\<lparr>should_skip_analysis := True\<rparr>"

definition context_skipAnalysis :: "tracing_context \<Rightarrow> bool" where
  "context_skipAnalysis c = should_skip_analysis c"

definition traceId :: "tracing_context \<Rightarrow> string outcome" where
  "traceId c = and_then (segment_of c) (\<lambda>seg. Inr (seg_traceid seg))"

definition traceSegmentId :: "tracing_context \<Rightarrow> string outcome" where
  "traceSegmentId c = and_then (segment_of c) (\<lambda>seg. Inr (seg_tracesegmentid seg))"

definition service :: "tracing_context \<Rightarrow> string outcome" where
  "service c = and_then (segment_of c) (\<lambda>seg. Inr (seg_service seg))"

definition serviceInstance :: "tracing_context \<Rightarrow> string outcome" where
  "serviceInstance c = and_then (segment_of c) (\<lambda>seg. Inr (seg_serviceinstance seg))"

definition context_spans :: "tracing_context \<Rightarrow> span_handle list" where
  "context_spans c = spans c"

definition parentSpanContext :: "tracing_context \<Rightarrow> span_context option" where
  "parentSpanContext c = parent_span_context c"

definition parentSpanContextExtension :: "tracing_context \<Rightarrow> span_context_extension option" where
  "parentSpanContextExtension c = parent_ext_span_context c"

text \<open>
  The constructor, to which the two shorter ones delegate with null pointers. It asks a
  generator \<open>next_id\<close> for the trace id, unless there is a parent, then for the segment id.
\<close>

definition TracingContextImpl ::
  "('g \<Rightarrow> (string \<times> 'g) outcome) \<Rightarrow> string \<Rightarrow> string \<Rightarrow> span_context option
   \<Rightarrow> span_context_extension option \<Rightarrow> 'g \<Rightarrow> (tracing_context \<times> 'g) outcome"
where
  "TracingContextImpl next_id service_name instance_name parent ext g =
     and_then (case parent of Some p \<Rightarrow> Inr (sc_trace_id p, g) | None \<Rightarrow> next_id g) (\<lambda>(traceid, g).
     and_then (next_id g) (\<lambda>(tracesegmentid, g).
     Inr (\<lparr>parent_span_context = parent, parent_ext_span_context = ext, spans = [],
       segment_store = Some \<lparr>seg_traceid = traceid, seg_tracesegmentid = tracesegmentid,
         seg_spans = [], seg_service = service_name, seg_serviceinstance = instance_name\<rparr>,
       should_skip_analysis = False, span_objects = []\<rparr>, g)))"

section \<open>The factory\<close>

record context_factory =
  factory_service_name :: string
  factory_instance_name :: string

definition TracingContextFactory :: "tracer_config \<Rightarrow> context_factory" where
  "TracingContextFactory config =
     \<lparr>factory_service_name = cfg_service_name config,
      factory_instance_name = cfg_instance_name config\<rparr>"

text \<open>The three overloads of \<open>create\<close>; the generator is the calling thread's \<open>random_generator\<close>.\<close>

definition create_root ::
  "context_factory \<Rightarrow> random_generator \<Rightarrow> (tracing_context \<times> random_generator) outcome"
where
  "create_root f g =
     TracingContextImpl uuid (factory_service_name f) (factory_instance_name f) None None g"

definition create_child ::
  "context_factory \<Rightarrow> span_context option \<Rightarrow> random_generator
   \<Rightarrow> (tracing_context \<times> random_generator) outcome"
where
  "create_child f span_context g =
     TracingContextImpl uuid (factory_service_name f) (factory_instance_name f) span_context None g"

definition create_child_extended ::
  "context_factory \<Rightarrow> span_context option \<Rightarrow> span_context_extension option \<Rightarrow> random_generator
   \<Rightarrow> (tracing_context \<times> random_generator) outcome"
where
  "create_child_extended f span_context ext_span_context g =
     and_then (TracingContextImpl uuid (factory_service_name f) (factory_instance_name f)
       span_context ext_span_context g) (\<lambda>(context, g).
     case ext_span_context of
       None \<Rightarrow> Inl NullDereference
     | Some ext \<Rightarrow>
         if sce_tracing_mode ext = Skip then Inr (context_setSkipAnalysis context, g)
         else Inr (context, g))"

end
