(* ===== verification/Segment_Table.thy ===== *)
theory Segment_Table
  imports Tracing_Context
begin

text \<open>
  What a tracing context promises, and that it keeps the promise. The specification of a segment
  that has not been reported is its table: the spans in the order of their creation, each with
  its contents and whether it is finished; a span is known by its position, which is its id.
  Every operation of the application on a context or on one of its spans is a \<open>context_call\<close>;
  \<open>table_call\<close> says what it does to the table. The invariant \<open>context_inv\<close>, preserved by every
  call, ties the store of span objects, the handles and the list of the context together, and
  under it the operations of \<^theory_text>\<open>Tracing_Context\<close> implement the table.
\<close>

section \<open>Calls\<close>

text \<open>The changes an application can make to a span, with the value of the clock as argument.\<close>

datatype span_change =
    Set_Parent_Span_Id int32
  | Set_Peer string
  | Set_Span_Type span_type
  | Set_Span_Layer span_layer
  | Set_Error_Status
  | Set_Skip_Analysis
  | Add_Log string string int
  | Add_Tag string string
  | Start_Span string int
  | End_Span int
  | Set_Component_Id int32
  | Set_Operation_Name string
  | Add_Segment_Ref span_context

fun change_span :: "span_change \<Rightarrow> span_handle \<Rightarrow> context_op" where
  "change_span (Set_Parent_Span_Id i) h = setParentSpanId h i"
| "change_span (Set_Peer s) h = setPeer h s"
| "change_span (Set_Span_Type ty) h = setSpanType h ty"
| "change_span (Set_Span_Layer l) h = setSpanLayer h l"
| "change_span Set_Error_Status h = setErrorStatus h"
| "change_span Set_Skip_Analysis h = setSkipAnalysis h"
| "change_span (Add_Log k v t) h = addLogImpl h k v t"
| "change_span (Add_Tag k v) h = addTag h k v"
| "change_span (Start_Span n t) h = startSpanImpl h n t"
| "change_span (End_Span t) h = endSpanImpl h t"
| "change_span (Set_Component_Id i) h = setComponentId h i"
| "change_span (Set_Operation_Name n) h = setOperationName h n"
| "change_span (Add_Segment_Ref sc) h = addSegmentRef h sc"

datatype context_call =
    Create_Entry_Span
  | Create_Exit_Span "span_handle option"
  | Change_Span span_change span_handle
  | Skip_Analysis

fun do_call :: "context_call \<Rightarrow> context_op" where
  "do_call Create_Entry_Span c = and_then (createEntrySpan c) (\<lambda>(_, c). Inr c)"
| "do_call (Create_Exit_Span p) c = and_then (createExitSpan p c) (\<lambda>(_, c). Inr c)"
| "do_call (Change_Span ch h) c = change_span ch h c"
| "do_call Skip_Analysis c = Inr (context_setSkipAnalysis c)"

fun do_calls :: "context_call list \<Rightarrow> context_op" where
  "do_calls [] c = Inr c"
| "do_calls (x # xs) c = and_then (do_call x c) (do_calls xs)"

section \<open>The specification\<close>

type_synonym span_table = "(span_object \<times> bool) list"

text \<open>The contents of a span after a change, and the changes a finished span refuses.\<close>

fun changed :: "span_change \<Rightarrow> span_object \<Rightarrow> span_object" where
  "changed (Set_Parent_Span_Id i) so = so\<lparr>so_parentspanid := i\<rparr>"
| "changed (Set_Peer s) so = so\<lparr>so_peer := s\<rparr>"
| "changed (Set_Span_Type ty) so = so\<lparr>so_spantype := Some ty\<rparr>"
| "changed (Set_Span_Layer l) so = so\<lparr>so_spanlayer := Some l\<rparr>"
| "changed Set_Error_Status so = so\<lparr>so_iserror := True\<rparr>"
| "changed Set_Skip_Analysis so = so\<lparr>so_skipanalysis := True\<rparr>"
| "changed (Add_Log k v t) so =
     so\<lparr>so_logs := so_logs so @ [\<lparr>log_time = t, log_data = [\<lparr>kv_key = k, kv_value = v\<rparr>]\<rparr>]\<rparr>"
| "changed (Add_Tag k v) so = so\<lparr>so_tags := so_tags so @ [\<lparr>kv_key = k, kv_value = v\<rparr>]\<rparr>"
| "changed (Start_Span n t) so = so\<lparr>so_operationname := n, so_starttime := t\<rparr>"
| "changed (End_Span t) so = so\<lparr>so_endtime := t\<rparr>"
| "changed (Set_Component_Id i) so = so\<lparr>so_componentid := i\<rparr>"
| "changed (Set_Operation_Name n) so = so\<lparr>so_operationname := n\<rparr>"
| "changed (Add_Segment_Ref sc) so = so\<lparr>so_refs := so_refs so @ [segment_ref_of sc]\<rparr>"

definition refused_when_finished :: "span_change \<Rightarrow> bool" where
  "refused_when_finished ch = (case ch of
     Set_Span_Type _ \<Rightarrow> False | Set_Span_Layer _ \<Rightarrow> False | Set_Error_Status \<Rightarrow> False
   | Set_Skip_Analysis \<Rightarrow> False | Start_Span _ _ \<Rightarrow> False | Add_Segment_Ref _ \<Rightarrow> False | _ \<Rightarrow> True)"

definition finishes :: "span_change \<Rightarrow> bool" where
  "finishes ch = (case ch of End_Span _ \<Rightarrow> True | _ \<Rightarrow> False)"

text \<open>A new span at position \<open>n\<close>.\<close>

definition entry_object :: "span_context option \<Rightarrow> bool \<Rightarrow> span_object" where
  "entry_object parent skip = empty_span_object\<lparr>so_spanid := 0, so_parentspanid := - 1,
     so_spantype := Some Entry, so_spanlayer := Some Http, so_componentid := 9000,
     so_skipanalysis := skip,
     so_refs := (case parent of None \<Rightarrow> [] | Some p \<Rightarrow> [segment_ref_of p])\<rparr>"

definition exit_object :: "nat \<Rightarrow> nat \<Rightarrow> bool \<Rightarrow> span_object" where
  "exit_object n p skip = empty_span_object\<lparr>so_spanid := word_of_nat n,
     so_parentspanid := word_of_nat p, so_spantype := Some Exit, so_spanlayer := Some Http,
     so_componentid := 9000, so_skipanalysis := skip\<rparr>"

fun table_call ::
  "span_context option \<Rightarrow> bool \<Rightarrow> context_call \<Rightarrow> span_table \<Rightarrow> span_table outcome"
where
  "table_call parent skip Create_Entry_Span tab =
     Inr (if tab = [] then [(entry_object parent skip, False)] else tab)"
| "table_call parent skip (Create_Exit_Span None) tab = Inl NullDereference"
| "table_call parent skip (Create_Exit_Span (Some p)) tab =
     Inr (tab @ [(exit_object (length tab) p skip, False)])"
| "table_call parent skip (Change_Span ch h) tab =
     (if snd (tab ! h) \<and> refused_when_finished ch then Inl AssertionFailed
      else Inr (tab[h := (changed ch (fst (tab ! h)), snd (tab ! h) \<or> finishes ch)]))"
| "table_call parent skip Skip_Analysis tab = Inr tab"

text \<open>A call uses handles of spans of the context.\<close>

fun call_ok :: "nat \<Rightarrow> context_call \<Rightarrow> bool" where
  "call_ok n (Create_Exit_Span (Some p)) \<longleftrightarrow> p < n"
| "call_ok n (Change_Span _ h) \<longleftrightarrow> h < n"
| "call_ok n _ \<longleftrightarrow> True"

section \<open>The abstraction and the invariant\<close>

definition table_of :: "tracing_context \<Rightarrow> span_table" where
  "table_of c = (case segment_store c of None \<Rightarrow> []
     | Some seg \<Rightarrow> zip (seg_spans seg) (map finished (span_objects c)))"

definition context_inv :: "tracing_context \<Rightarrow> bool" where
  "context_inv c = (case segment_store c of
       None \<Rightarrow> spans c = []
     | Some seg \<Rightarrow>
         spans c = [0..<length (span_objects c)]
       \<and> length (seg_spans seg) = length (span_objects c)
       \<and> map span_store (span_objects c) = [0..<length (span_objects c)]
       \<and> map so_spanid (seg_spans seg) = map word_of_nat [0..<length (span_objects c)])"
section \<open>Every call implements its specification\<close>

lemmas span_setter_defs =
  setParentSpanId_def setPeer_def setSpanType_def setSpanLayer_def setErrorStatus_def
  setSkipAnalysis_def addLogImpl_def addTag_def startSpanImpl_def endSpanImpl_def
  setComponentId_def setOperationName_def addSegmentRef_def

lemma map_eq_map_upt:
  "length xs = n \<Longrightarrow> map f xs = map g [0..<n] \<longleftrightarrow> (\<forall>i<n. f (xs ! i) = g i)"
  by (auto intro: nth_equalityI dest: arg_cong [where f = "\<lambda>ys. ys ! _"] simp: map_equality_iff)

lemma context_inv_live:
  assumes "segment_store c = Some seg"
  shows "context_inv c \<longleftrightarrow>
     spans c = [0..<length (span_objects c)]
   \<and> length (seg_spans seg) = length (span_objects c)
   \<and> (\<forall>i<length (span_objects c). span_store (span_objects c ! i) = i)
   \<and> (\<forall>i<length (span_objects c). so_spanid (seg_spans seg ! i) = word_of_nat i)"
  using assms map_eq_map_upt [of "span_objects c" _ span_store id]
    map_eq_map_upt [of "seg_spans seg" "length (span_objects c)" so_spanid word_of_nat]
  by (auto simp: context_inv_def)

lemma table_of_live:
  "segment_store c = Some seg \<Longrightarrow> table_of c = zip (seg_spans seg) (map finished (span_objects c))"
  by (simp add: table_of_def)

lemma span_of_live:
  assumes "segment_store c = Some seg" and "context_inv c" and "h < length (span_objects c)"
  shows "span_of h c = Inr (seg_spans seg ! h)"
  using assms by (simp add: span_of_def segment_of_def context_inv_live)

lemma update_span_live:
  assumes "segment_store c = Some seg" and "context_inv c" and "h < length (span_objects c)"
  shows "update_span h f c =
    Inr (c\<lparr>segment_store := Some (seg\<lparr>seg_spans := (seg_spans seg)[h := f (seg_spans seg ! h)]\<rparr>)\<rparr>)"
  using assms by (simp add: update_span_def segment_of_def context_inv_live)

lemma change_span_live:
  assumes "segment_store c = Some seg" and "context_inv c" and "h < length (span_objects c)"
  shows "change_span ch h c =
    (if finished (span_objects c ! h) \<and> refused_when_finished ch then Inl AssertionFailed
     else Inr (c\<lparr>segment_store := Some (seg\<lparr>seg_spans :=
              (seg_spans seg)[h := changed ch (seg_spans seg ! h)]\<rparr>),
            span_objects := (span_objects c)[h := (span_objects c ! h)
              \<lparr>finished := finished (span_objects c ! h) \<or> finishes ch\<rparr>]\<rparr>))"
proof -
  have same: "c\<lparr>segment_store := seg', span_objects := (span_objects c)[h := (span_objects c ! h)
      \<lparr>finished := b\<rparr>]\<rparr> = c\<lparr>segment_store := seg'\<rparr>" if "finished (span_objects c ! h) = b" for seg' b
    using that assms(3) by (cases c) (simp add: list_update_same_conv flip: that)
  show ?thesis
    by (cases ch) (use assms same in \<open>simp_all add: span_setter_defs assert_unfinished_def
        mark_finished_def update_span_live refused_when_finished_def finishes_def require_def\<close>)
qed

lemma changed_spanid [simp]: "so_spanid (changed ch so) = so_spanid so"
  by (cases ch) simp_all

lemma table_of_change:
  assumes "segment_store c = Some seg" and "context_inv c" and "h < length (span_objects c)"
    and "change_span ch h c = Inr c'"
  shows "table_of c' = (table_of c)[h := (changed ch (fst (table_of c ! h)),
      snd (table_of c ! h) \<or> finishes ch)]" and "context_inv c'"
proof -
  from assms have len: "length (seg_spans seg) = length (span_objects c)"
    by (simp add: context_inv_live)
  with assms show "table_of c' = (table_of c)[h := (changed ch (fst (table_of c ! h)),
      snd (table_of c ! h) \<or> finishes ch)]"
    by (auto simp: change_span_live table_of_def zip_update map_update split: if_splits)
  from assms show "context_inv c'"
    by (auto simp: change_span_live context_inv_live nth_list_update split: if_splits)
qed

text \<open>A new span goes to the end of the table.\<close>

lemma createSpan_live:
  assumes "segment_store c = Some seg" and "context_inv c"
  shows "createSpan c = Inr (length (span_objects c),
    c\<lparr>spans := spans c @ [length (span_objects c)],
      segment_store := Some (seg\<lparr>seg_spans := seg_spans seg @
        [empty_span_object\<lparr>so_spanid := word_of_nat (length (span_objects c)),
          so_componentid := 9000, so_spanlayer := Some Http,
          so_skipanalysis := should_skip_analysis c\<rparr>]\<rparr>),
      span_objects := span_objects c @
        [\<lparr>finished = False, span_store = length (span_objects c)\<rparr>]\<rparr>)"
  using assms
  by (auto simp: createSpan_def TracingSpanImpl_def segment_of_def context_inv_live
      setSpanLayer_def setSkipAnalysis_def update_span_def nth_append list_update_append
      empty_span_object_def split: nat.split)

lemma createSpan_inv:
  assumes "segment_store c = Some seg" and "context_inv c" and "createSpan c = Inr (h, c')"
  shows "h = length (span_objects c)" and "length (span_objects c') = Suc h"
    and "context_inv c'" and "parent_span_context c' = parent_span_context c"
    and "table_of c' = table_of c @ [(empty_span_object\<lparr>so_spanid := word_of_nat h,
      so_componentid := 9000, so_spanlayer := Some Http,
      so_skipanalysis := should_skip_analysis c\<rparr>, False)]"
    and "\<exists>seg'. segment_store c' = Some seg'"
  using assms
  by (auto simp: createSpan_live context_inv_live table_of_def nth_append empty_span_object_def
      less_Suc_eq)

lemma length_table:
  "segment_store c = Some seg \<Longrightarrow> context_inv c \<Longrightarrow> length (table_of c) = length (span_objects c)"
  by (simp add: table_of_def context_inv_live)

lemma table_nth:
  assumes "segment_store c = Some seg" and "context_inv c" and "h < length (span_objects c)"
  shows "table_of c ! h = (seg_spans seg ! h, finished (span_objects c ! h))"
  using assms by (simp add: table_of_def context_inv_live)

lemma spanId_live:
  assumes "segment_store c = Some seg" and "context_inv c" and "h < length (span_objects c)"
  shows "spanId h c = Inr (word_of_nat h)"
  using assms by (simp add: spanId_def span_of_live context_inv_live)

text \<open>The three setters a new span goes through, as changes.\<close>

lemma setters_as_changes:
  "setParentSpanId h i = change_span (Set_Parent_Span_Id i) h"
  "setSpanType h ty = change_span (Set_Span_Type ty) h"
  "addSegmentRef h sc = change_span (Add_Segment_Ref sc) h"
  by simp_all

lemma change_unfinished:
  assumes "segment_store c = Some seg" and "context_inv c"
    and "table_of c = tab @ [(so, False)]" and "h = length tab"
  shows "\<exists>c' seg'. change_span ch h c = Inr c' \<and> segment_store c' = Some seg' \<and> context_inv c'
    \<and> table_of c' = tab @ [(changed ch so, finishes ch)]
    \<and> parent_span_context c' = parent_span_context c
    \<and> length (span_objects c') = length (span_objects c)"
proof -
  have n: "length (span_objects c) = Suc (length tab)"
    using length_table [OF assms(1,2)] assms(3) by simp
  have h: "h < length (span_objects c)" using n assms(4) by simp
  have "finished (span_objects c ! h) = False"
    using table_nth [OF assms(1,2) h] assms(3,4) by simp
  then obtain c' where c': "change_span ch h c = Inr c'"
    and rest: "\<exists>seg'. segment_store c' = Some seg'"
      "parent_span_context c' = parent_span_context c"
      "length (span_objects c') = length (span_objects c)"
    by (simp add: change_span_live [OF assms(1,2) h])
  show ?thesis
    using c' rest table_of_change [OF assms(1,2) h c'] assms(3,4) by auto
qed

lemma createExitSpan_live:
  assumes "segment_store c = Some seg" and "context_inv c" and "p < length (span_objects c)"
  shows "\<exists>c' seg'. createExitSpan (Some p) c = Inr (length (table_of c), c')
    \<and> segment_store c' = Some seg' \<and> context_inv c'
    \<and> table_of c' = table_of c
        @ [(exit_object (length (table_of c)) p (should_skip_analysis c), False)]
    \<and> parent_span_context c' = parent_span_context c"
proof -
  let ?h = "length (table_of c)"
  obtain c1 where c1: "createSpan c = Inr (?h, c1)"
    using createSpan_live [OF assms(1,2)] length_table [OF assms(1,2)] by simp
  note created = createSpan_inv [OF assms(1,2) c1]
  from created(6) obtain seg1 where seg1: "segment_store c1 = Some seg1" by blast
  have p: "spanId p c1 = Inr (word_of_nat p)"
    using spanId_live [OF seg1 created(3)] created(1,2) assms(3) by simp
  obtain c2 seg2 where c2: "setParentSpanId ?h (word_of_nat p) c1 = Inr c2"
    "segment_store c2 = Some seg2" "context_inv c2"
    "parent_span_context c2 = parent_span_context c"
    and t2: "table_of c2 = table_of c @ [(changed (Set_Parent_Span_Id (word_of_nat p))
      (empty_span_object\<lparr>so_spanid := word_of_nat ?h, so_componentid := 9000,
       so_spanlayer := Some Http, so_skipanalysis := should_skip_analysis c\<rparr>), False)]"
    using change_unfinished [OF seg1 created(3,5), of ?h "Set_Parent_Span_Id (word_of_nat p)"]
      created(4) by (auto simp: finishes_def)
  from change_unfinished [OF c2(2,3) t2, of ?h "Set_Span_Type Exit"] c1 p c2 show ?thesis
    by (auto simp: createExitSpan_def finishes_def exit_object_def)
qed

lemma createEntrySpan_live:
  assumes "segment_store c = Some seg" and "context_inv c" and "table_of c = []"
  shows "\<exists>c' seg'. createEntrySpan c = Inr (Some 0, c')
    \<and> segment_store c' = Some seg' \<and> context_inv c'
    \<and> table_of c' = [(entry_object (parent_span_context c) (should_skip_analysis c), False)]
    \<and> parent_span_context c' = parent_span_context c"
proof -
  have n: "length (span_objects c) = 0" using length_table [OF assms(1,2)] assms(3) by simp
  then have e: "spans c = []" using assms by (simp add: context_inv_live)
  obtain c1 where c1: "createSpan c = Inr (0, c1)"
    using createSpan_live [OF assms(1,2)] n by simp
  note created = createSpan_inv [OF assms(1,2) c1]
  from created(6) obtain seg1 where seg1: "segment_store c1 = Some seg1" by blast
  obtain c2 seg2 where c2: "setParentSpanId 0 (- 1) c1 = Inr c2"
    "segment_store c2 = Some seg2" "context_inv c2"
    "parent_span_context c2 = parent_span_context c"
    and t2: "table_of c2 = [] @ [(changed (Set_Parent_Span_Id (- 1))
      (empty_span_object\<lparr>so_spanid := 0, so_componentid := 9000,
       so_spanlayer := Some Http, so_skipanalysis := should_skip_analysis c\<rparr>), False)]"
    using change_unfinished [OF seg1 created(3,5), of 0 "Set_Parent_Span_Id (- 1)"]
      created(4) assms(3) by (auto simp: finishes_def)
  obtain c3 seg3 where c3: "setSpanType 0 Entry c2 = Inr c3"
    "segment_store c3 = Some seg3" "context_inv c3"
    "parent_span_context c3 = parent_span_context c"
    and t3: "table_of c3 = [] @ [(changed (Set_Span_Type Entry)
      (changed (Set_Parent_Span_Id (- 1))
      (empty_span_object\<lparr>so_spanid := 0, so_componentid := 9000,
       so_spanlayer := Some Http, so_skipanalysis := should_skip_analysis c\<rparr>)), False)]"
    using change_unfinished [OF c2(2,3) t2, of 0 "Set_Span_Type Entry"] c2(4)
    by (auto simp: finishes_def)
  show ?thesis
  proof (cases "parent_span_context c")
    case None
    with e c1 c2 c3 t3 show ?thesis
      by (auto simp: createEntrySpan_def entry_object_def empty_span_object_def)
  next
    case (Some p)
    with e c1 c2 c3 change_unfinished [OF c3(2,3) t3, of 0 "Add_Segment_Ref p"] show ?thesis
      by (auto simp: createEntrySpan_def entry_object_def empty_span_object_def finishes_def)
  qed
qed

text \<open>What the calls leave alone: the parents, the flag and the names of the segment.\<close>

definition frame ::
  "tracing_context \<Rightarrow> span_context option \<times> span_context_extension option \<times> bool
   \<times> (string \<times> string \<times> string \<times> string) option"
where
  "frame c = (parent_span_context c, parent_ext_span_context c, should_skip_analysis c,
     map_option (\<lambda>s. (seg_traceid s, seg_tracesegmentid s, seg_service s, seg_serviceinstance s))
       (segment_store c))"

lemma frame_update: "update_span h f c = Inr c' \<Longrightarrow> frame c' = frame c"
  by (auto simp: update_span_def segment_of_def frame_def outcome_eqs split: option.splits)

lemma frame_mark: "mark_finished h c = Inr c' \<Longrightarrow> frame c' = frame c"
  by (auto simp: mark_finished_def frame_def outcome_eqs)

lemma frame_change: "change_span ch h c = Inr c' \<Longrightarrow> frame c' = frame c"
  by (cases ch) (auto simp: span_setter_defs assert_unfinished_def outcome_eqs
      dest!: frame_update frame_mark)

lemma frame_createSpan: "createSpan c = Inr (h, c') \<Longrightarrow> frame c' = frame c"
  by (auto simp: createSpan_def TracingSpanImpl_def setSpanLayer_def setSkipAnalysis_def
      segment_of_def outcome_eqs dest!: frame_update split: if_splits option.splits)
    (simp_all add: frame_def)

lemma frame_call: "do_call x c = Inr c' \<Longrightarrow> x \<noteq> Skip_Analysis \<Longrightarrow> frame c' = frame c"
  by (cases x) (auto simp: createEntrySpan_def createExitSpan_def setters_as_changes outcome_eqs
      simp del: change_span.simps
      dest!: frame_change frame_createSpan split: if_splits option.splits)

lemma frame_parts:
  assumes "frame c' = frame c"
  shows "parent_span_context c' = parent_span_context c"
    and "should_skip_analysis c' = should_skip_analysis c"
    and "segment_store c' = None \<longleftrightarrow> segment_store c = None"
  using assms by (auto simp: frame_def)

lemma call_table:
  assumes "segment_store c = Some seg" and "context_inv c" and "call_ok (length (table_of c)) x"
  shows "and_then (do_call x c) (\<lambda>c'. Inr (table_of c'))
      = table_call (parent_span_context c) (should_skip_analysis c) x (table_of c)"
    and "do_call x c = Inr c' \<Longrightarrow> context_inv c'"
proof -
  note len = length_table [OF assms(1,2)]
  have "and_then (do_call x c) (\<lambda>c'. Inr (table_of c'))
      = table_call (parent_span_context c) (should_skip_analysis c) x (table_of c)
    \<and> (\<forall>c'. do_call x c = Inr c' \<longrightarrow> context_inv c')"
  proof (cases x)
    case Create_Entry_Span
    show ?thesis
    proof (cases "table_of c = []")
      case True
      with createEntrySpan_live [OF assms(1,2)] Create_Entry_Span show ?thesis by auto
    next
      case False
      then have "spans c \<noteq> []" using assms len by (auto simp: context_inv_live)
      with False assms Create_Entry_Span show ?thesis by (auto simp: createEntrySpan_def)
    qed
  next
    case (Create_Exit_Span p)
    show ?thesis
    proof (cases p)
      case None
      with Create_Exit_Span createSpan_live [OF assms(1,2)] show ?thesis
        by (simp add: createExitSpan_def)
    next
      case (Some q)
      with Create_Exit_Span assms(3) len have "q < length (span_objects c)" by simp
      from createExitSpan_live [OF assms(1,2) this] Some Create_Exit_Span show ?thesis by auto
    qed
  next
    case (Change_Span ch h)
    with assms(3) len have h: "h < length (span_objects c)" by simp
    note live = change_span_live [OF assms(1,2) h, of ch] and tab = table_nth [OF assms(1,2) h]
    show ?thesis
    proof (cases "finished (span_objects c ! h) \<and> refused_when_finished ch")
      case True
      with Change_Span live tab show ?thesis by simp
    next
      case False
      with live obtain c1 where c1: "change_span ch h c = Inr c1" by (simp split: if_splits)
      from Change_Span c1 table_of_change [OF assms(1,2) h c1] tab False show ?thesis by simp
    qed
  next
    case Skip_Analysis
    with assms show ?thesis
      by (simp add: context_setSkipAnalysis_def table_of_def context_inv_def)
  qed
  then show "and_then (do_call x c) (\<lambda>c'. Inr (table_of c'))
      = table_call (parent_span_context c) (should_skip_analysis c) x (table_of c)"
    and "do_call x c = Inr c' \<Longrightarrow> context_inv c'" by blast+
qed

section \<open>Sequences of calls\<close>

fun table_calls ::
  "span_context option \<Rightarrow> bool \<Rightarrow> context_call list \<Rightarrow> span_table \<Rightarrow> span_table outcome"
where
  "table_calls parent skip [] tab = Inr tab"
| "table_calls parent skip (x # xs) tab =
     and_then (table_call parent skip x tab) (table_calls parent (skip \<or> x = Skip_Analysis) xs)"

fun spans_after :: "context_call \<Rightarrow> nat \<Rightarrow> nat" where
  "spans_after Create_Entry_Span n = max 1 n"
| "spans_after (Create_Exit_Span p) n = Suc n"
| "spans_after _ n = n"

fun calls_ok :: "nat \<Rightarrow> context_call list \<Rightarrow> bool" where
  "calls_ok n [] \<longleftrightarrow> True"
| "calls_ok n (x # xs) \<longleftrightarrow> call_ok n x \<and> calls_ok (spans_after x n) xs"

lemma table_call_length:
  "table_call parent skip x tab = Inr tab' \<Longrightarrow> length tab' = spans_after x (length tab)"
  by (cases "(parent, skip, x, tab)" rule: table_call.cases) (auto split: if_splits simp: max_def
      Suc_le_eq)

text \<open>
  A call that returns leads from a live context to a live context, and its effect on the table
  and on the flag is the specified one.
\<close>

lemma call_step:
  assumes "segment_store c \<noteq> None" and "context_inv c" and "call_ok (length (table_of c)) x"
    and "do_call x c = Inr c'"
  shows "segment_store c' \<noteq> None" and "context_inv c'"
    and "table_call (parent_span_context c) (should_skip_analysis c) x (table_of c) = Inr (table_of c')"
    and "parent_span_context c' = parent_span_context c"
    and "should_skip_analysis c' \<longleftrightarrow> should_skip_analysis c \<or> x = Skip_Analysis"
    and "length (table_of c') = spans_after x (length (table_of c))"
proof -
  from assms(1) obtain seg where seg: "segment_store c = Some seg" by blast
  show "context_inv c'" using call_table(2) [OF seg assms(2,3,4)] .
  show t: "table_call (parent_span_context c) (should_skip_analysis c) x (table_of c) = Inr (table_of c')"
    using call_table(1) [OF seg assms(2,3)] assms(4) by simp
  from table_call_length [OF t] show "length (table_of c') = spans_after x (length (table_of c))" .
  show "segment_store c' \<noteq> None" "parent_span_context c' = parent_span_context c"
    "should_skip_analysis c' \<longleftrightarrow> should_skip_analysis c \<or> x = Skip_Analysis"
    using frame_parts [OF frame_call [OF assms(4)]] assms(1,4)
    by (cases "x = Skip_Analysis"; auto simp: context_setSkipAnalysis_def)+
qed

lemma calls_table:
  assumes "segment_store c \<noteq> None" and "context_inv c" and "calls_ok (length (table_of c)) xs"
  shows "and_then (do_calls xs c) (\<lambda>c'. Inr (table_of c'))
      = table_calls (parent_span_context c) (should_skip_analysis c) xs (table_of c)"
  using assms
proof (induction xs arbitrary: c)
  case (Cons x xs)
  from Cons.prems obtain seg where seg: "segment_store c = Some seg" by blast
  have ok: "call_ok (length (table_of c)) x" using Cons.prems(3) by simp
  note spec = call_table(1) [OF seg Cons.prems(2) ok]
  show ?case
  proof (cases "do_call x c")
    case (Inl f)
    with spec show ?thesis by (cases "table_call (parent_span_context c) (should_skip_analysis c) x
      (table_of c)") auto
  next
    case (Inr c')
    note s = call_step [OF Cons.prems(1,2) ok Inr]
    from Cons.IH [OF s(1,2)] Cons.prems(3) s Inr show ?thesis by simp
  qed
qed simp

lemma calls_inv:
  assumes "segment_store c \<noteq> None" and "context_inv c" and "calls_ok (length (table_of c)) xs"
    and "do_calls xs c = Inr c'"
  shows "segment_store c' \<noteq> None \<and> context_inv c'"
  using assms
proof (induction xs arbitrary: c)
  case (Cons x xs)
  from Cons.prems obtain c1 where c1: "do_call x c = Inr c1" "do_calls xs c1 = Inr c'"
    by (auto simp: outcome_eqs)
  note s = call_step [OF Cons.prems(1,2) _ c1(1)]
  from Cons.IH [OF _ _ _ c1(2)] Cons.prems(3) s show ?case by simp
qed simp

text \<open>What the constructors of a context establish.\<close>

lemma new_context:
  assumes "TracingContextImpl next_id service_name instance_name parent ext g = Inr (c, g')"
  shows "segment_store c \<noteq> None" and "context_inv c" and "table_of c = []"
    and "parent_span_context c = parent" and "parent_ext_span_context c = ext"
    and "\<not> should_skip_analysis c"
  using assms by (auto simp: TracingContextImpl_def context_inv_def table_of_def outcome_eqs)

text \<open>A generator that counts, and a context made with it, for examples.\<close>

definition counting_ids :: "int32 \<Rightarrow> (string \<times> int32) outcome" where
  "counting_ids n = Inr (std_to_string n, n + 1)"

definition example_segment :: segment_object where
  "example_segment = \<lparr>seg_traceid = ''1'', seg_tracesegmentid = ''2'', seg_spans = [],
     seg_service = ''svc'', seg_serviceinstance = ''inst''\<rparr>"

definition example_context :: tracing_context where
  "example_context = \<lparr>parent_span_context = None, parent_ext_span_context = None, spans = [],
     segment_store = Some example_segment, should_skip_analysis = False, span_objects = []\<rparr>"

lemma example_new:
  "TracingContextImpl counting_ids ''svc'' ''inst'' None None 1 = Inr (example_context, 3)"
proof -
  have "std_to_string 1 = ''1''" "std_to_string 2 = ''2''" by code_simp+
  then show ?thesis
    by (simp add: TracingContextImpl_def counting_ids_def example_context_def example_segment_def)
qed

lemma example_calls:
  assumes "calls_ok 0 xs" and "table_calls None False xs [] = Inr tab"
  shows "\<exists>c. do_calls xs example_context = Inr c \<and> table_of c = tab
    \<and> segment_store c \<noteq> None \<and> context_inv c"
proof -
  note new = new_context [OF example_new]
  from calls_table [OF new(1,2)] assms have
    "and_then (do_calls xs example_context) (\<lambda>c. Inr (table_of c)) = Inr tab" by (simp add: new)
  then obtain c where "do_calls xs example_context = Inr c" "table_of c = tab"
    by (auto simp: outcome_eqs)
  with calls_inv [OF new(1,2)] assms(1) new(3) show ?thesis by simp
qed

text \<open>C6. A context is its table of spans: from its construction on, whatever calls the
  application makes on it and on its spans, the spans are those of the specification, in their
  order, with the same contents and the same flags, and the calls end in a fault exactly where
  the specification does.\<close>

theorem context_implements_table:
  assumes "TracingContextImpl next_id service_name instance_name parent ext g = Inr (c, g')"
    and "calls_ok 0 xs"
  shows "and_then (do_calls xs c) (\<lambda>c'. Inr (table_of c')) = table_calls parent False xs []"
  using calls_table [of c xs] new_context [OF assms(1)] assms(2) by simp

theorem context_implements_table_witness:
  "TracingContextImpl counting_ids ''svc'' ''inst'' None None 1 = Inr (example_context, 3)
   \<and> and_then (do_calls [Create_Entry_Span, Create_Exit_Span (Some 0), Change_Span (End_Span 7) 1,
         Create_Entry_Span] example_context) (\<lambda>c'. Inr (table_of c'))
     = Inr [(entry_object None False, False), ((exit_object 1 0 False)\<lparr>so_endtime := 7\<rparr>, True)]"
  using example_new context_implements_table [OF example_new, of "[Create_Entry_Span,
      Create_Exit_Span (Some 0), Change_Span (End_Span 7) 1, Create_Entry_Span]"]
  by (simp add: refused_when_finished_def finishes_def)

text \<open>What a finished span keeps: all that only the setters with an assertion write.\<close>

definition frozen_part ::
  "span_object \<Rightarrow> int32 \<times> int32 \<times> int \<times> string \<times> int32 \<times> key_value list \<times> log_entry list"
where
  "frozen_part so = (so_spanid so, so_parentspanid so, so_endtime so, so_peer so,
     so_componentid so, so_tags so, so_logs so)"

lemma frozen_changed: "\<not> refused_when_finished ch \<Longrightarrow> frozen_part (changed ch so) = frozen_part so"
  by (cases ch) (simp_all add: refused_when_finished_def frozen_part_def)

lemma table_call_frozen:
  assumes "table_call parent skip x tab = Inr tab'" and "h < length tab" and "snd (tab ! h)"
  shows "h < length tab' \<and> snd (tab' ! h) \<and> frozen_part (fst (tab' ! h)) = frozen_part (fst (tab ! h))"
  using assms
  by (cases "(parent, skip, x, tab)" rule: table_call.cases)
    (auto simp: nth_append nth_update frozen_changed split: if_splits)

lemma table_calls_frozen:
  assumes "table_calls parent skip xs tab = Inr tab'" and "h < length tab" and "snd (tab ! h)"
  shows "h < length tab' \<and> snd (tab' ! h) \<and> frozen_part (fst (tab' ! h)) = frozen_part (fst (tab ! h))"
  using assms
proof (induction xs arbitrary: skip tab)
  case (Cons x xs)
  then obtain tab1 where "table_call parent skip x tab = Inr tab1"
    "table_calls parent (skip \<or> x = Skip_Analysis) xs tab1 = Inr tab'"
    by (auto simp: outcome_eqs)
  with Cons.IH table_call_frozen [of parent skip x tab tab1] Cons.prems show ?case by metis
qed simp

lemma calls_table_Inr:
  assumes "segment_store c \<noteq> None" and "context_inv c" and "calls_ok (length (table_of c)) xs"
    and "do_calls xs c = Inr c'"
  shows "table_calls (parent_span_context c) (should_skip_analysis c) xs (table_of c) = Inr (table_of c')"
  using calls_table [OF assms(1-3)] assms(4) by simp

text \<open>C19. A finished span stays finished, and its end time, tags, logs, peer, parent and
  component are final: no later sequence of calls that returns changes them. The operation
  name, the start time and the references are not: \<open>startSpan\<close> and \<open>addSegmentRef\<close> have no
  assertion.\<close>

theorem finished_span_is_final:
  assumes "TracingContextImpl next_id service_name instance_name parent ext g = Inr (c, g')"
    and "calls_ok 0 (xs @ ys)" and "do_calls xs c = Inr c1" and "do_calls ys c1 = Inr c2"
    and "h < length (table_of c1)" and "snd (table_of c1 ! h)"
  shows "h < length (table_of c2) \<and> snd (table_of c2 ! h)
    \<and> frozen_part (fst (table_of c2 ! h)) = frozen_part (fst (table_of c1 ! h))"
proof -
  have app: "calls_ok n (us @ vs) \<Longrightarrow> calls_ok n us \<and> calls_ok (fold spans_after us n) vs" for n us vs
    by (induction us arbitrary: n) auto
  have len: "table_calls p s us tab = Inr tab' \<Longrightarrow> length tab' = fold spans_after us (length tab)"
    for p s us tab tab'
    by (induction us arbitrary: s tab) (auto simp: outcome_eqs dest!: table_call_length)
  note new = new_context [OF assms(1)]
  from app [OF assms(2)] have ok: "calls_ok (length (table_of c)) xs"
    "calls_ok (fold spans_after xs 0) ys" by (simp_all add: new)
  have "length (table_of c1) = fold spans_after xs 0"
    using len [OF calls_table_Inr [OF new(1,2) ok(1) assms(3)]] by (simp add: new)
  with calls_inv [OF new(1,2) ok(1) assms(3)] ok(2) have
    "table_calls (parent_span_context c1) (should_skip_analysis c1) ys (table_of c1) = Inr (table_of c2)"
    by (intro calls_table_Inr assms) auto
  from table_calls_frozen [OF this assms(5,6)] show ?thesis .
qed

theorem finished_span_is_final_witness:
  "\<exists>c1 c2. do_calls [Create_Entry_Span, Change_Span (End_Span 7) 0] example_context = Inr c1
    \<and> do_calls [Change_Span (Start_Span ''late'' 9) 0, Change_Span Set_Error_Status 0] c1 = Inr c2
    \<and> frozen_part (fst (table_of c2 ! 0)) = frozen_part (fst (table_of c1 ! 0))
    \<and> so_endtime (fst (table_of c1 ! 0)) = 7"
proof -
  let ?xs = "[Create_Entry_Span, Change_Span (End_Span 7) 0]"
    and ?ys = "[Change_Span (Start_Span ''late'' 9) 0, Change_Span Set_Error_Status 0]"
  obtain c1 where c1: "do_calls ?xs example_context = Inr c1"
    and t1: "table_of c1 = [((entry_object None False)\<lparr>so_endtime := 7\<rparr>, True)]"
    and live1: "segment_store c1 \<noteq> None" "context_inv c1"
    using example_calls [of ?xs] by (auto simp: refused_when_finished_def finishes_def)
  have "\<exists>t. and_then (do_calls ?ys c1) (\<lambda>c'. Inr (table_of c')) = Inr t"
    by (subst calls_table) (simp_all add: live1 t1 refused_when_finished_def finishes_def)
  then obtain c2 where c2: "do_calls ?ys c1 = Inr c2"
    by (auto simp: outcome_eqs simp del: do_calls.simps)
  have "calls_ok 0 (?xs @ ?ys)" by simp
  from finished_span_is_final [OF example_new this c1 c2, of 0] c1 c2 t1 show ?thesis by auto
qed

section \<open>What a context hands out\<close>

lemma seg_spans_table:
  "segment_store c = Some seg \<Longrightarrow> context_inv c \<Longrightarrow> seg_spans seg = map fst (table_of c)"
  by (simp add: table_of_def context_inv_live)

lemma spans_table: "segment_store c \<noteq> None \<Longrightarrow> context_inv c \<Longrightarrow> spans c = [0..<length (table_of c)]"
  by (auto simp: length_table context_inv_live)

lemma ready_loop_all:
  "list_all (\<lambda>h. h < length (span_objects c)) hs \<Longrightarrow>
     ready_loop hs c = Inr (list_all (\<lambda>h. finished (span_objects c ! h)) hs)"
  by (induction hs) (auto simp: span_finished_def)

lemma readyToSend_table:
  assumes "segment_store c \<noteq> None" and "context_inv c"
  shows "readyToSend c = Inr (list_all snd (table_of c))"
proof -
  from assms(1) obtain seg where seg: "segment_store c = Some seg" by blast
  have "list_all (\<lambda>h. finished (span_objects c ! h)) [0..<length (span_objects c)]
      \<longleftrightarrow> list_all snd (table_of c)"
    by (auto simp: list_all_length length_table [OF seg assms(2)] table_nth [OF seg assms(2)])
  then show ?thesis
    using seg assms(2) ready_loop_all [of c "spans c"]
    by (simp add: readyToSend_def context_inv_live list_all_iff)
qed

text \<open>The names of the segment do not change while it is in the context.\<close>

lemma segment_names:
  assumes "frame c' = frame c" and "segment_store c = Some seg" and "segment_store c' = Some seg'"
  shows "seg_traceid seg' = seg_traceid seg" and "seg_tracesegmentid seg' = seg_tracesegmentid seg"
    and "seg_service seg' = seg_service seg" and "seg_serviceinstance seg' = seg_serviceinstance seg"
  using assms by (simp_all add: frame_def)

lemma do_calls_names:
  assumes "do_calls xs c = Inr c'" and "segment_store c = Some seg"
  shows "\<exists>seg'. segment_store c' = Some seg' \<and> seg_traceid seg' = seg_traceid seg
    \<and> seg_tracesegmentid seg' = seg_tracesegmentid seg \<and> seg_service seg' = seg_service seg
    \<and> seg_serviceinstance seg' = seg_serviceinstance seg"
  using assms
proof (induction xs arbitrary: c seg)
  case (Cons x xs)
  from Cons.prems obtain c1 where c1: "do_call x c = Inr c1" "do_calls xs c1 = Inr c'"
    by (auto simp: outcome_eqs)
  have "\<exists>s1. segment_store c1 = Some s1 \<and> seg_traceid s1 = seg_traceid seg
    \<and> seg_tracesegmentid s1 = seg_tracesegmentid seg \<and> seg_service s1 = seg_service seg
    \<and> seg_serviceinstance s1 = seg_serviceinstance seg"
  proof (cases "x = Skip_Analysis")
    case True
    with c1(1) Cons.prems(2) show ?thesis by (auto simp: context_setSkipAnalysis_def)
  next
    case False
    note f = frame_call [OF c1(1) False]
    obtain s1 where s1: "segment_store c1 = Some s1"
      using frame_parts(3) [OF f] Cons.prems(2) by auto
    with segment_names [OF f Cons.prems(2) s1] show ?thesis by simp
  qed
  with Cons.IH [OF c1(2)] show ?case by fastforce
qed simp

lemma do_calls_parents:
  assumes "do_calls xs c = Inr c'"
  shows "parent_span_context c' = parent_span_context c"
    and "parent_ext_span_context c' = parent_ext_span_context c"
proof -
  have "parent_span_context c' = parent_span_context c
    \<and> parent_ext_span_context c' = parent_ext_span_context c"
    using assms
  proof (induction xs arbitrary: c)
    case (Cons x xs)
    from Cons.prems obtain c1 where c1: "do_call x c = Inr c1" "do_calls xs c1 = Inr c'"
      by (auto simp: outcome_eqs)
    have "parent_span_context c1 = parent_span_context c
      \<and> parent_ext_span_context c1 = parent_ext_span_context c"
      using frame_call [OF c1(1)] c1(1)
      by (cases "x = Skip_Analysis") (auto simp: frame_def context_setSkipAnalysis_def)
    with Cons.IH [OF c1(2)] show ?case by simp
  qed simp
  then show "parent_span_context c' = parent_span_context c"
    "parent_ext_span_context c' = parent_ext_span_context c" by simp_all
qed

text \<open>The ids of the spans of a context are their positions, from 0, whatever the application
  does; the list the context keeps is the list of all its spans in the order of their creation,
  and the four names of the segment are those it was constructed with.\<close>

lemma span_ids_are_positions:
  assumes "TracingContextImpl next_id service_name instance_name parent ext g = Inr (c, g')"
    and "calls_ok 0 xs" and "do_calls xs c = Inr c'"
  shows "\<exists>seg seg'. segment_store c = Some seg \<and> segment_store c' = Some seg'
    \<and> spans c' = [0..<length (seg_spans seg')]
    \<and> map so_spanid (seg_spans seg') = map word_of_nat [0..<length (seg_spans seg')]
    \<and> seg' = seg\<lparr>seg_spans := seg_spans seg'\<rparr>"
proof -
  note new = new_context [OF assms(1)]
  from new(1) obtain seg where seg: "segment_store c = Some seg" by blast
  from do_calls_names [OF assms(3) seg] obtain seg' where seg': "segment_store c' = Some seg'"
    and names: "seg' = seg\<lparr>seg_spans := seg_spans seg'\<rparr>"
    by auto
  have "context_inv c'" using calls_inv [OF new(1,2) _ assms(3)] assms(2) new(3) by simp
  with seg seg' names show ?thesis by (auto simp: context_inv_def)
qed

lemma span_ids_are_positions_witness:
  "\<exists>c' seg'. do_calls [Create_Entry_Span, Create_Exit_Span (Some 0)] example_context = Inr c'
    \<and> segment_store c' = Some seg' \<and> map so_spanid (seg_spans seg') = [0, 1]
    \<and> spans c' = [0, 1] \<and> seg_traceid seg' = ''1'' \<and> seg_tracesegmentid seg' = ''2''"
proof -
  let ?xs = "[Create_Entry_Span, Create_Exit_Span (Some 0)]"
  obtain c' where c': "do_calls ?xs example_context = Inr c'" and len: "length (table_of c') = 2"
    and live: "segment_store c' \<noteq> None" "context_inv c'"
    using example_calls [of ?xs] by auto
  from span_ids_are_positions [OF example_new _ c'] obtain seg' where s:
    "segment_store c' = Some seg'" "spans c' = [0..<length (seg_spans seg')]"
    "map so_spanid (seg_spans seg') = map word_of_nat [0..<length (seg_spans seg')]"
    and names: "seg' = example_segment\<lparr>seg_spans := seg_spans seg'\<rparr>"
    by (auto simp: example_context_def)
  have "length (seg_spans seg') = 2" using seg_spans_table [OF s(1) live(2)] len by simp
  moreover have "seg_traceid seg' = ''1'' \<and> seg_tracesegmentid seg' = ''2''"
    by (subst (1 2) names) (simp add: example_segment_def)
  ultimately show ?thesis using c' s by (simp add: upt_rec)
qed

text \<open>A context is ready to be sent exactly when each of its spans is finished, and the
  segment it hands over then holds the spans of its table in order; afterwards the context has
  no spans and no segment.\<close>

lemma reported_segment_is_the_table:
  assumes "TracingContextImpl next_id service_name instance_name parent ext g = Inr (c, g')"
    and "calls_ok 0 xs" and "do_calls xs c = Inr c'"
  shows "readyToSend c' = Inr (list_all snd (table_of c'))
    \<and> (\<exists>seg c''. createSegmentObject c' = Inr (seg, c'') \<and> seg_spans seg = map fst (table_of c')
      \<and> segment_store c'' = None \<and> spans c'' = [])"
proof -
  note new = new_context [OF assms(1)]
  have live: "segment_store c' \<noteq> None" "context_inv c'"
    using calls_inv [OF new(1,2) _ assms(3)] assms(2) new(3) by simp_all
  then show ?thesis
    using readyToSend_table seg_spans_table by (auto simp: createSegmentObject_def segment_of_def)
qed

lemma reported_segment_is_the_table_witness:
  "\<exists>c seg c'. do_calls [Create_Entry_Span, Change_Span (End_Span 7) 0] example_context = Inr c
    \<and> readyToSend c = Inr True \<and> createSegmentObject c = Inr (seg, c')
    \<and> seg_spans seg = [(entry_object None False)\<lparr>so_endtime := 7\<rparr>]"
proof -
  let ?xs = "[Create_Entry_Span, Change_Span (End_Span 7) 0]"
  obtain c where c: "do_calls ?xs example_context = Inr c"
    and t: "table_of c = [((entry_object None False)\<lparr>so_endtime := 7\<rparr>, True)]"
    using example_calls [of ?xs] by (auto simp: refused_when_finished_def finishes_def)
  from reported_segment_is_the_table [OF example_new _ c] t c show ?thesis by auto
qed

text \<open>Once the segment has been moved out, the context and its spans are unusable: creating
  a span, writing one, and handing the segment out again all end in a fault, never in a
  change of what was reported, although the context counts as ready to be sent.\<close>

lemma no_use_after_report:
  assumes "createSegmentObject c = Inr (seg, c')" and "h < length (span_objects c)"
  shows "createEntrySpan c' = Inl MovedFrom \<and> createExitSpan p c' = Inl MovedFrom
    \<and> change_span ch h c' = Inl (if finished (span_objects c ! h) \<and> refused_when_finished ch
        then AssertionFailed else MovedFrom)
    \<and> createSegmentObject c' = Inl MovedFrom \<and> readyToSend c' = Inr True"
proof -
  from assms have c': "c' = c\<lparr>spans := [], segment_store := None\<rparr>"
    by (auto simp: createSegmentObject_def outcome_eqs)
  have "change_span ch h c' = Inl (if finished (span_objects c ! h) \<and> refused_when_finished ch
        then AssertionFailed else MovedFrom)"
    by (cases ch) (use assms(2) c' in \<open>simp_all add: span_setter_defs assert_unfinished_def
        update_span_def segment_of_def refused_when_finished_def require_def\<close>)
  with c' show ?thesis
    by (simp add: createEntrySpan_def createExitSpan_def createSpan_def TracingSpanImpl_def
        segment_of_def createSegmentObject_def readyToSend_def)
qed

lemma no_use_after_report_witness:
  "\<exists>c seg c'. do_calls [Create_Entry_Span] example_context = Inr c
    \<and> createSegmentObject c = Inr (seg, c') \<and> change_span (End_Span 7) 0 c' = Inl MovedFrom
    \<and> createEntrySpan c' = Inl MovedFrom"
proof -
  obtain c where c: "do_calls [Create_Entry_Span] example_context = Inr c"
    and t: "table_of c = [(entry_object None False, False)]"
    and live: "segment_store c \<noteq> None" "context_inv c"
    using example_calls [of "[Create_Entry_Span]"] by auto
  from live(1) obtain s where s: "segment_store c = Some s" by blast
  have "length (span_objects c) = 1" using length_table [OF s live(2)] t by simp
  then have h: "0 < length (span_objects c)" by linarith
  have f: "\<not> finished (span_objects c ! 0)" using table_nth [OF s live(2) h] t by simp
  from s obtain seg c' where r: "createSegmentObject c = Inr (seg, c')"
    by (simp add: createSegmentObject_def segment_of_def)
  from no_use_after_report [OF r h, of None "End_Span 7"] f
  have "change_span (End_Span 7) 0 c' = Inl MovedFrom \<and> createEntrySpan c' = Inl MovedFrom"
    by (simp del: change_span.simps)
  with c r show ?thesis by blast
qed

section \<open>The outgoing header\<close>

lemma last_span_id:
  assumes "segment_store c = Some seg" and "context_inv c" and "seg_spans seg \<noteq> []"
  shows "so_spanid (last (seg_spans seg)) = word_of_nat (length (seg_spans seg) - 1)"
proof -
  have eq: "length (span_objects c) = length (seg_spans seg)"
    and ids: "\<forall>i<length (span_objects c). so_spanid (seg_spans seg ! i) = word_of_nat i"
    using assms(1,2) by (simp_all add: context_inv_live)
  have "length (seg_spans seg) - 1 < length (seg_spans seg)" using assms(3) by (cases "seg_spans seg") auto
  with ids eq have "so_spanid (seg_spans seg ! (length (seg_spans seg) - 1))
      = word_of_nat (length (seg_spans seg) - 1)" by metis
  with assms(3) show ?thesis by (simp add: last_conv_nth)
qed

text \<open>The context a header written by \<open>encodeSpan\<close> stands for.\<close>

definition outgoing_context :: "string \<Rightarrow> segment_object \<Rightarrow> span_context" where
  "outgoing_context target_address seg = \<lparr>sc_sample = True, sc_trace_id = seg_traceid seg,
     sc_trace_segment_id = seg_tracesegmentid seg, sc_span_id = so_spanid (last (seg_spans seg)),
     sc_service = seg_service seg, sc_service_instance = seg_serviceinstance seg,
     sc_endpoint = so_operationname (hd (seg_spans seg)), sc_target_address = target_address\<rparr>"

lemma createSW8HeaderValue_live:
  assumes "segment_store c = Some seg" and "context_inv c"
  shows "createSW8HeaderValue target_address c =
    (if seg_spans seg = [] then Inl EmptyContainer
     else if so_spantype (last (seg_spans seg)) = Some Exit
     then Inr (Some (sw8_text (outgoing_context target_address seg)))
     else Inr None)"
proof (cases "seg_spans seg = []")
  case True
  with assms show ?thesis by (auto simp: createSW8HeaderValue_def context_inv_live)
next
  case False
  then obtain n where "length (seg_spans seg) = Suc n" by (cases "seg_spans seg") auto
  with assms have n: "length (span_objects c) = Suc n" "length (seg_spans seg) = Suc n"
    by (simp_all add: context_inv_live)
  have "last (seg_spans seg) = seg_spans seg ! n" "hd (seg_spans seg) = seg_spans seg ! 0"
    using False n(2) by (simp_all add: last_conv_nth hd_conv_nth)
  moreover have "back_of (spans c) = Inr n" "front_of (spans c) = Inr 0"
    using assms n by (simp_all add: context_inv_live front_of_def upt_rec [of 0])
  moreover have "span_of n c = Inr (seg_spans seg ! n)" "span_of 0 c = Inr (seg_spans seg ! 0)"
    using span_of_live [OF assms] n(1) by simp_all
  ultimately show ?thesis using False assms(1)
    by (simp add: createSW8HeaderValue_def encodeSpan_def spanId_def spanType_def
        operationName_def segment_of_def encode_padded_text outgoing_context_def sw8_text_def)
qed

text \<open>The \<open>sw8\<close> header of a context is written for its last span and only when that is an
  exit span: it is the version 3 header of the trace, the segment, the last span's id, the
  service, the instance, the first span's operation name as endpoint, and the peer. Without
  any span the code reads the end of an empty list.\<close>

lemma sw8_header_of_last_exit_span:
  assumes "TracingContextImpl next_id service_name instance_name parent ext g = Inr (c, g')"
    and "calls_ok 0 xs" and "do_calls xs c = Inr c'" and "segment_store c' = Some seg"
  shows "createSW8HeaderValue target_address c' =
    (if seg_spans seg = [] then Inl EmptyContainer
     else if so_spantype (last (seg_spans seg)) = Some Exit
     then Inr (Some (sw8_text (outgoing_context target_address seg)))
     else Inr None)"
proof -
  note new = new_context [OF assms(1)]
  have "context_inv c'" using calls_inv [OF new(1,2) _ assms(3)] assms(2) new(3) by simp
  with assms(4) show ?thesis by (rule createSW8HeaderValue_live)
qed

lemma sw8_header_of_last_exit_span_witness:
  "\<exists>c c'. do_calls [Create_Entry_Span, Change_Span (Start_Span ''/hi'' 5) 0] example_context = Inr c
    \<and> createSW8HeaderValue ''peer:80'' c = Inr None
    \<and> do_calls [Create_Entry_Span, Change_Span (Start_Span ''/hi'' 5) 0, Create_Exit_Span (Some 0)]
        example_context = Inr c'
    \<and> createSW8HeaderValue ''peer:80'' c'
      = Inr (Some ''1-MQ==-Mg==-1-c3Zj-aW5zdA==-L2hp-cGVlcjo4MA=='')"
proof -
  let ?xs = "[Create_Entry_Span, Change_Span (Start_Span ''/hi'' 5) 0]"
    and ?ys = "[Create_Entry_Span, Change_Span (Start_Span ''/hi'' 5) 0, Create_Exit_Span (Some 0)]"
    and ?e = "(entry_object None False)\<lparr>so_operationname := ''/hi'', so_starttime := 5\<rparr>"
  obtain c where c: "do_calls ?xs example_context = Inr c" "table_of c = [(?e, False)]"
    "segment_store c \<noteq> None" "context_inv c"
    using example_calls [of ?xs] by (auto simp: refused_when_finished_def finishes_def)
  obtain c' where c': "do_calls ?ys example_context = Inr c'"
    "table_of c' = [(?e, False), (exit_object 1 0 False, False)]"
    "segment_store c' \<noteq> None" "context_inv c'"
    using example_calls [of ?ys] by (auto simp: refused_when_finished_def finishes_def)
  have ex: "segment_store example_context = Some example_segment"
    by (simp add: example_context_def)
  from c(3) obtain seg where seg: "segment_store c = Some seg" by blast
  from do_calls_names [OF c'(1) ex] obtain seg' where seg': "segment_store c' = Some seg'"
    and names: "seg_traceid seg' = ''1''" "seg_tracesegmentid seg' = ''2''"
      "seg_service seg' = ''svc''" "seg_serviceinstance seg' = ''inst''"
    by (auto simp: example_segment_def)
  note spans = seg_spans_table [OF seg c(4)] seg_spans_table [OF seg' c'(4)]
  have "outgoing_context ''peer:80'' seg' = \<lparr>sc_sample = True, sc_trace_id = ''1'',
      sc_trace_segment_id = ''2'', sc_span_id = 1, sc_service = ''svc'',
      sc_service_instance = ''inst'', sc_endpoint = ''/hi'', sc_target_address = ''peer:80''\<rparr>"
    by (simp add: outgoing_context_def spans c' names exit_object_def)
  moreover have "sw8_text \<lparr>sc_sample = True, sc_trace_id = ''1'',
      sc_trace_segment_id = ''2'', sc_span_id = 1, sc_service = ''svc'',
      sc_service_instance = ''inst'', sc_endpoint = ''/hi'', sc_target_address = ''peer:80''\<rparr>
    = ''1-MQ==-Mg==-1-c3Zj-aW5zdA==-L2hp-cGVlcjo4MA==''"
    by code_simp
  moreover have "so_spantype ?e = Some Entry" by (simp add: entry_object_def)
  ultimately show ?thesis
    using sw8_header_of_last_exit_span [OF example_new _ c(1) seg, of "''peer:80''"]
      sw8_header_of_last_exit_span [OF example_new _ c'(1) seg', of "''peer:80''"] c c' spans
    by (auto simp: exit_object_def simp del: do_calls.simps)
qed

section \<open>What the getters return\<close>

lemmas span_getter_defs = spanId_def parentSpanId_def startTime_def endTime_def peer_def
  spanType_def spanLayer_def errorStatus_def skipAnalysis_def componentId_def operationName_def
  createSpanObject_def

text \<open>The getters read the table: after any calls every getter of a span returns the field its
  setters write in the row of the span, \<open>createSpanObject\<close> the row itself; the getters of the
  context return the names and the parents it was constructed with and the spans in the order
  of their creation.\<close>

lemma getters_read_the_table:
  assumes "TracingContextImpl next_id service_name instance_name parent ext g = Inr (c0, g')"
    and "calls_ok 0 xs" and "do_calls xs c0 = Inr c" and "h < length (table_of c)"
  shows "let so = fst (table_of c ! h) in
      spanId h c = Inr (word_of_nat h) \<and> parentSpanId h c = Inr (so_parentspanid so)
    \<and> startTime h c = Inr (so_starttime so) \<and> endTime h c = Inr (so_endtime so)
    \<and> peer h c = Inr (so_peer so) \<and> spanType h c = Inr (so_spantype so)
    \<and> spanLayer h c = Inr (so_spanlayer so) \<and> errorStatus h c = Inr (so_iserror so)
    \<and> skipAnalysis h c = Inr (so_skipanalysis so) \<and> componentId h c = Inr (so_componentid so)
    \<and> operationName h c = Inr (so_operationname so) \<and> createSpanObject h c = Inr so
    \<and> span_finished h c = Inr (snd (table_of c ! h))
    \<and> service c = Inr service_name \<and> serviceInstance c = Inr instance_name
    \<and> context_spans c = [0..<length (table_of c)]
    \<and> parentSpanContext c = parent \<and> parentSpanContextExtension c = ext"
proof -
  note new = new_context [OF assms(1)]
  have live: "segment_store c \<noteq> None" "context_inv c"
    using calls_inv [OF new(1,2) _ assms(3)] assms(2) new(3) by simp_all
  then obtain seg where seg: "segment_store c = Some seg" by blast
  from new(1) obtain seg0 where seg0: "segment_store c0 = Some seg0" by blast
  with assms(1) have "seg_service seg0 = service_name" "seg_serviceinstance seg0 = instance_name"
    by (auto simp: TracingContextImpl_def outcome_eqs)
  with do_calls_names [OF assms(3) seg0] seg
  have names: "seg_service seg = service_name" "seg_serviceinstance seg = instance_name" by auto
  have h: "h < length (span_objects c)" using length_table [OF seg live(2)] assms(4) by simp
  have id: "so_spanid (seg_spans seg ! h) = word_of_nat h"
    using live(2) seg h by (simp add: context_inv_live)
  have "parent_span_context c = parent" "parent_ext_span_context c = ext"
    using do_calls_parents [OF assms(3)] new(4,5) by simp_all
  then show ?thesis
    using span_of_live [OF seg live(2) h] table_nth [OF seg live(2) h] h seg names id
      spans_table [OF live]
    by (simp add: span_getter_defs span_finished_def service_def serviceInstance_def segment_of_def
        context_spans_def parentSpanContext_def parentSpanContextExtension_def)
qed

lemma getters_read_the_table_witness:
  "\<exists>c. do_calls [Create_Entry_Span, Change_Span (Set_Peer ''p:1'') 0, Change_Span (End_Span 9) 0]
      example_context = Inr c
    \<and> peer 0 c = Inr ''p:1'' \<and> endTime 0 c = Inr 9 \<and> parentSpanId 0 c = Inr (- 1)
    \<and> componentId 0 c = Inr 9000 \<and> span_finished 0 c = Inr True \<and> service c = Inr ''svc''
    \<and> context_spans c = [0]"
proof -
  let ?xs = "[Create_Entry_Span, Change_Span (Set_Peer ''p:1'') 0, Change_Span (End_Span 9) 0]"
  obtain c where c: "do_calls ?xs example_context = Inr c"
    and t: "table_of c = [((entry_object None False)\<lparr>so_peer := ''p:1'', so_endtime := 9\<rparr>, True)]"
    using example_calls [of ?xs] by (auto simp: refused_when_finished_def finishes_def)
  have "calls_ok 0 ?xs" "0 < length (table_of c)" by (simp_all add: t)
  from getters_read_the_table [OF example_new this(1) c this(2)] c show ?thesis
    by (simp add: t entry_object_def empty_span_object_def Let_def del: do_calls.simps)
qed

section \<open>Log messages\<close>

text \<open>A log message is extended by the service, the instance, the trace, the segment and the
  id of the last span, \<open>-1\<close> when there is none; what is printed of the message is everything
  up to the first NUL behind the pointer of the view, not the view's characters.\<close>

lemma log_message_text:
  assumes "TracingContextImpl next_id service_name instance_name parent ext g = Inr (c, g')"
    and "calls_ok 0 xs" and "do_calls xs c = Inr c'" and "segment_store c' = Some seg"
    and "CHR 0x00 \<notin> set text"
  shows "logMessage \<lparr>sv_memory = text @ CHR 0x00 # rest, sv_length = n\<rparr> c' =
    Inr (text @ ''\", \"SW_CTX\": [\"'' @ service_name @ ''\",\"'' @ instance_name @ ''\",\"''
      @ seg_traceid seg @ ''\",\"'' @ seg_tracesegmentid seg @ ''\",\"''
      @ (if seg_spans seg = [] then ''-1''
         else std_to_string (word_of_nat (length (seg_spans seg) - 1))) @ ''\"]}'')"
proof -
  note new = new_context [OF assms(1)]
  have inv: "context_inv c'" using calls_inv [OF new(1,2) _ assms(3)] assms(2) new(3) by simp
  from new(1) obtain seg0 where seg0: "segment_store c = Some seg0" by blast
  with assms(1) have "seg_service seg0 = service_name" "seg_serviceinstance seg0 = instance_name"
    by (auto simp: TracingContextImpl_def outcome_eqs)
  with do_calls_names [OF assms(3) seg0] assms(4)
  have names: "seg_service seg = service_name" "seg_serviceinstance seg = instance_name" by auto
  note printed = c_string_terminated [OF assms(5), of rest n]
  show ?thesis
  proof (cases "seg_spans seg = []")
    case True
    with assms(4) inv names printed show ?thesis
      by (simp add: logMessage_def segment_of_def context_inv_live)
  next
    case False
    then obtain m where "length (seg_spans seg) = Suc m" by (cases "seg_spans seg") auto
    with assms(4) inv have m: "length (span_objects c') = Suc m" "length (seg_spans seg) = Suc m"
      by (simp_all add: context_inv_live)
    have "spans c' \<noteq> []" "back_of (spans c') = Inr m"
      using assms(4) inv m by (simp_all add: context_inv_live)
    with spanId_live [OF assms(4) inv, of m] m names printed False assms(4) show ?thesis
      by (simp add: logMessage_def segment_of_def)
  qed
qed

lemma log_message_text_witness:
  "logMessage \<lparr>sv_memory = ''hello world'' @ [CHR 0x00], sv_length = 5\<rparr> example_context
    = Inr ''hello world\", \"SW_CTX\": [\"svc\",\"inst\",\"1\",\"2\",\"-1\"]}''"
proof -
  have "segment_store example_context = Some example_segment" by (simp add: example_context_def)
  from log_message_text [OF example_new _ _ this, of "[]" "''hello world''" "[]" 5] show ?thesis
    by (simp add: example_segment_def)
qed

section \<open>Construction\<close>

text \<open>
  The identifiers of a new context, for any generator that keeps the laws of
  \<^theory_text>\<open>id_source\<close>: construction returns, the trace id is the parent's when there is one, and
  what is not inherited is an identifier.
\<close>

context id_source begin

lemma new_context_ids:
  assumes "ready g"
  shows "\<exists>c g' seg. TracingContextImpl next_id service_name instance_name parent ext g = Inr (c, g')
    \<and> ready g' \<and> segment_store c = Some seg \<and> is_id (seg_tracesegmentid seg)
    \<and> (case parent of None \<Rightarrow> is_id (seg_traceid seg) | Some p \<Rightarrow> seg_traceid seg = sc_trace_id p)"
proof -
  obtain s g1 where s: "next_id g = Inr (s, g1)" "is_id s" "ready g1"
    using next_id_returns [OF assms] by blast
  obtain t g2 where t: "next_id g1 = Inr (t, g2)" "is_id t" "ready g2"
    using next_id_returns [OF s(3)] by blast
  show ?thesis
    using s t assms by (cases parent) (auto simp: TracingContextImpl_def)
qed

end

text \<open>A context made by the factory for a call that came with a span context continues the
  caller's trace under a segment id of its own, and one made without starts a trace; both ids
  it makes are version 4 UUIDs, and the service and instance are those of the configuration.\<close>

lemma created_context_ids:
  assumes "generator_ready g"
  shows "\<exists>c g' seg. create_child (TracingContextFactory config) parent g = Inr (c, g')
    \<and> generator_ready g' \<and> segment_store c = Some seg
    \<and> is_uuid_v4 (seg_tracesegmentid seg)
    \<and> (case parent of None \<Rightarrow> is_uuid_v4 (seg_traceid seg) | Some p \<Rightarrow> seg_traceid seg = sc_trace_id p)
    \<and> seg_service seg = cfg_service_name config
    \<and> seg_serviceinstance seg = cfg_instance_name config
    \<and> (parent = None \<longrightarrow> create_root (TracingContextFactory config) g = Inr (c, g'))"
proof -
  obtain c g' seg where new: "TracingContextImpl uuid (cfg_service_name config)
      (cfg_instance_name config) parent None g = Inr (c, g')" "generator_ready g'"
    "segment_store c = Some seg" "is_uuid_v4 (seg_tracesegmentid seg)"
    "case parent of None \<Rightarrow> is_uuid_v4 (seg_traceid seg) | Some p \<Rightarrow> seg_traceid seg = sc_trace_id p"
    using random.new_context_ids [OF assms] by metis
  moreover from new(1,3) have "seg_service seg = cfg_service_name config"
    "seg_serviceinstance seg = cfg_instance_name config"
    by (auto simp: TracingContextImpl_def outcome_eqs)
  ultimately show ?thesis
    by (auto simp: create_child_def create_root_def TracingContextFactory_def)
qed

lemma created_context_ids_witness:
  "\<exists>c g' seg. create_child (TracingContextFactory \<lparr>cfg_protocol = GRPC, cfg_service_name = ''svc'',
      cfg_instance_name = ''inst'', cfg_address = ''oap:11800'', cfg_token = '''',
      cfg_delayed_buffer_size = 0, cfg_ignore_operation_name_suffix = [],
      cfg_cds_request_interval = 0\<rparr>) None (new_generator (\<lambda>_. 0)) = Inr (c, g')
    \<and> segment_store c = Some seg \<and> is_uuid_v4 (seg_traceid seg) \<and> seg_service seg = ''svc''"
  using created_context_ids [OF generator_ready_new [OF zero_draws], where parent = None]
  by (fastforce simp: option.case)

section \<open>Skipping the analysis\<close>

lemma new_context_skipping:
  assumes "TracingContextImpl next_id service_name instance_name parent ext g = Inr (c0, g')"
    and "c = context_setSkipAnalysis c0"
  shows "segment_store c \<noteq> None" and "context_inv c" and "table_of c = []"
    and "should_skip_analysis c"
  using assms
  by (auto simp: TracingContextImpl_def context_inv_def table_of_def context_setSkipAnalysis_def
      outcome_eqs)

lemma changed_skip: "so_skipanalysis so \<Longrightarrow> so_skipanalysis (changed ch so)"
  by (cases ch) simp_all

lemma table_call_skip:
  assumes "table_call parent True x tab = Inr tab'" and "\<forall>so \<in> fst ` set tab. so_skipanalysis so"
  shows "\<forall>so \<in> fst ` set tab'. so_skipanalysis so"
  using assms
proof (cases "(parent, True, x, tab)" rule: table_call.cases)
  case (4 p s ch h tab1)
  then show ?thesis
  proof (cases "h < length tab")
    case True
    with assms(2) have "so_skipanalysis (fst (tab ! h))" by simp
    with 4 assms show ?thesis
      by (auto split: if_splits dest!: set_update_subset_insert [THEN subsetD] intro!: changed_skip)
  qed (use assms in \<open>auto simp: not_less list_update_beyond split: if_splits\<close>)
qed (auto simp: entry_object_def exit_object_def split: if_splits)

lemma table_calls_skip:
  assumes "table_calls parent True xs tab = Inr tab'" and "\<forall>so \<in> fst ` set tab. so_skipanalysis so"
  shows "\<forall>so \<in> fst ` set tab'. so_skipanalysis so"
  using assms
proof (induction xs arbitrary: tab)
  case (Cons x xs)
  then obtain tab1 where "table_call parent True x tab = Inr tab1"
    "table_calls parent True xs tab1 = Inr tab'"
    by (auto simp: outcome_eqs)
  with Cons.IH table_call_skip Cons.prems(2) show ?case by blast
qed simp

text \<open>When the caller asked for the analysis to be skipped, every span of the segment that is
  reported carries the mark, whatever the application did to it.\<close>

lemma skip_mode_marks_every_span:
  assumes "create_child_extended f parent (Some \<lparr>sce_tracing_mode = Skip\<rparr>) g = Inr (c, g')"
    and "calls_ok 0 xs" and "do_calls xs c = Inr c'" and "createSegmentObject c' = Inr (seg, c'')"
  shows "\<forall>so \<in> set (seg_spans seg). so_skipanalysis so"
proof -
  from assms(1) obtain c0 g0 where c0: "TracingContextImpl uuid (factory_service_name f)
      (factory_instance_name f) parent (Some \<lparr>sce_tracing_mode = Skip\<rparr>) g = Inr (c0, g0)"
    and c: "c = context_setSkipAnalysis c0"
    by (auto simp: create_child_extended_def outcome_eqs)
  note live = new_context_skipping [OF c0 c]
  have live': "context_inv c'" using calls_inv [OF live(1,2) _ assms(3)] assms(2) live(3) by simp
  have "segment_store c' = Some seg"
    using assms(4) by (auto simp: createSegmentObject_def segment_of_def outcome_eqs split: option.splits)
  from seg_spans_table [OF this live'] have seg: "seg_spans seg = map fst (table_of c')" .
  have "table_calls (parent_span_context c) True xs [] = Inr (table_of c')"
    using calls_table_Inr [OF live(1,2) _ assms(3)] assms(2) live(3,4) by simp
  from table_calls_skip [OF this] show ?thesis by (auto simp: seg)
qed

lemma skip_mode_marks_every_span_witness:
  "\<exists>c g' c' seg c''. create_child_extended \<lparr>factory_service_name = ''svc'', factory_instance_name = ''inst''\<rparr>
      None (Some \<lparr>sce_tracing_mode = Skip\<rparr>) (new_generator (\<lambda>_. 0)) = Inr (c, g')
    \<and> do_calls [Create_Entry_Span] c = Inr c' \<and> createSegmentObject c' = Inr (seg, c'')
    \<and> length (seg_spans seg) = 1 \<and> so_skipanalysis (hd (seg_spans seg))"
proof -
  let ?f = "\<lparr>factory_service_name = ''svc'', factory_instance_name = ''inst''\<rparr>"
    and ?e = "Some \<lparr>sce_tracing_mode = Skip\<rparr>"
  obtain c0 g' where c0: "TracingContextImpl uuid ''svc'' ''inst'' None ?e (new_generator (\<lambda>_. 0))
      = Inr (c0, g')"
    using random.new_context_ids [OF generator_ready_new [OF zero_draws]] by blast
  define c where "c = context_setSkipAnalysis c0"
  note live = new_context_skipping [OF c0 c_def]
  have c: "create_child_extended ?f None ?e (new_generator (\<lambda>_. 0)) = Inr (c, g')"
    using c0 by (simp add: create_child_extended_def c_def)
  obtain c' tab where c': "do_calls [Create_Entry_Span] c = Inr c'" "table_of c' = [tab]"
    using calls_table [OF live(1,2), of "[Create_Entry_Span]"] live(3)
    by (auto simp: outcome_eqs simp del: do_calls.simps)
  from calls_inv [OF live(1,2) _ c'(1)] live(3) obtain seg where
    seg: "segment_store c' = Some seg" "context_inv c'" by auto
  then obtain c'' where r: "createSegmentObject c' = Inr (seg, c'')"
    by (simp add: createSegmentObject_def segment_of_def)
  have "seg_spans seg = [fst tab]" using seg_spans_table [OF seg] c'(2) by simp
  moreover from this have "so_skipanalysis (fst tab)"
    using skip_mode_marks_every_span [OF c _ c'(1) r] by simp
  ultimately show ?thesis using c c' r by auto
qed

end
