(* ===== verification/Suffix_Matcher.thy ===== *)
theory Suffix_Matcher
  imports Prelude
begin

text \<open>
  \<open>SuffixMatcher\<close> of \<^verbatim>\<open>source/matchers/suffix_matcher.{h,cc}\<close>, the tracer's filter on
  operation names. The test \<open>absl::EndsWith\<close> belongs to the Abseil library and is an argument
  of the model; its documented behaviour is the hypothesis \<open>ends_with_spec\<close>.
\<close>

record suffix_matcher =
  target_suffixes :: "string list"

definition new_suffix_matcher :: "string list \<Rightarrow> suffix_matcher" where
  "new_suffix_matcher sfxs = \<lparr>target_suffixes = sfxs\<rparr>"

fun match_loop :: "(string \<Rightarrow> string \<Rightarrow> bool) \<Rightarrow> string list \<Rightarrow> string \<Rightarrow> bool" where
  "match_loop ends_with [] target = False"
| "match_loop ends_with (ignore_suffix # rest) target =
     (if ends_with target ignore_suffix then True else match_loop ends_with rest target)"

definition matches :: "(string \<Rightarrow> string \<Rightarrow> bool) \<Rightarrow> suffix_matcher \<Rightarrow> string \<Rightarrow> bool" where
  "matches ends_with m target = match_loop ends_with (target_suffixes m) target"

text \<open>\<open>absl::EndsWith(text, suffix)\<close>: whether the text ends with the suffix.\<close>

definition ends_with_spec :: "(string \<Rightarrow> string \<Rightarrow> bool) \<Rightarrow> bool" where
  "ends_with_spec ends_with \<longleftrightarrow> (\<forall>text sfx. ends_with text sfx \<longleftrightarrow> (\<exists>front. text = front @ sfx))"

definition ends_with_by_drop :: "string \<Rightarrow> string \<Rightarrow> bool" where
  "ends_with_by_drop t sfx \<longleftrightarrow> length sfx \<le> length t \<and> drop (length t - length sfx) t = sfx"

lemma ends_with_by_drop_spec: "ends_with_spec ends_with_by_drop"
  unfolding ends_with_spec_def ends_with_by_drop_def
  by (metis add_diff_cancel_right' append_eq_conv_conj append_take_drop_id length_append le_add2)

lemma match_loop_iff: "match_loop ends_with ss t \<longleftrightarrow> (\<exists>s \<in> set ss. ends_with t s)"
  by (induction ss) auto

text \<open>An operation name is filtered exactly when one of the configured strings is a suffix
  of it; the order of the configuration does not matter.\<close>

lemma matches_iff_suffix:
  assumes "ends_with_spec ends_with"
  shows "matches ends_with (new_suffix_matcher sfxs) target
     \<longleftrightarrow> (\<exists>sfx \<in> set sfxs. suffix sfx target)"
  using assms
  by (simp add: matches_def new_suffix_matcher_def match_loop_iff ends_with_spec_def suffix_def)

lemma matches_iff_suffix_witness:
  "ends_with_spec ends_with_by_drop
   \<and> matches ends_with_by_drop (new_suffix_matcher [''/ignore'']) ''/istio/ignore''
   \<and> \<not> matches ends_with_by_drop (new_suffix_matcher [''/ignore'']) ''/istio''
   \<and> (\<exists>sfx \<in> set [''/ignore'']. suffix sfx ''/istio/ignore'')"
proof -
  have "matches ends_with_by_drop (new_suffix_matcher [''/ignore'']) ''/istio/ignore''"
    "\<not> matches ends_with_by_drop (new_suffix_matcher [''/ignore'']) ''/istio''"
    by (simp_all add: matches_def new_suffix_matcher_def ends_with_by_drop_def)
  with matches_iff_suffix [OF ends_with_by_drop_spec] ends_with_by_drop_spec show ?thesis
    by blast
qed

end
