(* ===== verification/Value_Buffer.thy ===== *)
theory Value_Buffer
  imports Prelude
begin

text \<open>
  \<open>ValueBuffer\<close> of \<^verbatim>\<open>source/utils/buffer.h\<close>: a deque of pending values behind a mutex.
  Every method holds the mutex from its first line to its return, so a method is one atomic
  step on the deque and the state of the model is the deque's contents, front first. The
  theory states the queue interface that the reporter client uses and proves that the class
  provides it.
\<close>

record 'v value_buffer =
  buf :: "'v list"

definition empty_buffer :: "'v value_buffer" where
  "empty_buffer = \<lparr>buf = []\<rparr>"

definition pop_front :: "'v value_buffer \<Rightarrow> 'v option \<times> 'v value_buffer" where
  "pop_front b = (if buf b = [] then (None, b) else (Some (hd (buf b)), b\<lparr>buf := tl (buf b)\<rparr>))"

definition push_back :: "'v \<Rightarrow> 'v value_buffer \<Rightarrow> 'v value_buffer" where
  "push_back v b = b\<lparr>buf := buf b @ [v]\<rparr>"

definition buffer_empty :: "'v value_buffer \<Rightarrow> bool" where
  "buffer_empty b \<longleftrightarrow> buf b = []"

definition buffer_size :: "'v value_buffer \<Rightarrow> nat" where
  "buffer_size b = length (buf b)"

definition buffer_clear :: "'v value_buffer \<Rightarrow> 'v value_buffer" where
  "buffer_clear b = b\<lparr>buf := []\<rparr>"

section \<open>The queue interface\<close>

text \<open>
  The methods of a buffer as its clients call them, and the laws they rely on, stated over the
  values the buffer holds. A law about two buffers that hold the same values is not needed:
  clients see a buffer through its methods only.
\<close>

locale fifo_queue =
  fixes create :: "'q"
    and push :: "'v \<Rightarrow> 'q \<Rightarrow> 'q"
    and pop :: "'q \<Rightarrow> 'v option \<times> 'q"
    and size_of :: "'q \<Rightarrow> nat"
    and discard :: "'q \<Rightarrow> 'q"
    and contents :: "'q \<Rightarrow> 'v list"
  assumes contents_create: "contents create = []"
    and contents_push: "contents (push v q) = contents q @ [v]"
    and pop_empty: "contents q = [] \<Longrightarrow> fst (pop q) = None \<and> contents (snd (pop q)) = []"
    and pop_nonempty: "contents q = v # vs \<Longrightarrow> fst (pop q) = Some v \<and> contents (snd (pop q)) = vs"
    and size_contents: "size_of q = length (contents q)"
    and contents_discard: "contents (discard q) = []"

text \<open>A client's history of calls, and the values its pops returned.\<close>

datatype 'v queue_call = Push 'v | Pop | Discard

fun run_calls ::
  "('v \<Rightarrow> 'q \<Rightarrow> 'q) \<Rightarrow> ('q \<Rightarrow> 'v option \<times> 'q) \<Rightarrow> ('q \<Rightarrow> 'q) \<Rightarrow> 'v queue_call list \<Rightarrow> 'q \<Rightarrow> 'v list \<times> 'q"
where
  "run_calls push pop discard [] q = ([], q)"
| "run_calls push pop discard (Push v # cs) q = run_calls push pop discard cs (push v q)"
| "run_calls push pop discard (Discard # cs) q = run_calls push pop discard cs (discard q)"
| "run_calls push pop discard (Pop # cs) q =
     (let (r, q') = pop q; (vs, q'') = run_calls push pop discard cs q'
      in ((case r of None \<Rightarrow> vs | Some v \<Rightarrow> v # vs), q''))"

fun pushed :: "'v queue_call list \<Rightarrow> 'v list" where
  "pushed [] = []"
| "pushed (Push v # cs) = v # pushed cs"
| "pushed (_ # cs) = pushed cs"

context fifo_queue begin

lemma size_push: "size_of (push v q) = size_of q + 1"
  by (simp add: size_contents contents_push)

lemma pop_None_iff: "fst (pop q) = None \<longleftrightarrow> size_of q = 0"
  using pop_empty [of q] pop_nonempty [of q]
  by (cases "contents q") (auto simp: size_contents)

lemma size_pop: "size_of (snd (pop q)) = size_of q - 1"
  using pop_empty [of q] pop_nonempty [of q]
  by (cases "contents q") (auto simp: size_contents)

text \<open>Without a discard, what was popped and what is left is what was there and was pushed.\<close>

lemma run_calls_fifo:
  "Discard \<notin> set cs \<Longrightarrow> run_calls push pop discard cs q = (vs, q') \<Longrightarrow>
     vs @ contents q' = contents q @ pushed cs"
proof (induction cs arbitrary: q vs)
  case (Cons c cs)
  show ?case
  proof (cases c)
    case (Push v)
    with Cons show ?thesis by (auto simp: contents_push)
  next
    case Pop
    with Cons show ?thesis
      using pop_empty [of q] pop_nonempty [of q]
      by (cases "contents q") (fastforce simp: split_beta Let_def)+
  next
    case Discard
    with Cons.prems show ?thesis by simp
  qed
qed simp

end

section \<open>The class provides the interface\<close>

lemmas value_buffer_defs = empty_buffer_def pop_front_def push_back_def buffer_empty_def
  buffer_size_def buffer_clear_def

interpretation vb: fifo_queue empty_buffer push_back pop_front buffer_size buffer_clear buf
  by unfold_locales (auto simp: value_buffer_defs)

text \<open>Values leave the buffer in the order they entered it, none lost and none invented:
  over any sequence of calls with no \<open>clear\<close>, the values popped followed by the values left
  are the initial contents followed by the values pushed.\<close>

lemma buffer_is_fifo:
  assumes "Discard \<notin> set calls"
    and "run_calls push_back pop_front buffer_clear calls b = (popped, b')"
  shows "popped @ buf b' = buf b @ pushed calls"
  using assms by (rule vb.run_calls_fifo)

lemma buffer_is_fifo_witness:
  "run_calls push_back pop_front buffer_clear [Push 1, Push 2, Pop, Push 3, Pop] empty_buffer
     = ([1, 2 :: nat], \<lparr>buf = [3]\<rparr>)
   \<and> [1, 2 :: nat] @ [3] = [] @ pushed [Push 1, Push 2, Pop, Push 3, Pop]"
proof -
  let ?cs = "[Push 1, Push 2, Pop, Push 3, Pop] :: nat queue_call list"
  have r: "run_calls push_back pop_front buffer_clear ?cs empty_buffer
      = ([1, 2], \<lparr>buf = [3]\<rparr>)"
    by (simp add: value_buffer_defs)
  have "[1, 2] @ buf \<lparr>buf = [3 :: nat]\<rparr> = buf (empty_buffer :: nat value_buffer) @ pushed ?cs"
    by (rule buffer_is_fifo [OF _ r]) simp
  with r show ?thesis by (simp add: value_buffer_defs)
qed

end
