(* ===== verification/Async_Client.thy ===== *)
theory Async_Client
  imports Value_Buffer
begin

text \<open>
  The reporter client: \<open>TraceAsyncClientImpl\<close>, its stream \<open>TraceAsyncStreamImpl\<close> and the event loop
  (\<^verbatim>\<open>source/grpc_async_client_impl.{h,cc}\<close>, \<^verbatim>\<open>cpp2sky/internal/async_client.h\<close>).

  The gRPC library is seen through what the code calls: operations started on a stream, each with
  a tag, and a completion queue that later returns each tag once, with a success flag. The model
  keeps the operations started so far (\<open>wire\<close>, in order) and the tags not returned yet (\<open>cq_tags\<close>);
  which tag is returned next and with which flag is an argument of the steps. The stream factory
  is the default one; \<^theory_text>\<open>Stream_Factory\<close> has the client with another. In this theory each call of \<open>sendMessage\<close>,
  each callback and \<open>resetClient\<close> is a function from state to state, which is what it does when no
  other thread moves in between; the interleavings of their parts are the subject of
  \<^theory_text>\<open>Async_Client_Threads\<close>, and what holds of this model need not hold of them.
\<close>

section \<open>State\<close>

type_synonym uint64 = "64 word"
type_synonym metadata = "(string \<times> string) list"

datatype event_tag = Basic_Event | Write_Event

datatype 'm operation = Start_Call string metadata | Write 'm

record stream =
  stream_context :: metadata

text \<open>The client, whose streams are of a type \<open>'s\<close>: those of the default factory are of type \<open>stream\<close>.\<close>

record ('m, 's) async_client_of =
  token :: string
  messages_total :: uint64
  messages_dropped :: uint64
  messages_sent :: uint64
  loop_exited :: bool
  client_reset :: bool
  message_buffer :: "'m value_buffer"
  event_loop_idle :: bool
  active_stream :: "'s option"
  wire :: "'m operation list"
  cq_tags :: "event_tag list"

type_synonym 'm async_client = "('m, stream) async_client_of"
type_synonym 'm client_op = "'m async_client \<Rightarrow> 'm async_client outcome"

definition MaxPendingMessagesSize :: nat where
  "MaxPendingMessagesSize = 1024"

definition AuthenticationKey :: string where
  "AuthenticationKey = ''authentication''"

definition TraceCollectMethod :: string where
  "TraceCollectMethod = ''/TraceSegmentReportService/collect''"

section \<open>The stream\<close>

text \<open>The constructor starts the call; a null client context is replaced by an empty one.\<close>

definition TraceAsyncStreamImpl :: "metadata option \<Rightarrow> 'm async_client \<Rightarrow> stream \<times> 'm async_client" where
  "TraceAsyncStreamImpl client_ctx c =
     (let md = (case client_ctx of None \<Rightarrow> [] | Some md \<Rightarrow> md)
      in (\<lparr>stream_context = md\<rparr>,
          c\<lparr>wire := wire c @ [Start_Call TraceCollectMethod md],
            cq_tags := cq_tags c @ [Basic_Event]\<rparr>))"

definition stream_sendMessage :: "'m \<Rightarrow> 'm async_client \<Rightarrow> 'm async_client" where
  "stream_sendMessage message c =
     c\<lparr>wire := wire c @ [Write message], cq_tags := cq_tags c @ [Write_Event]\<rparr>"

definition createStream :: "metadata option \<Rightarrow> 'm async_client \<Rightarrow> stream \<times> 'm async_client" where
  "createStream client_ctx c = TraceAsyncStreamImpl client_ctx c"

section \<open>The client\<close>

definition markEventLoopIdle ::
  "('m, 's, 'z) async_client_of_scheme \<Rightarrow> ('m, 's, 'z) async_client_of_scheme"
where
  "markEventLoopIdle c = c\<lparr>event_loop_idle := True\<rparr>"

definition resetStream ::
  "('m, 's, 'z) async_client_of_scheme \<Rightarrow> ('m, 's, 'z) async_client_of_scheme"
where
  "resetStream c = c\<lparr>active_stream := None\<rparr>"

definition startStream :: "'m async_client \<Rightarrow> 'm async_client" where
  "startStream c =
     (let c = (if active_stream c \<noteq> None then resetStream c else c);
          client_ctx = (if token c \<noteq> '''' then [(AuthenticationKey, token c)] else []);
          (s, c) = createStream (Some client_ctx) c
      in c\<lparr>active_stream := Some s\<rparr>)"

definition sendMessageOnce :: "'m client_op" where
  "sendMessageOnce c =
     (if event_loop_idle c then
        (let c = c\<lparr>event_loop_idle := False\<rparr>
         in require (active_stream c \<noteq> None) AssertionFailed
             (case pop_front (message_buffer c) of
                (None, _) \<Rightarrow> Inr (markEventLoopIdle c)
              | (Some message, b) \<Rightarrow> Inr (stream_sendMessage message (c\<lparr>message_buffer := b\<rparr>))))
      else Inr c)"

definition sendMessage :: "'m \<Rightarrow> 'm client_op" where
  "sendMessage message c =
     (let c = c\<lparr>messages_total := messages_total c + 1\<rparr>;
          pending = buffer_size (message_buffer c)
      in if pending > MaxPendingMessagesSize then
           Inr (c\<lparr>messages_dropped := messages_dropped c + 1\<rparr>)
         else sendMessageOnce (c\<lparr>message_buffer := push_back message (message_buffer c)\<rparr>))"

definition basic_event_callback :: "bool \<Rightarrow> 'm client_op" where
  "basic_event_callback ok c =
     (if client_reset c then Inr c
      else if ok then sendMessageOnce (markEventLoopIdle c)
      else require (\<not> event_loop_idle c) AssertionFailed (Inr (startStream c)))"

definition write_event_callback :: "bool \<Rightarrow> 'm client_op" where
  "write_event_callback ok c =
     basic_event_callback ok
       (if ok then c\<lparr>messages_sent := messages_sent c + 1\<rparr>
        else c\<lparr>messages_dropped := messages_dropped c + 1\<rparr>)"

text \<open>
  One turn of \<open>EventLoopThread::gogo\<close>: the queue returns the tag at position \<open>i\<close> of those
  outstanding, and the callback of the tag runs.
\<close>

definition event_turn :: "nat \<Rightarrow> bool \<Rightarrow> 'm client_op" where
  "event_turn i ok c =
     and_then (read_at (cq_tags c) i) (\<lambda>tag.
     (case tag of Basic_Event \<Rightarrow> basic_event_callback ok | Write_Event \<Rightarrow> write_event_callback ok)
       (c\<lparr>cq_tags := take i (cq_tags c) @ drop (Suc i) (cq_tags c)\<rparr>))"

text \<open>
  The turns after the queue has been shut down, until it is drained: it returns the tags that
  are left, each with a flag, then reports that there are none.
\<close>

fun gogo_drain :: "bool list \<Rightarrow> 'm client_op" where
  "gogo_drain [] c = Inr c"
| "gogo_drain (ok # oks) c =
     (if cq_tags c = [] then Inr c else and_then (event_turn 0 ok c) (gogo_drain oks))"

text \<open>\<open>EventLoopThread::exit\<close>, which shuts the queue down and joins the thread.\<close>

definition exit_loop :: "bool list \<Rightarrow> 'm client_op" where
  "exit_loop oks c =
     (if \<not> loop_exited c then gogo_drain oks (c\<lparr>loop_exited := True\<rparr>) else Inr c)"

definition resetClient :: "bool list \<Rightarrow> 'm client_op" where
  "resetClient oks c =
     and_then (exit_loop oks
       (c\<lparr>client_reset := True, message_buffer := buffer_clear (message_buffer c)\<rparr>))
     (\<lambda>c. Inr (resetStream c))"

text \<open>
  The destructor of the client, after which its members are destroyed, among them the event loop,
  whose destructor calls \<open>exit\<close>.
\<close>

definition destroy_event_loop :: "bool list \<Rightarrow> 'm client_op" where
  "destroy_event_loop oks c = exit_loop oks c"

definition destroy_client :: "bool list \<Rightarrow> 'm client_op" where
  "destroy_client oks c =
     and_then (if \<not> client_reset c then resetClient oks c else Inr c) (destroy_event_loop oks)"

definition TraceAsyncClientImpl :: "string \<Rightarrow> 'm async_client" where
  "TraceAsyncClientImpl token_value = startStream
     \<lparr>token = token_value, messages_total = 0, messages_dropped = 0, messages_sent = 0,
      loop_exited = False, client_reset = False, message_buffer = empty_buffer,
      event_loop_idle = False, active_stream = None, wire = [], cq_tags = []\<rparr>"

definition createClient :: "string \<Rightarrow> 'm async_client" where
  "createClient token_value = TraceAsyncClientImpl token_value"

end
