(* ===== verification/Async_Client_Spec.thy ===== *)
theory Async_Client_Spec
  imports Async_Client "HOL-Library.Multiset"
begin

text \<open>
  What the reporter client promises, and that it keeps the promise. The specification is a queue
  of messages and a phase: idle, opening a stream, or writing one message; it remembers what was
  submitted, handed to the stream, confirmed and lost. The simulation \<open>implements\<close> relates it to
  the state of \<^theory_text>\<open>Async_Client\<close>; every property of the client is proved on the specification and
  carried over.
\<close>

section \<open>Specification\<close>

datatype 'm phase = Idle | Opening | Writing 'm

record 'm reporter =
  phase :: "'m phase"
  queue :: "'m list"
  submitted :: "'m list"
  attempted :: "'m list"
  delivered :: "'m list"
  lost :: "'m list"

definition new_reporter :: "'m reporter" where
  "new_reporter = \<lparr>phase = Opening, queue = [], submitted = [], attempted = [], delivered = [],
     lost = []\<rparr>"

definition start_next :: "'m reporter \<Rightarrow> 'm reporter" where
  "start_next a = (case queue a of
       [] \<Rightarrow> a\<lparr>phase := Idle\<rparr>
     | m # q \<Rightarrow> a\<lparr>phase := Writing m, queue := q, attempted := attempted a @ [m]\<rparr>)"

definition spec_send :: "'m \<Rightarrow> 'm reporter \<Rightarrow> 'm reporter" where
  "spec_send m a =
     (let a = a\<lparr>submitted := submitted a @ [m]\<rparr>
      in if 1024 < length (queue a) then a\<lparr>lost := lost a @ [m]\<rparr>
         else let a = a\<lparr>queue := queue a @ [m]\<rparr>
              in if phase a = Idle then start_next a else a)"

definition spec_event :: "bool \<Rightarrow> 'm reporter \<Rightarrow> 'm reporter" where
  "spec_event ok a =
     (let a = (case phase a of
         Writing m \<Rightarrow> if ok then a\<lparr>delivered := delivered a @ [m]\<rparr> else a\<lparr>lost := lost a @ [m]\<rparr>
       | _ \<Rightarrow> a)
      in if ok then start_next a else a\<lparr>phase := Opening\<rparr>)"

text \<open>
  What holds of the specification: it is idle only with nothing to do, it never holds more than
  1025 messages, what it hands to the stream comes out of the queue in the order of submission,
  and each submitted message is in exactly one place.
\<close>

definition in_flight :: "'m reporter \<Rightarrow> 'm list" where
  "in_flight a = (case phase a of Writing m \<Rightarrow> [m] | _ \<Rightarrow> [])"

definition reporter_inv :: "'m reporter \<Rightarrow> bool" where
  "reporter_inv a \<longleftrightarrow> (phase a = Idle \<longrightarrow> queue a = []) \<and> length (queue a) \<le> 1025
     \<and> subseq (attempted a @ queue a) (submitted a)
     \<and> subseq (delivered a @ in_flight a) (attempted a)
     \<and> mset (submitted a) = mset (delivered a) + mset (lost a) + mset (in_flight a) + mset (queue a)"

lemma reporter_inv_new: "reporter_inv new_reporter"
  by (simp add: reporter_inv_def new_reporter_def in_flight_def)

lemma subseq_snoc: "subseq xs ys \<Longrightarrow> subseq xs (ys @ [y])"
  by (rule subseq_rev_drop_many)

lemma reporter_inv_start_next:
  assumes "in_flight a = []" and "length (queue a) \<le> 1025"
    and "subseq (attempted a @ queue a) (submitted a)" and "subseq (delivered a) (attempted a)"
    and "mset (submitted a) = mset (delivered a) + mset (lost a) + mset (queue a)"
  shows "reporter_inv (start_next a)"
  using assms
  by (auto simp: reporter_inv_def start_next_def in_flight_def subseq_append_iff split: list.split
      intro: list_emb_append_mono)

lemma reporter_inv_send:
  assumes "reporter_inv a"
  shows "reporter_inv (spec_send m a)"
proof (cases "1024 < length (queue a)")
  case True
  with assms show ?thesis
    by (auto simp: reporter_inv_def spec_send_def in_flight_def Let_def intro: subseq_snoc)
next
  case False
  from assms have "subseq (attempted a @ queue a @ [m]) (submitted a @ [m])"
    using list_emb_append_mono [of "(=)" "attempted a @ queue a" "submitted a" "[m]" "[m]"]
    by (simp add: reporter_inv_def)
  moreover have "reporter_inv (start_next (a\<lparr>submitted := submitted a @ [m], queue := queue a @ [m]\<rparr>))"
    if "phase a = Idle"
    using that assms calculation
    by (intro reporter_inv_start_next) (auto simp: reporter_inv_def in_flight_def)
  ultimately show ?thesis
    using assms False by (auto simp: spec_send_def Let_def reporter_inv_def in_flight_def)
qed

lemma reporter_inv_event:
  assumes "reporter_inv a" and "phase a \<noteq> Idle"
  shows "reporter_inv (spec_event ok a)"
proof -
  define b where "b = (case phase a of
      Writing m \<Rightarrow> if ok then a\<lparr>delivered := delivered a @ [m]\<rparr> else a\<lparr>lost := lost a @ [m]\<rparr>
    | _ \<Rightarrow> a)"
  have parts: "length (queue b) \<le> 1025" "subseq (attempted b @ queue b) (submitted b)"
    "subseq (delivered b) (attempted b)"
    "mset (submitted b) = mset (delivered b) + mset (lost b) + mset (queue b)"
    using assms by (auto simp: b_def reporter_inv_def in_flight_def split: phase.splits
        intro: subseq_order.trans)
  have event: "spec_event ok a = (if ok then start_next b else b\<lparr>phase := Opening\<rparr>)"
    by (simp add: spec_event_def b_def)
  show ?thesis
  proof (cases ok)
    case True
    have "reporter_inv (start_next (b\<lparr>phase := Opening\<rparr>))"
      using parts by (intro reporter_inv_start_next) (simp_all add: in_flight_def)
    moreover have "start_next (b\<lparr>phase := Opening\<rparr>) = start_next b"
      by (simp add: start_next_def split: list.split)
    ultimately show ?thesis unfolding event using True by simp
  next
    case False
    with parts show ?thesis unfolding event by (simp add: reporter_inv_def in_flight_def)
  qed
qed

section \<open>The client implements the specification\<close>

fun writes :: "'m operation list \<Rightarrow> 'm list" where
  "writes [] = []"
| "writes (Start_Call _ _ # ops) = writes ops"
| "writes (Write m # ops) = m # writes ops"

lemma writes_append [simp]: "writes (xs @ ys) = writes xs @ writes ys"
  by (induction xs rule: writes.induct) simp_all

text \<open>The metadata every call of a client is started with.\<close>

definition call_metadata :: "string \<Rightarrow> metadata" where
  "call_metadata tok = (if tok \<noteq> '''' then [(AuthenticationKey, tok)] else [])"

definition tags_of :: "'m phase \<Rightarrow> event_tag list" where
  "tags_of p = (case p of Idle \<Rightarrow> [] | Opening \<Rightarrow> [Basic_Event] | Writing _ \<Rightarrow> [Write_Event])"

text \<open>The part of the relation that does not depend on the phase, and the relation.\<close>

definition implements_data :: "'m async_client \<Rightarrow> 'm reporter \<Rightarrow> bool" where
  "implements_data c a \<longleftrightarrow> \<not> client_reset c \<and> \<not> loop_exited c \<and> active_stream c \<noteq> None
     \<and> buf (message_buffer c) = queue a \<and> writes (wire c) = attempted a
     \<and> messages_total c = word_of_nat (length (submitted a))
     \<and> messages_sent c = word_of_nat (length (delivered a))
     \<and> messages_dropped c = word_of_nat (length (lost a))
     \<and> (\<forall>path md. Start_Call path md \<in> set (wire c) \<longrightarrow>
       path = TraceCollectMethod \<and> md = call_metadata (token c))"

definition implements :: "'m async_client \<Rightarrow> 'm reporter \<Rightarrow> bool" where
  "implements c a \<longleftrightarrow> implements_data c a
     \<and> (event_loop_idle c \<longleftrightarrow> phase a = Idle) \<and> cq_tags c = tags_of (phase a)"

lemma sendMessageOnce_implements:
  assumes "implements_data c a" and "cq_tags c = []"
  shows "\<exists>c'. sendMessageOnce (markEventLoopIdle c) = Inr c' \<and> implements c' (start_next a)"
proof (cases "queue a")
  case Nil
  with assms(1) have "fst (pop_front (message_buffer c)) = None"
    using vb.pop_empty [of "message_buffer c"] by (simp add: implements_data_def)
  then obtain b where "pop_front (message_buffer c) = (None, b)" by (metis prod.collapse)
  with assms Nil show ?thesis
    by (simp add: sendMessageOnce_def markEventLoopIdle_def implements_def implements_data_def
        start_next_def tags_of_def)
next
  case (Cons m q)
  with assms(1) have "fst (pop_front (message_buffer c)) = Some m \<and> buf (snd (pop_front (message_buffer c))) = q"
    using vb.pop_nonempty [of "message_buffer c" m q] by (simp add: implements_data_def)
  then obtain b where "pop_front (message_buffer c) = (Some m, b)" "buf b = q"
    by (metis prod.collapse)
  with assms Cons show ?thesis
    by (auto simp: sendMessageOnce_def markEventLoopIdle_def stream_sendMessage_def implements_def
        implements_data_def start_next_def tags_of_def)
qed

lemma startStream_implements:
  assumes "implements_data c a" and "cq_tags c = []" and "\<not> event_loop_idle c"
  shows "implements (startStream c) (a\<lparr>phase := Opening\<rparr>)"
  using assms
  by (auto simp: startStream_def createStream_def TraceAsyncStreamImpl_def resetStream_def Let_def
      implements_def implements_data_def tags_of_def call_metadata_def)

lemma sendMessage_implements:
  assumes "implements c a"
  shows "\<exists>c'. sendMessage m c = Inr c' \<and> implements c' (spec_send m a)"
proof -
  let ?c = "c\<lparr>messages_total := messages_total c + 1,
      message_buffer := push_back m (message_buffer c)\<rparr>"
    and ?a = "a\<lparr>submitted := submitted a @ [m], queue := queue a @ [m]\<rparr>"
  have data: "implements_data ?c ?a"
    using assms by (simp add: implements_def implements_data_def vb.contents_push)
  have size: "buffer_size (message_buffer c) = length (queue a)"
    using assms by (simp add: implements_def implements_data_def vb.size_contents)
  consider (full) "1024 < length (queue a)" | (idle) "\<not> 1024 < length (queue a)" "phase a = Idle"
    | (busy) "\<not> 1024 < length (queue a)" "phase a \<noteq> Idle" by blast
  then show ?thesis
  proof cases
    case full
    with assms size show ?thesis
      by (auto simp: sendMessage_def spec_send_def MaxPendingMessagesSize_def implements_def
          implements_data_def Let_def)
  next
    case idle
    with assms have "cq_tags ?c = []" "markEventLoopIdle ?c = ?c"
      by (auto simp: implements_def tags_of_def markEventLoopIdle_def)
    with sendMessageOnce_implements [OF data] idle size show ?thesis
      by (simp add: sendMessage_def spec_send_def MaxPendingMessagesSize_def)
  next
    case busy
    with assms data size show ?thesis
      by (simp add: sendMessage_def sendMessageOnce_def spec_send_def MaxPendingMessagesSize_def
          implements_def)
  qed
qed

lemma callback_implements:
  assumes "implements_data c a" and "cq_tags c = []" and "\<not> event_loop_idle c"
  shows "\<exists>c'. basic_event_callback ok c = Inr c'
    \<and> implements c' (if ok then start_next a else a\<lparr>phase := Opening\<rparr>)"
proof -
  have "\<not> client_reset c" using assms(1) by (simp add: implements_data_def)
  then show ?thesis
    using assms sendMessageOnce_implements [OF assms(1,2)] startStream_implements [OF assms]
    by (cases ok) (simp_all add: basic_event_callback_def)
qed

lemma event_turn_implements:
  assumes "implements c a" and "phase a \<noteq> Idle"
  shows "\<exists>c'. event_turn 0 ok c = Inr c' \<and> implements c' (spec_event ok a)"
proof (cases "phase a")
  case Opening
  with assms have tags: "cq_tags c = [Basic_Event]" by (simp add: implements_def tags_of_def)
  have "implements_data (c\<lparr>cq_tags := []\<rparr>) a" "\<not> event_loop_idle (c\<lparr>cq_tags := []\<rparr>)"
    using assms by (simp_all add: implements_def implements_data_def)
  from callback_implements [OF this(1) _ this(2), of ok] tags Opening show ?thesis
    by (simp add: event_turn_def spec_event_def)
next
  case (Writing m)
  with assms have tags: "cq_tags c = [Write_Event]" by (simp add: implements_def tags_of_def)
  let ?c = "if ok then c\<lparr>cq_tags := [], messages_sent := messages_sent c + 1\<rparr>
      else c\<lparr>cq_tags := [], messages_dropped := messages_dropped c + 1\<rparr>"
    and ?a = "if ok then a\<lparr>delivered := delivered a @ [m]\<rparr> else a\<lparr>lost := lost a @ [m]\<rparr>"
  have "implements_data ?c ?a" "\<not> event_loop_idle ?c"
    using assms by (auto simp: implements_def implements_data_def)
  from callback_implements [OF this(1) _ this(2), of ok] tags Writing show ?thesis
    by (cases ok) (simp_all add: event_turn_def spec_event_def write_event_callback_def)
qed (use assms in simp)

section \<open>Runs of the client\<close>

text \<open>
  The history of a client until it is reset: calls of \<open>sendMessage\<close>, and completions, at a time
  when the queue has a tag to return.
\<close>

datatype 'm client_step = Send 'm | Completed bool

fun client_steps :: "'m client_step list \<Rightarrow> 'm client_op" where
  "client_steps [] c = Inr c"
| "client_steps (Send m # ss) c = and_then (sendMessage m c) (client_steps ss)"
| "client_steps (Completed ok # ss) c =
     (if cq_tags c = [] then client_steps ss c else and_then (event_turn 0 ok c) (client_steps ss))"

fun spec_steps :: "'m client_step list \<Rightarrow> 'm reporter \<Rightarrow> 'm reporter" where
  "spec_steps [] a = a"
| "spec_steps (Send m # ss) a = spec_steps ss (spec_send m a)"
| "spec_steps (Completed ok # ss) a = spec_steps ss (if phase a = Idle then a else spec_event ok a)"

fun sends :: "'m client_step list \<Rightarrow> 'm list" where
  "sends [] = []"
| "sends (Send m # ss) = m # sends ss"
| "sends (Completed _ # ss) = sends ss"

lemma tags_of_empty [simp]: "tags_of p = [] \<longleftrightarrow> p = Idle"
  by (cases p) (simp_all add: tags_of_def)

lemma client_steps_implement:
  "implements c a \<Longrightarrow> \<exists>c'. client_steps ss c = Inr c' \<and> implements c' (spec_steps ss a)"
proof (induction ss arbitrary: c a rule: sends.induct)
  case (2 m ss)
  from sendMessage_implements [OF "2.prems", of m] "2.IH" show ?case by auto
next
  case (3 ok ss)
  show ?case
  proof (cases "phase a = Idle")
    case True
    with 3 show ?thesis by (simp add: implements_def)
  next
    case False
    with event_turn_implements [OF "3.prems" False, of ok] "3.IH" "3.prems" show ?thesis
      by (auto simp: implements_def)
  qed
qed auto

lemma client_steps_append:
  "client_steps (xs @ ys) c = and_then (client_steps xs c) (client_steps ys)"
proof (induction xs arbitrary: c rule: sends.induct)
  case (2 m ss)
  then show ?case by (cases "sendMessage m c") simp_all
next
  case (3 ok ss)
  then show ?case by (cases "event_turn 0 ok c") simp_all
qed simp

lemma spec_steps_append: "spec_steps (xs @ ys) a = spec_steps ys (spec_steps xs a)"
  by (induction xs arbitrary: a rule: sends.induct) simp_all

lemma implements_new: "implements (createClient tok) new_reporter"
  by (simp add: createClient_def TraceAsyncClientImpl_def startStream_def createStream_def
      TraceAsyncStreamImpl_def Let_def implements_def implements_data_def new_reporter_def
      tags_of_def call_metadata_def vb.contents_create)

lemma reporter_inv_steps: "reporter_inv a \<Longrightarrow> reporter_inv (spec_steps ss a)"
  by (induction ss arbitrary: a rule: sends.induct)
    (simp_all add: reporter_inv_send reporter_inv_event)

lemma submitted_start_next [simp]: "submitted (start_next a) = submitted a"
  by (simp add: start_next_def split: list.split)

lemma submitted_steps: "submitted (spec_steps ss a) = submitted a @ sends ss"
  by (induction ss arbitrary: a rule: sends.induct)
    (simp_all add: spec_send_def spec_event_def Let_def split: phase.split)

text \<open>The state after a history, with its specification: what the properties start from.\<close>

lemma after_steps:
  obtains c a where "client_steps ss (createClient tok) = Inr c" and "implements c a"
    and "a = spec_steps ss new_reporter" and "reporter_inv a" and "submitted a = sends ss"
proof -
  from client_steps_implement [OF implements_new, of ss tok] obtain c where
    "client_steps ss (createClient tok) = Inr c" "implements c (spec_steps ss new_reporter)" by blast
  with that [OF this refl] show thesis
    by (simp add: reporter_inv_steps reporter_inv_new submitted_steps)
      (simp add: new_reporter_def)
qed

text \<open>C7. The client refines its specification: no history of calls and completions makes it
  fault, and its buffer, its flag, its outstanding operation, its counters and the messages it
  has handed to the stream are those of the specification after the same history.\<close>

theorem client_refines_reporter:
  "\<exists>c. client_steps ss (createClient tok) = Inr c \<and> implements c (spec_steps ss new_reporter)"
  by (rule client_steps_implement [OF implements_new])

text \<open>All operations on a stream are done one by one: there is never more than one operation
  whose completion is outstanding, the idle flag is set exactly when there is none, and then
  nothing is waiting in the buffer.\<close>

lemma one_operation_at_a_time:
  assumes "client_steps ss (createClient tok) = Inr c"
  shows "length (cq_tags c) \<le> 1 \<and> (event_loop_idle c \<longleftrightarrow> cq_tags c = [])
    \<and> (event_loop_idle c \<longrightarrow> buf (message_buffer c) = []) \<and> active_stream c \<noteq> None"
proof -
  obtain a where "implements c a" "reporter_inv a"
    using after_steps [of ss tok] assms by (metis sum.inject(2))
  then show ?thesis
    by (auto simp: implements_def implements_data_def reporter_inv_def tags_of_def
        split: phase.splits)
qed

text \<open>A history for the witnesses: two messages, the first completion, the first write.\<close>

definition example_history :: "nat client_step list" where
  "example_history = [Send 1, Send 2, Completed True, Completed True]"

lemma example_history_runs:
  "\<exists>c. client_steps example_history (createClient ''key'') = Inr c \<and> cq_tags c = [Write_Event]
    \<and> wire c = [Start_Call TraceCollectMethod [(''authentication'', ''key'')], Write 1, Write 2]
    \<and> messages_sent c = 1 \<and> messages_total c = 2"
  by (simp add: example_history_def createClient_def TraceAsyncClientImpl_def startStream_def
      createStream_def TraceAsyncStreamImpl_def AuthenticationKey_def sendMessage_def
      sendMessageOnce_def MaxPendingMessagesSize_def event_turn_def write_event_callback_def
      basic_event_callback_def markEventLoopIdle_def stream_sendMessage_def value_buffer_defs Let_def)

lemma one_operation_at_a_time_witness:
  "\<exists>c. client_steps example_history (createClient ''key'') = Inr c \<and> cq_tags c = [Write_Event]
    \<and> \<not> event_loop_idle c \<and> active_stream c \<noteq> None"
  using example_history_runs one_operation_at_a_time [of example_history "''key''"] by fastforce

text \<open>Every message is accounted for, modulo the width of the counters: the total is the
  number sent, dropped, waiting in the buffer and being written.\<close>

lemma messages_accounted_for:
  "\<exists>c. client_steps ss (createClient tok) = Inr c
    \<and> messages_total c = messages_sent c + messages_dropped c
        + word_of_nat (length (buf (message_buffer c)))
        + word_of_nat (length (filter (\<lambda>t. t = Write_Event) (cq_tags c)))
    \<and> messages_total c = word_of_nat (length (sends ss))"
proof -
  obtain c a where c: "client_steps ss (createClient tok) = Inr c" "implements c a"
    "reporter_inv a" "submitted a = sends ss"
    by (rule after_steps [of ss tok])
  from c(3) have "size (mset (submitted a)) = size (mset (delivered a) + mset (lost a)
      + mset (in_flight a) + mset (queue a))"
    by (simp add: reporter_inv_def)
  then have "length (submitted a) = length (delivered a) + length (lost a) + length (in_flight a)
      + length (queue a)"
    by simp
  moreover have "length (in_flight a) = length (filter (\<lambda>t. t = Write_Event) (cq_tags c))"
    using c(2) by (auto simp: implements_def tags_of_def in_flight_def split: phase.split)
  ultimately show ?thesis
    using c by (auto simp: implements_def implements_data_def add.commute add.left_commute)
qed

text \<open>Messages reach the stream in the order in which they were submitted, none twice and
  none invented: what has been written, followed by what waits in the buffer, is a subsequence
  of what was submitted.\<close>

lemma messages_written_in_order:
  "\<exists>c. client_steps ss (createClient tok) = Inr c
    \<and> subseq (writes (wire c) @ buf (message_buffer c)) (sends ss)"
proof -
  obtain c a where "client_steps ss (createClient tok) = Inr c" "implements c a"
    "reporter_inv a" "submitted a = sends ss"
    by (rule after_steps [of ss tok])
  then show ?thesis
    by (auto simp: implements_def implements_data_def reporter_inv_def)
qed

text \<open>No step changes the token, ends the loop, resets the client or takes an operation back.\<close>

definition extends :: "'m async_client \<Rightarrow> 'm async_client \<Rightarrow> bool" where
  "extends c c' \<longleftrightarrow> token c' = token c \<and> loop_exited c' = loop_exited c
     \<and> client_reset c' = client_reset c \<and> (\<exists>ops. wire c' = wire c @ ops)"

lemma extends_trans: "extends c c' \<Longrightarrow> extends c' c'' \<Longrightarrow> extends c c''"
  by (auto simp: extends_def)

lemma sendMessageOnce_extends: "sendMessageOnce c = Inr c' \<Longrightarrow> extends c c'"
  by (auto simp: sendMessageOnce_def markEventLoopIdle_def stream_sendMessage_def extends_def Let_def
      outcome_eqs split: if_splits prod.splits option.splits)

lemma callback_extends: "basic_event_callback ok c = Inr c' \<Longrightarrow> extends c c'"
  by (auto simp: basic_event_callback_def startStream_def createStream_def TraceAsyncStreamImpl_def
      resetStream_def markEventLoopIdle_def extends_def Let_def outcome_eqs
      dest!: sendMessageOnce_extends split: if_splits)

lemma send_extends: "sendMessage m c = Inr c' \<Longrightarrow> extends c c'"
  by (auto simp: sendMessage_def Let_def extends_def dest!: sendMessageOnce_extends split: if_splits)

lemma write_callback_extends: "write_event_callback ok c = Inr c' \<Longrightarrow> extends c c'"
  by (auto simp: write_event_callback_def extends_def dest!: callback_extends split: if_splits)

lemma event_turn_extends: "event_turn i ok c = Inr c' \<Longrightarrow> extends c c'"
  by (cases "cq_tags c ! i")
    (auto simp: event_turn_def read_at_def extends_def outcome_eqs
      dest!: callback_extends write_callback_extends)

lemma client_steps_extends: "client_steps ss c = Inr c' \<Longrightarrow> extends c c'"
proof (induction ss arbitrary: c rule: sends.induct)
  case 1
  then show ?case by (simp add: extends_def)
next
  case (2 m ss)
  then obtain c1 where c1: "sendMessage m c = Inr c1" "client_steps ss c1 = Inr c'"
    by (auto simp: outcome_eqs)
  have "extends c c1" by (rule send_extends [OF c1(1)])
  with "2.IH" [OF c1(2)] show ?case by (rule extends_trans [rotated])
next
  case (3 ok ss)
  show ?case
  proof (cases "cq_tags c = []")
    case False
    with 3 obtain c1 where c1: "event_turn 0 ok c = Inr c1" "client_steps ss c1 = Inr c'"
      by (auto simp: outcome_eqs)
    have "extends c c1" by (rule event_turn_extends [OF c1(1)])
    with "3.IH" [OF c1(2)] show ?thesis by (rule extends_trans [rotated])
  qed (use 3 in simp)
qed

lemma createClient_state:
  "token (createClient tok) = tok"
  "wire (createClient tok) = [Start_Call TraceCollectMethod (call_metadata tok)]"
  by (simp_all add: createClient_def TraceAsyncClientImpl_def startStream_def createStream_def
      TraceAsyncStreamImpl_def call_metadata_def Let_def)

text \<open>Every call is made on the collector's method with the token of the client as its
  authentication, and with no metadata when the token is empty, also after any number of failed
  streams.\<close>

lemma every_call_is_authenticated:
  "\<exists>c. client_steps ss (createClient tok) = Inr c
    \<and> {(path, md). Start_Call path md \<in> set (wire c)}
      = {(''/TraceSegmentReportService/collect'', if tok = '''' then [] else [(''authentication'', tok)])}"
proof -
  obtain c a where c: "client_steps ss (createClient tok) = Inr c" "implements c a"
    by (rule after_steps [of ss tok])
  from client_steps_extends [OF c(1)] obtain ops where
    "token c = tok" "wire c = Start_Call TraceCollectMethod (call_metadata tok) # ops"
    by (auto simp: extends_def createClient_state)
  with c(2) have "{(path, md). Start_Call path md \<in> set (wire c)}
      = {(TraceCollectMethod, call_metadata tok)}"
    by (auto simp: implements_def implements_data_def)
  with c(1) show ?thesis
    by (simp add: call_metadata_def AuthenticationKey_def TraceCollectMethod_def)
qed

section \<open>Overflow, draining and reset\<close>

lemma spec_sends_opening:
  assumes "phase a = Opening" and "length (queue a) \<le> 1025"
  shows "queue (spec_steps (map Send ms) a) = queue a @ take (1025 - length (queue a)) ms
    \<and> lost (spec_steps (map Send ms) a) = lost a @ drop (1025 - length (queue a)) ms"
  using assms
proof (induction ms arbitrary: a)
  case (Cons m ms)
  show ?case
  proof (cases "length (queue a) = 1025")
    case True
    with Cons show ?thesis by (simp add: spec_send_def)
  next
    case False
    with Cons.prems obtain k where "1025 - length (queue a) = Suc k" "length (queue a) < 1025"
      by (cases "1025 - length (queue a)") auto
    moreover from this have "1025 - Suc (length (queue a)) = k" by simp
    ultimately show ?thesis using Cons by (simp add: spec_send_def Let_def)
  qed
qed simp

text \<open>The buffer never holds more than 1025 messages, one more than the constant of the code,
  and while the first stream is being opened it fills up to exactly that number; what is
  submitted beyond is dropped and counted.\<close>

lemma buffer_bound:
  "(\<exists>c. client_steps ss (createClient tok) = Inr c
      \<and> length (buf (message_buffer c)) \<le> MaxPendingMessagesSize + 1)
   \<and> (\<exists>c. client_steps (map Send ms) (createClient tok) = Inr c
      \<and> buf (message_buffer c) = take (MaxPendingMessagesSize + 1) ms
      \<and> messages_dropped c = word_of_nat (length ms - (MaxPendingMessagesSize + 1)))"
proof (intro conjI)
  show "\<exists>c. client_steps ss (createClient tok) = Inr c
      \<and> length (buf (message_buffer c)) \<le> MaxPendingMessagesSize + 1"
    by (rule after_steps [of ss tok])
      (auto simp: implements_def implements_data_def reporter_inv_def MaxPendingMessagesSize_def)
  obtain c a where "client_steps (map Send ms) (createClient tok) = Inr c" "implements c a"
    "a = spec_steps (map Send ms) new_reporter"
    by (rule after_steps [of "map Send ms" tok])
  with spec_sends_opening [of new_reporter ms] show "\<exists>c. client_steps (map Send ms) (createClient tok) = Inr c
      \<and> buf (message_buffer c) = take (MaxPendingMessagesSize + 1) ms
      \<and> messages_dropped c = word_of_nat (length ms - (MaxPendingMessagesSize + 1))"
    by (simp add: new_reporter_def implements_def implements_data_def MaxPendingMessagesSize_def)
qed

lemma spec_drain:
  assumes "length (queue a) + length (tags_of (phase a)) \<le> n" and "phase a = Idle \<Longrightarrow> queue a = []"
  shows "let b = spec_steps (replicate n (Completed True)) a in
    phase b = Idle \<and> queue b = [] \<and> lost b = lost a
    \<and> attempted b = attempted a @ queue a \<and> delivered b = delivered a @ in_flight a @ queue a"
  using assms
proof (induction n arbitrary: a)
  case 0
  then show ?case by (simp add: in_flight_def)
next
  case (Suc n)
  show ?case
  proof (cases "phase a = Idle")
    case True
    with Suc.IH [of a] Suc.prems(2) show ?thesis by (simp add: Let_def in_flight_def tags_of_def)
  next
    case False
    define b where "b = spec_event True a"
    have "length (queue b) + length (tags_of (phase b)) \<le> n" "phase b = Idle \<Longrightarrow> queue b = []"
      using Suc.prems False
      by (auto simp: b_def spec_event_def start_next_def tags_of_def Let_def
          split: phase.splits list.splits)
    moreover have "lost b = lost a" "attempted b @ queue b = attempted a @ queue a"
      "delivered b @ in_flight b @ queue b = delivered a @ in_flight a @ queue a"
      using False by (auto simp: b_def spec_event_def start_next_def in_flight_def Let_def
          split: phase.splits list.splits)
    ultimately show ?thesis using Suc.IH [of b] False by (simp add: Let_def flip: b_def)
  qed
qed

text \<open>When each call and each completion is handled as a whole, nothing is stuck: after any history,
  1026 completions that succeed bring the client to rest with an empty buffer; all that was waiting
  has then been written, in its order, and nothing more has been dropped. Under interleaving this is
  not so (\<open>message_can_be_stranded\<close>), and \<open>event_loop_drains\<close> says what is.\<close>

lemma drains:
  "\<exists>c c'. client_steps ss (createClient tok) = Inr c
    \<and> client_steps (replicate 1026 (Completed True)) c = Inr c'
    \<and> event_loop_idle c' \<and> cq_tags c' = [] \<and> buf (message_buffer c') = []
    \<and> writes (wire c') = writes (wire c) @ buf (message_buffer c)
    \<and> messages_dropped c' = messages_dropped c
    \<and> messages_sent c' + messages_dropped c' = messages_total c'"
proof -
  obtain c a where c: "client_steps ss (createClient tok) = Inr c" "implements c a" "reporter_inv a"
    by (rule after_steps [of ss tok])
  define b where "b = spec_steps (replicate 1026 (Completed True)) a"
  have "length (tags_of (phase a)) \<le> 1" by (simp add: tags_of_def split: phase.split)
  moreover have "length (queue a) \<le> 1025" using c(3) by (simp add: reporter_inv_def)
  ultimately have "length (queue a) + length (tags_of (phase a)) \<le> 1026" by linarith
  from spec_drain [OF this] c(3) have b: "phase b = Idle" "queue b = []" "lost b = lost a"
    "attempted b = attempted a @ queue a"
    by (simp_all add: reporter_inv_def Let_def flip: b_def)
  from client_steps_implement [OF c(2), of "replicate 1026 (Completed True)"] obtain c' where
    c': "client_steps (replicate 1026 (Completed True)) c = Inr c'" "implements c' b"
    unfolding b_def by blast
  have "reporter_inv b" unfolding b_def using c(3) by (rule reporter_inv_steps)
  then have "mset (submitted b) = mset (delivered b) + mset (lost b)"
    using b by (simp add: reporter_inv_def in_flight_def)
  then have "length (submitted b) = length (delivered b) + length (lost b)"
    by (metis size_mset size_union)
  with b c c' show ?thesis
    by (auto simp: implements_def implements_data_def)
qed

lemma drained: "gogo_drain oks c = Inr c" if "cq_tags c = []"
  using that by (cases oks) simp_all

lemma reset_result:
  assumes "client_steps ss (createClient tok) = Inr c" and "oks \<noteq> []"
  shows "\<exists>c'. resetClient oks c = Inr c' \<and> client_reset c' \<and> wire c' = wire c \<and> cq_tags c' = []
    \<and> buf (message_buffer c') = [] \<and> active_stream c' = None
    \<and> messages_total c' = messages_sent c' + messages_dropped c'
        + word_of_nat (length (buf (message_buffer c)))
    \<and> (\<forall>m. if event_loop_idle c then sendMessage m c' = Inl AssertionFailed
        else \<exists>c''. sendMessage m c' = Inr c'' \<and> wire c'' = wire c)
    \<and> loop_exited c' \<and> \<not> client_reset c"
proof -
  obtain a where a: "implements c a" "reporter_inv a"
    using after_steps [of ss tok] assms(1) by (metis sum.inject(2))
  obtain ok oks' where oks: "oks = ok # oks'" using assms(2) by (cases oks) auto
  from a(2) have "size (mset (submitted a)) = size (mset (delivered a) + mset (lost a)
      + mset (in_flight a) + mset (queue a))"
    by (simp add: reporter_inv_def)
  then have total: "messages_total c = messages_sent c + messages_dropped c
      + word_of_nat (length (in_flight a)) + word_of_nat (length (buf (message_buffer c)))"
    using a(1) by (simp add: implements_def implements_data_def)
  show ?thesis
  proof (cases "phase a")
    case (Writing m)
    with a(1) oks total show ?thesis
      by (cases ok) (auto simp: resetClient_def exit_loop_def resetStream_def event_turn_def
          write_event_callback_def basic_event_callback_def drained sendMessage_def
          sendMessageOnce_def implements_def implements_data_def tags_of_def in_flight_def
          value_buffer_defs MaxPendingMessagesSize_def)
  qed (use a(1) oks total in \<open>simp add: resetClient_def exit_loop_def resetStream_def event_turn_def
          basic_event_callback_def drained sendMessage_def
          sendMessageOnce_def implements_def implements_data_def tags_of_def in_flight_def
          value_buffer_defs MaxPendingMessagesSize_def\<close>)+
qed

lemma destroyed_once:
  assumes "resetClient oks c = Inr c'" and "\<not> client_reset c" and "client_reset c'" "loop_exited c'"
  shows "destroy_client oks c = Inr c'" and "destroy_client oks' c' = Inr c'"
  using assms by (simp_all add: destroy_client_def destroy_event_loop_def exit_loop_def)

text \<open>C37. Resetting the client ends its work: the completions that are still outstanding are taken
  off the queue and nothing more is started on a stream. What was waiting in the buffer is
  discarded without being counted. Destroying the client resets it, and does nothing more after a
  reset. A message submitted afterwards is not sent either: if the
  client was idle, \<open>sendMessage\<close> runs into the assertion on the stream that is gone.\<close>

theorem reset_ends_the_client:
  assumes "client_steps ss (createClient tok) = Inr c" and "oks \<noteq> []"
  shows "\<exists>c'. resetClient oks c = Inr c' \<and> client_reset c' \<and> wire c' = wire c \<and> cq_tags c' = []
    \<and> buf (message_buffer c') = [] \<and> active_stream c' = None
    \<and> messages_total c' = messages_sent c' + messages_dropped c'
        + word_of_nat (length (buf (message_buffer c)))
    \<and> (\<forall>m. if event_loop_idle c then sendMessage m c' = Inl AssertionFailed
        else \<exists>c''. sendMessage m c' = Inr c'' \<and> wire c'' = wire c)
    \<and> destroy_client oks c = Inr c' \<and> destroy_client oks' c' = Inr c'"
proof -
  from reset_result [OF assms] obtain c' where
    c': "resetClient oks c = Inr c'" "client_reset c'" "loop_exited c'" "\<not> client_reset c"
      "wire c' = wire c" "cq_tags c' = []" "buf (message_buffer c') = []" "active_stream c' = None"
      "messages_total c' = messages_sent c' + messages_dropped c'
        + word_of_nat (length (buf (message_buffer c)))"
    and later: "\<And>m. if event_loop_idle c then sendMessage m c' = Inl AssertionFailed
        else \<exists>c''. sendMessage m c' = Inr c'' \<and> wire c'' = wire c" by blast
  from destroyed_once [OF c'(1,4,2,3)] c' later show ?thesis by (intro exI [of _ c']) simp
qed

theorem reset_ends_the_client_witness:
  "\<exists>c c'. client_steps example_history (createClient ''key'') = Inr c \<and> resetClient [False] c = Inr c'
    \<and> cq_tags c' = [] \<and> wire c' = [Start_Call TraceCollectMethod [(''authentication'', ''key'')], Write 1, Write 2]"
  using example_history_runs reset_ends_the_client [of example_history "''key''" _ "[False]"]
  by fastforce

section \<open>The client interface\<close>

text \<open>
  \<open>AsyncClient\<close> of \<^verbatim>\<open>cpp2sky/internal/async_client.h\<close>, as the tracer relies on it: a message handed
  to a client that is ready is accepted behind those before it, or dropped when there is no room,
  and the client stays ready; after a reset it accepts nothing.
\<close>

locale message_sink =
  fixes send :: "'m \<Rightarrow> 'c \<Rightarrow> 'c outcome"
    and reset_sink :: "'c \<Rightarrow> 'c outcome"
    and sink_ready :: "'c \<Rightarrow> bool"
    and has_room :: "'c \<Rightarrow> bool"
    and accepted :: "'c \<Rightarrow> 'm list"
  assumes send_accepts:
      "sink_ready c \<Longrightarrow> \<exists>c'. send m c = Inr c' \<and> sink_ready c'
        \<and> accepted c' = (if has_room c then accepted c @ [m] else accepted c)"
    and reset_returns:
      "sink_ready c \<Longrightarrow> \<exists>c' ms. reset_sink c = Inr c' \<and> accepted c = accepted c' @ ms"
begin

fun send_all :: "'m list \<Rightarrow> 'c \<Rightarrow> 'c outcome" where
  "send_all [] c = Inr c"
| "send_all (m # ms) c = and_then (send m c) (send_all ms)"

lemma send_all_accepted:
  "sink_ready c \<Longrightarrow> \<exists>c' ms'. send_all ms c = Inr c' \<and> sink_ready c' \<and> subseq ms' ms
     \<and> accepted c' = accepted c @ ms'"
proof (induction ms arbitrary: c)
  case Nil
  then show ?case by simp
next
  case (Cons m ms)
  from send_accepts [OF Cons.prems, of m] obtain c1 where c1: "send m c = Inr c1" "sink_ready c1"
    "accepted c1 = (if has_room c then accepted c @ [m] else accepted c)" by blast
  from Cons.IH [OF c1(2)] obtain c' ms' where c': "send_all ms c1 = Inr c'" "sink_ready c'"
    "subseq ms' ms" "accepted c' = accepted c1 @ ms'" by blast
  show ?case
  proof (cases "has_room c")
    case True
    with c1 c' show ?thesis by (intro exI [of _ c'] exI [of _ "m # ms'"]) simp
  next
    case False
    with c1 c' show ?thesis by (intro exI [of _ c'] exI [of _ ms']) (simp add: list_emb_Cons)
  qed
qed

lemma send_no_fault: "sink_ready c \<Longrightarrow> send m c \<noteq> Inl f"
  using send_accepts [of c m] by auto

end

definition client_ready :: "'m async_client \<Rightarrow> bool" where
  "client_ready c \<longleftrightarrow> (\<exists>a. implements c a \<and> reporter_inv a)"

definition client_has_room :: "'m async_client \<Rightarrow> bool" where
  "client_has_room c \<longleftrightarrow> buffer_size (message_buffer c) \<le> MaxPendingMessagesSize"

definition client_accepted :: "'m async_client \<Rightarrow> 'm list" where
  "client_accepted c = writes (wire c) @ buf (message_buffer c)"

lemma client_ready_new: "client_ready (createClient tok)"
  using implements_new reporter_inv_new by (auto simp: client_ready_def)

lemma client_accepted_new: "client_accepted (createClient tok :: 'm async_client) = []"
  using implements_new [of tok, where 'a = 'm]
  by (simp add: implements_def implements_data_def client_accepted_def new_reporter_def)

lemma client_has_room_new: "client_has_room (createClient tok :: 'm async_client)"
  using implements_new [of tok, where 'a = 'm]
  by (simp add: implements_def implements_data_def client_has_room_def new_reporter_def
      vb.size_contents)

lemma spec_send_accepted:
  "attempted (spec_send m a) @ queue (spec_send m a)
    = (if length (queue a) \<le> 1024 then attempted a @ queue a @ [m] else attempted a @ queue a)"
  by (auto simp: spec_send_def start_next_def Let_def split: list.splits)

lemma client_send_accepts:
  assumes "client_ready c"
  shows "\<exists>c'. sendMessage m c = Inr c' \<and> client_ready c'
    \<and> client_accepted c' = (if client_has_room c then client_accepted c @ [m] else client_accepted c)"
proof -
  from assms obtain a where a: "implements c a" "reporter_inv a" by (auto simp: client_ready_def)
  from sendMessage_implements [OF a(1), of m] obtain c' where
    c': "sendMessage m c = Inr c'" "implements c' (spec_send m a)" by blast
  have "client_accepted c' = (if client_has_room c then client_accepted c @ [m] else client_accepted c)"
    using a(1) c'(2) spec_send_accepted [of m a]
    by (simp add: implements_def implements_data_def client_accepted_def client_has_room_def
        vb.size_contents MaxPendingMessagesSize_def)
  with c' reporter_inv_send [OF a(2)] show ?thesis by (auto simp: client_ready_def)
qed

lemma client_reset_returns:
  assumes "client_ready c"
  shows "\<exists>c' ms. resetClient [ok] c = Inr c' \<and> client_accepted c = client_accepted c' @ ms"
proof -
  from assms obtain a where a: "implements c a" by (auto simp: client_ready_def)
  show ?thesis
    using a by (cases "phase a") (auto simp: resetClient_def exit_loop_def resetStream_def
        event_turn_def write_event_callback_def basic_event_callback_def implements_def
        implements_data_def tags_of_def client_accepted_def value_buffer_defs drained)
qed

interpretation grpc_client: message_sink sendMessage "resetClient [ok]" client_ready
  client_has_room client_accepted for ok
  by unfold_locales (rule client_send_accepts client_reset_returns, assumption)+

end
