(* ===== verification/Tracer.thy ===== *)
theory Tracer
  imports Segment_Table Suffix_Matcher Async_Client_Spec
begin

text \<open>
  The tracer: \<open>TracerImpl\<close> and \<open>createInsecureGrpcTracer\<close> (\<^verbatim>\<open>source/tracer_impl.{h,cc}\<close>,
  \<^verbatim>\<open>cpp2sky/tracer.h\<close>). The reporter client is the interface \<open>AsyncClient\<close>: its operations are
  arguments of the definitions that call them, \<open>'c\<close> is its state. The client the tracer creates
  itself is the one of \<^theory_text>\<open>Async_Client\<close>. \<open>ends_with\<close> is \<open>absl::EndsWith\<close>.
\<close>

record 'c tracer =
  reporter_client :: 'c
  segment_factory :: context_factory
  ignore_matcher :: suffix_matcher

section \<open>Construction\<close>

text \<open>
  \<open>init\<close> makes a client of its own, for the address and the token of the configuration, unless
  one was passed in; then the matcher.
\<close>

definition init ::
  "(string \<Rightarrow> string \<Rightarrow> 'c) \<Rightarrow> tracer_config \<Rightarrow> 'c option \<Rightarrow> ('c \<times> suffix_matcher) outcome"
where
  "init create_client config async_client =
     and_then
       (case async_client of
          None \<Rightarrow>
            if cfg_protocol config \<noteq> GRPC then Inl (TracerException ''Only GRPC is supported.'')
            else Inr (create_client (cfg_address config) (cfg_token config))
        | Some client \<Rightarrow> Inr client) (\<lambda>client.
     Inr (client, new_suffix_matcher (cfg_ignore_operation_name_suffix config)))"

text \<open>The two constructors: with credentials for a client to create, and with a client.\<close>

definition TracerImpl ::
  "(string \<Rightarrow> string \<Rightarrow> 'c) \<Rightarrow> tracer_config \<Rightarrow> 'c option \<Rightarrow> 'c tracer outcome"
where
  "TracerImpl create_client config async_client =
     and_then (init create_client config async_client) (\<lambda>(client, matcher).
     Inr \<lparr>reporter_client = client, segment_factory = TracingContextFactory config,
       ignore_matcher = matcher\<rparr>)"

definition createInsecureGrpcTracer :: "tracer_config \<Rightarrow> 'm async_client tracer outcome" where
  "createInsecureGrpcTracer cfg = TracerImpl (\<lambda>address tok. createClient tok) cfg None"

definition destroy_tracer :: "('c \<Rightarrow> 'c outcome) \<Rightarrow> 'c tracer \<Rightarrow> 'c tracer outcome" where
  "destroy_tracer reset_client t =
     and_then (reset_client (reporter_client t)) (\<lambda>client. Inr (t\<lparr>reporter_client := client\<rparr>))"

section \<open>Contexts and reports\<close>

definition newContext ::
  "'c tracer \<Rightarrow> random_generator \<Rightarrow> (tracing_context \<times> random_generator) outcome"
where
  "newContext t g = create_root (segment_factory t) g"

definition newContext_from ::
  "'c tracer \<Rightarrow> span_context option \<Rightarrow> random_generator \<Rightarrow> (tracing_context \<times> random_generator) outcome"
where
  "newContext_from t span g = create_child (segment_factory t) span g"

text \<open>A report returns whether it sent the segment, with the context and the tracer after it.\<close>

definition report ::
  "(segment_object \<Rightarrow> 'c \<Rightarrow> 'c outcome) \<Rightarrow> (string \<Rightarrow> string \<Rightarrow> bool)
   \<Rightarrow> tracing_context option \<Rightarrow> 'c tracer \<Rightarrow> (bool \<times> tracing_context option \<times> 'c tracer) outcome"
where
  "report send ends_with ctx t =
     (case ctx of
       None \<Rightarrow> Inr (False, ctx, t)
     | Some c \<Rightarrow>
         and_then (readyToSend c) (\<lambda>ready.
         if \<not> ready then Inr (False, ctx, t)
         else
           and_then
             (if spans c \<noteq> [] then
                and_then (front_of (spans c)) (\<lambda>first.
                and_then (operationName first c) (\<lambda>name.
                Inr (matches ends_with (ignore_matcher t) name)))
              else Inr False) (\<lambda>ignored.
           if ignored then Inr (False, ctx, t)
           else
             and_then (createSegmentObject c) (\<lambda>(seg, c').
             and_then (send seg (reporter_client t)) (\<lambda>client.
             Inr (True, Some c', t\<lparr>reporter_client := client\<rparr>))))))"

text \<open>A tracer is created for the protocol GRPC and refused for any other, unless its client
  is passed in; it then starts out with a client that is ready, for the token of the
  configuration, and ignores the configured suffixes.\<close>

lemma tracer_creation:
  "createInsecureGrpcTracer cfg =
    (if cfg_protocol cfg = GRPC
     then Inr \<lparr>reporter_client = createClient (cfg_token cfg),
       segment_factory = TracingContextFactory cfg,
       ignore_matcher = new_suffix_matcher (cfg_ignore_operation_name_suffix cfg)\<rparr>
     else Inl (TracerException ''Only GRPC is supported.''))
   \<and> TracerImpl create_client cfg (Some client) = Inr \<lparr>reporter_client = client,
       segment_factory = TracingContextFactory cfg,
       ignore_matcher = new_suffix_matcher (cfg_ignore_operation_name_suffix cfg)\<rparr>"
  by (simp add: createInsecureGrpcTracer_def TracerImpl_def init_def)

section \<open>What a report does\<close>

text \<open>Whether the tracer is configured to ignore a segment: the first span's operation name.\<close>

definition ignored_table :: "suffix_matcher \<Rightarrow> span_table \<Rightarrow> bool" where
  "ignored_table m tab \<longleftrightarrow>
     tab \<noteq> [] \<and> (\<exists>sfx \<in> set (target_suffixes m). suffix sfx (so_operationname (fst (hd tab))))"

lemma report_refused:
  assumes "segment_store c \<noteq> None" and "context_inv c" and "ends_with_spec ends_with"
    and "\<not> list_all snd (table_of c) \<or> ignored_table (ignore_matcher t) (table_of c)"
  shows "report send ends_with (Some c) t = Inr (False, Some c, t)"
proof (cases "list_all snd (table_of c)")
  case False
  then show ?thesis
    using readyToSend_table [OF assms(1,2)] by (simp add: report_def)
next
  case True
  from assms(1) obtain seg where seg: "segment_store c = Some seg" by blast
  from True assms(4) have ig: "ignored_table (ignore_matcher t) (table_of c)" by blast
  then have ne: "0 < length (table_of c)" by (simp add: ignored_table_def)
  then have len: "0 < length (span_objects c)" using length_table [OF seg assms(2)] by simp
  have "front_of (spans c) = Inr 0" "spans c \<noteq> []"
    using spans_table [OF assms(1,2)] ne by (simp_all add: front_of_def upt_rec [of 0])
  moreover have "operationName 0 c = Inr (so_operationname (fst (hd (table_of c))))"
    using span_of_live [OF seg assms(2) len] table_nth [OF seg assms(2) len] ne
    by (simp add: operationName_def hd_conv_nth)
  ultimately show ?thesis
    using ig True readyToSend_table [OF assms(1,2)] assms(3)
    by (simp add: report_def ignored_table_def matches_def match_loop_iff ends_with_spec_def suffix_def)
qed

text \<open>The sink of segments a tracer reports to.\<close>

locale segment_sink = message_sink send reset_sink sink_ready has_room accepted
  for send :: "segment_object \<Rightarrow> 'c \<Rightarrow> 'c outcome"
    and reset_sink :: "'c \<Rightarrow> 'c outcome"
    and sink_ready :: "'c \<Rightarrow> bool"
    and has_room :: "'c \<Rightarrow> bool"
    and accepted :: "'c \<Rightarrow> segment_object list"
begin

lemma report_accepted:
  assumes "segment_store c = Some seg" and "context_inv c" and "ends_with_spec ends_with"
    and "list_all snd (table_of c)" and "\<not> ignored_table (ignore_matcher t) (table_of c)"
    and "sink_ready (reporter_client t)"
  shows "\<exists>client. report send ends_with (Some c) t
      = Inr (True, Some (c\<lparr>spans := [], segment_store := None\<rparr>), t\<lparr>reporter_client := client\<rparr>)
    \<and> send seg (reporter_client t) = Inr client \<and> sink_ready client
    \<and> accepted client = (if has_room (reporter_client t)
        then accepted (reporter_client t) @ [seg] else accepted (reporter_client t))"
proof -
  have live: "segment_store c \<noteq> None" using assms(1) by simp
  have "(if spans c \<noteq> [] then and_then (front_of (spans c)) (\<lambda>first.
      and_then (operationName first c) (\<lambda>name. Inr (matches ends_with (ignore_matcher t) name)))
      else Inr False) = Inr False"
  proof (cases "table_of c = []")
    case True
    then show ?thesis using spans_table [OF live assms(2)] by simp
  next
    case False
    then have ne: "0 < length (table_of c)" by simp
    then have len: "0 < length (span_objects c)" using length_table [OF assms(1,2)] by simp
    have "front_of (spans c) = Inr 0"
      using spans_table [OF live assms(2)] ne by (simp add: front_of_def upt_rec [of 0])
    moreover have "operationName 0 c = Inr (so_operationname (fst (hd (table_of c))))"
      using span_of_live [OF assms(1,2) len] table_nth [OF assms(1,2) len] ne
      by (simp add: operationName_def hd_conv_nth)
    ultimately show ?thesis
      using False assms(3,5)
      by (auto simp: ignored_table_def matches_def match_loop_iff ends_with_spec_def suffix_def)
  qed
  moreover from send_accepts [OF assms(6), of seg] obtain client where
    "send seg (reporter_client t) = Inr client" "sink_ready client"
    "accepted client = (if has_room (reporter_client t)
        then accepted (reporter_client t) @ [seg] else accepted (reporter_client t))" by blast
  ultimately show ?thesis
    using readyToSend_table [OF live assms(2)] assms(1,4)
    by (simp add: report_def createSegmentObject_def segment_of_def)
qed

text \<open>A context that has been reported is not sent a second time: the attempt is a fault.\<close>

lemma report_again:
  assumes "segment_store c = None" and "spans c = []"
  shows "report send ends_with (Some c) t = Inl MovedFrom"
  using assms by (simp add: report_def readyToSend_def createSegmentObject_def segment_of_def)

end

interpretation grpc_sink: segment_sink sendMessage "resetClient [ok]" client_ready
  client_has_room client_accepted for ok
  by unfold_locales

text \<open>C15. A report sends a segment exactly when there is a context, all of its spans are finished,
  and no configured suffix ends the operation name of its first span: then the whole segment is
  handed to the reporter client, once, and the context gives it up; otherwise nothing changes
  and the report returns false. No report of a context in use faults.\<close>

theorem report_outcome:
  assumes "TracingContextImpl next_id service_name instance_name parent ext g = Inr (c0, g')"
    and "calls_ok 0 xs" and "do_calls xs c0 = Inr c"
    and "ends_with_spec ends_with" and "client_ready (reporter_client t)"
  shows "report sendMessage ends_with None t = Inr (False, None, t) \<and>
    (if list_all snd (table_of c) \<and> \<not> ignored_table (ignore_matcher t) (table_of c)
     then \<exists>seg client. segment_store c = Some seg \<and> seg_spans seg = map fst (table_of c)
       \<and> report sendMessage ends_with (Some c) t = Inr (True,
           Some (c\<lparr>spans := [], segment_store := None\<rparr>), t\<lparr>reporter_client := client\<rparr>)
       \<and> client_ready client
       \<and> client_accepted client = (if client_has_room (reporter_client t)
           then client_accepted (reporter_client t) @ [seg] else client_accepted (reporter_client t))
     else report sendMessage ends_with (Some c) t = Inr (False, Some c, t))"
proof -
  note new = new_context [OF assms(1)]
  have live: "segment_store c \<noteq> None" "context_inv c"
    using calls_inv [OF new(1,2) _ assms(3)] assms(2) new(3) by simp_all
  then obtain seg where seg: "segment_store c = Some seg" by blast
  have none: "report sendMessage ends_with None t = Inr (False, None, t)" by (simp add: report_def)
  show ?thesis
  proof (cases "list_all snd (table_of c) \<and> \<not> ignored_table (ignore_matcher t) (table_of c)")
    case True
    then have r: "list_all snd (table_of c)" "\<not> ignored_table (ignore_matcher t) (table_of c)" by auto
    from grpc_sink.report_accepted [OF seg live(2) assms(4) r assms(5)] True none seg
      seg_spans_table [OF seg live(2)]
    show ?thesis by auto
  next
    case False
    with report_refused [OF live assms(4)] none show ?thesis by auto
  qed
qed

text \<open>A tracer for the witnesses, which ignores one suffix, and a finished context.\<close>

definition example_tracer :: "segment_object async_client tracer" where
  "example_tracer = \<lparr>reporter_client = createClient '''',
     segment_factory = \<lparr>factory_service_name = ''svc'', factory_instance_name = ''inst''\<rparr>,
     ignore_matcher = new_suffix_matcher [''/ignore'']\<rparr>"

lemma example_tracer_room:
  "client_has_room (reporter_client example_tracer)"
  "client_accepted (reporter_client example_tracer) = []"
  by (simp_all add: example_tracer_def client_accepted_new client_has_room_new)

lemma example_finished:
  "\<exists>c. do_calls [Create_Entry_Span, Change_Span (Start_Span ''/hi'' 5) 0, Change_Span (End_Span 7) 0]
      example_context = Inr c
    \<and> table_of c = [((entry_object None False)\<lparr>so_operationname := ''/hi'', so_starttime := 5,
        so_endtime := 7\<rparr>, True)]"
  using example_calls [of "[Create_Entry_Span, Change_Span (Start_Span ''/hi'' 5) 0,
      Change_Span (End_Span 7) 0]"]
  by (auto simp: refused_when_finished_def finishes_def)

theorem report_outcome_witness:
  "\<exists>c seg c' t'. do_calls [Create_Entry_Span, Change_Span (Start_Span ''/hi'' 5) 0,
      Change_Span (End_Span 7) 0] example_context = Inr c
    \<and> report sendMessage ends_with_by_drop (Some c) example_tracer = Inr (True, Some c', t')
    \<and> client_accepted (reporter_client t') = [seg] \<and> map so_operationname (seg_spans seg) = [''/hi'']"
proof -
  obtain c where c: "do_calls [Create_Entry_Span, Change_Span (Start_Span ''/hi'' 5) 0,
      Change_Span (End_Span 7) 0] example_context = Inr c"
    and t: "table_of c = [((entry_object None False)\<lparr>so_operationname := ''/hi'', so_starttime := 5,
        so_endtime := 7\<rparr>, True)]"
    using example_finished by blast
  have ig: "\<not> ignored_table (ignore_matcher example_tracer) (table_of c)"
    by (auto simp: t ignored_table_def example_tracer_def new_suffix_matcher_def dest: suffix_length_le)
  have ready: "client_ready (reporter_client example_tracer)"
    by (simp add: example_tracer_def client_ready_new)
  have "\<exists>seg client. seg_spans seg = map fst (table_of c)
       \<and> report sendMessage ends_with_by_drop (Some c) example_tracer = Inr (True,
           Some (c\<lparr>spans := [], segment_store := None\<rparr>), example_tracer\<lparr>reporter_client := client\<rparr>)
       \<and> client_accepted client = [seg]"
    using report_outcome [OF example_new _ c ends_with_by_drop_spec ready] ig t
    by (auto simp: example_tracer_room)
  with c t show ?thesis by auto
qed

text \<open>No segment is sent twice: a context whose segment was sent has given it up, and
  reporting it again reaches the use of the moved-out segment, not the client.\<close>

lemma report_twice:
  assumes "report send ends_with (Some c) t = Inr (True, Some c', t')"
  shows "report send ends_with (Some c') t' = Inl MovedFrom"
proof -
  from assms have "segment_store c' = None \<and> spans c' = []"
    by (auto simp: report_def createSegmentObject_def outcome_eqs split: if_splits)
  then show ?thesis by (simp add: report_def readyToSend_def createSegmentObject_def segment_of_def)
qed

lemma report_twice_witness:
  "\<exists>c' t'. report sendMessage ends_with_by_drop (Some example_context) example_tracer
      = Inr (True, Some c', t')
    \<and> report sendMessage ends_with_by_drop (Some c') t' = Inl MovedFrom"
proof -
  obtain client where "sendMessage example_segment (reporter_client example_tracer) = Inr client"
    using client_send_accepts [of "reporter_client example_tracer" example_segment]
    by (auto simp: example_tracer_def client_ready_new)
  then obtain c' t' where "report sendMessage ends_with_by_drop (Some example_context) example_tracer
      = Inr (True, Some c', t')"
    by (simp add: report_def readyToSend_def createSegmentObject_def segment_of_def example_context_def)
  with report_twice [OF this] show ?thesis by blast
qed

end
