(* ===== verification/Trace_Continuation.thy ===== *)
theory Trace_Continuation
  imports Tracer
begin

text \<open>
  The two ends of a trace that goes from one process to another: what the header of a sending
  context says, and the context that a receiving process makes of it. \<open>simple_atoi\<close> is
  \<open>absl::SimpleAtoi\<close>.
\<close>

text \<open>Span ids are 32-bit integers made from positions: from \<open>2 ^ 31\<close> spans on they are negative.\<close>

lemma sint_id: "0 \<le> sint (word_of_nat n :: int32) \<longleftrightarrow> n mod 2 ^ 32 < 2 ^ 31"
proof -
  have "0 \<le> sint (word_of_nat n :: int32) \<longleftrightarrow> \<not> bit (word_of_nat n :: int32) 31"
    using bit_last_iff [of "word_of_nat n :: int32"] by (simp add: not_less)
  also have "\<dots> \<longleftrightarrow> \<not> bit n 31" by (simp add: bit_of_nat_iff_bit bit_of_nat_iff)
  also have "\<dots> \<longleftrightarrow> n mod 2 ^ 32 < 2 ^ 31"
  proof -
    have "bit n 31 \<longleftrightarrow> (n div 2 ^ 31) mod 2 = 1" by (simp add: bit_iff_odd odd_iff_mod_2_eq_one)
    moreover have "n mod 2 ^ 32 = 2 ^ 31 * ((n div 2 ^ 31) mod 2) + n mod 2 ^ 31"
      using mod_mult2_eq [of n "2 ^ 31" 2] by simp
    moreover have "n mod 2 ^ 31 < 2 ^ 31" by simp
    ultimately show ?thesis by auto
  qed
  finally show ?thesis .
qed

text \<open>The sender: what the receiver makes of the header of a context in use.\<close>

definition received_context :: "string \<Rightarrow> segment_object \<Rightarrow> tracing_context \<Rightarrow> span_context" where
  "received_context target_address seg c = \<lparr>sc_sample = True, sc_trace_id = seg_traceid seg,
     sc_trace_segment_id = seg_tracesegmentid seg,
     sc_span_id = word_of_nat (length (table_of c) - 1),
     sc_service = seg_service seg, sc_service_instance = seg_serviceinstance seg,
     sc_endpoint = so_operationname (fst (hd (table_of c))), sc_target_address = target_address\<rparr>"

lemma outgoing_header_read:
  assumes "segment_store c = Some seg" and "context_inv c"
    and "createSW8HeaderValue target_address c = Inr (Some h)" and "simple_atoi_spec simple_atoi"
  shows "createSpanContext simple_atoi h =
    (if (length (table_of c) - 1) mod 2 ^ 32 < 2 ^ 31
     then Inr (received_context target_address seg c)
     else Inl (if target_address = '''' then OutOfBounds
       else TracerException ''Invalid span context format. It must have 8 fields.''))"
proof -
  note spans = seg_spans_table [OF assms(1,2)]
  let ?sc = "outgoing_context target_address seg"
  from createSW8HeaderValue_live [OF assms(1,2), of target_address] assms(3)
  have ne: "seg_spans seg \<noteq> []" and h: "h = sw8_text ?sc" by (auto split: if_splits)
  have "so_spanid (last (seg_spans seg)) = word_of_nat (length (table_of c) - 1)"
    using last_span_id [OF assms(1,2) ne] by (simp add: spans)
  with ne have sc: "?sc = received_context target_address seg c"
    by (simp add: outgoing_context_def received_context_def spans hd_map)
  show ?thesis
    unfolding createSpanContext_def h read_sw8_text [OF assms(4)] sc
    by (simp add: received_context_def sint_id)
qed

lemma outgoing_header_live:
  assumes "segment_store c = Some seg" and "context_inv c"
    and "createSW8HeaderValue target_address c = Inr (Some h)"
    and "length (table_of c) \<le> 2 ^ 31" and "simple_atoi_spec simple_atoi"
  shows "createSpanContext simple_atoi h = Inr (received_context target_address seg c)"
proof -
  have "(length (table_of c) - 1) mod 2 ^ 32 < 2 ^ 31" using assms(4) by simp
  with outgoing_header_read [OF assms(1-3,5)] show ?thesis by simp
qed

text \<open>C18. The receiver can read the header of a segment exactly as long as the id of its last exit
  span is not negative, which is up to \<open>2 ^ 31\<close> spans: then it finds the trace, the segment, the
  span, the names and the address. Beyond, the sign adds a field and the header is refused, or
  overruns the array of fields when the address is empty.\<close>

theorem header_readable_until_ids_wrap:
  assumes "TracingContextImpl next_id service_name instance_name parent ext g = Inr (c0, g')"
    and "calls_ok 0 xs" and "do_calls xs c0 = Inr c" and "segment_store c = Some seg"
    and "createSW8HeaderValue target_address c = Inr (Some h)" and "simple_atoi_spec simple_atoi"
  shows "createSpanContext simple_atoi h =
    (if (length (table_of c) - 1) mod 2 ^ 32 < 2 ^ 31
     then Inr (received_context target_address seg c)
     else Inl (if target_address = '''' then OutOfBounds
       else TracerException ''Invalid span context format. It must have 8 fields.''))"
proof -
  note new = new_context [OF assms(1)]
  have "context_inv c" using calls_inv [OF new(1,2) _ assms(3)] assms(2) new(3) by simp
  from outgoing_header_read [OF assms(4) this assms(5,6)] show ?thesis .
qed

theorem header_readable_until_ids_wrap_witness:
  "\<exists>c seg h. do_calls [Create_Entry_Span, Create_Exit_Span (Some 0)] example_context = Inr c
    \<and> segment_store c = Some seg
    \<and> createSW8HeaderValue ''peer:80'' c = Inr (Some h)
    \<and> createSpanContext decimal_atoi h = Inr (received_context ''peer:80'' seg c)
    \<and> sc_span_id (received_context ''peer:80'' seg c) = 1"
proof -
  let ?xs = "[Create_Entry_Span, Create_Exit_Span (Some 0)]"
  obtain c where c: "do_calls ?xs example_context = Inr c"
    and t: "table_of c = [(entry_object None False, False), (exit_object 1 0 False, False)]"
    and live: "segment_store c \<noteq> None" "context_inv c"
    using example_calls [of ?xs] by auto
  from live(1) obtain seg where seg: "segment_store c = Some seg" by blast
  have "so_spantype (last (seg_spans seg)) = Some Exit" "seg_spans seg \<noteq> []"
    using seg_spans_table [OF seg live(2)] by (simp_all add: t exit_object_def)
  with createSW8HeaderValue_live [OF seg live(2), of "''peer:80''"] obtain h where
    h: "createSW8HeaderValue ''peer:80'' c = Inr (Some h)" by auto
  have "calls_ok 0 ?xs" by simp
  from header_readable_until_ids_wrap [OF example_new this c seg h decimal_atoi_spec] c seg h
  show ?thesis by (intro exI [of _ c] exI [of _ seg] exI [of _ h]) (simp add: t received_context_def)
qed

lemma outgoing_header:
  assumes "TracingContextImpl next_id service_name instance_name parent ext g = Inr (c0, g')"
    and "calls_ok 0 xs" and "do_calls xs c0 = Inr c"
    and "createSW8HeaderValue target_address c = Inr (Some h)"
    and "length (table_of c) \<le> 2 ^ 31" and "simple_atoi_spec simple_atoi"
  shows "\<exists>seg. segment_store c = Some seg
    \<and> createSpanContext simple_atoi h = Inr \<lparr>sc_sample = True, sc_trace_id = seg_traceid seg,
        sc_trace_segment_id = seg_tracesegmentid seg,
        sc_span_id = word_of_nat (length (table_of c) - 1),
        sc_service = service_name, sc_service_instance = instance_name,
        sc_endpoint = so_operationname (fst (hd (table_of c))), sc_target_address = target_address\<rparr>"
proof -
  note new = new_context [OF assms(1)]
  have live: "segment_store c \<noteq> None" "context_inv c"
    using calls_inv [OF new(1,2) _ assms(3)] assms(2) new(3) by simp_all
  then obtain seg where seg: "segment_store c = Some seg" by blast
  from new(1) obtain seg0 where seg0: "segment_store c0 = Some seg0" by blast
  with assms(1) have "seg_service seg0 = service_name" "seg_serviceinstance seg0 = instance_name"
    by (auto simp: TracingContextImpl_def outcome_eqs)
  with do_calls_names [OF assms(3) seg0] seg
  have "seg_service seg = service_name" "seg_serviceinstance seg = instance_name" by auto
  with seg outgoing_header_live [OF seg live(2) assms(4-6)] show ?thesis
    by (simp add: received_context_def)
qed

text \<open>The receiver: a context made from a span context continues its trace.\<close>

lemma incoming_context:
  assumes "generator_ready g"
  shows "\<exists>c g' seg. newContext_from t (Some sc) g = Inr (c, g') \<and> generator_ready g'
    \<and> TracingContextImpl uuid (factory_service_name (segment_factory t))
        (factory_instance_name (segment_factory t)) (Some sc) None g = Inr (c, g')
    \<and> segment_store c = Some seg \<and> seg_traceid seg = sc_trace_id sc"
  using random.new_context_ids [OF assms, of "factory_service_name (segment_factory t)"
      "factory_instance_name (segment_factory t)" "Some sc" None]
  by (auto simp: newContext_from_def create_child_def)

end
