(* ===== verification/Span_Guards.thy ===== *)
theory Span_Guards
  imports Segment_Table
begin

text \<open>
  The scope guards \<open>StartEntrySpan\<close> and \<open>StartExitSpan\<close> of \<^verbatim>\<open>cpp2sky/tracing_context.h\<close>: the
  constructor creates a span and starts it, the destructor ends it. A guard is the handle of its
  span. The context and the parent span are pointers that may be null. The operation name is a
  view that the constructor reads as a NUL-terminated string. The readings of the clock are
  arguments.
\<close>

section \<open>The guards\<close>

definition StartEntrySpan ::
  "tracing_context option \<Rightarrow> string_view \<Rightarrow> int \<Rightarrow> time_point
   \<Rightarrow> (span_handle \<times> tracing_context) outcome"
where
  "StartEntrySpan tracing_context operation_name ticks now =
     (case tracing_context of
       None \<Rightarrow> Inl NullDereference
     | Some c \<Rightarrow>
         and_then (createEntrySpan c) (\<lambda>(span, c).
         case span of
           None \<Rightarrow> Inl NullDereference
         | Some h \<Rightarrow>
             and_then (c_string operation_name) (\<lambda>name.
             and_then (startSpan h name ticks now c) (\<lambda>c. Inr (h, c)))))"

definition StartExitSpan ::
  "tracing_context option \<Rightarrow> span_handle option \<Rightarrow> string_view \<Rightarrow> int \<Rightarrow> time_point
   \<Rightarrow> (span_handle \<times> tracing_context) outcome"
where
  "StartExitSpan tracing_context parent_span operation_name ticks now =
     (case tracing_context of
       None \<Rightarrow> Inl NullDereference
     | Some c \<Rightarrow>
         and_then (createExitSpan parent_span c) (\<lambda>(h, c).
         and_then (c_string operation_name) (\<lambda>name.
         and_then (startSpan h name ticks now c) (\<lambda>c. Inr (h, c)))))"

definition end_guard :: "span_handle \<Rightarrow> int \<Rightarrow> time_point \<Rightarrow> context_op" where
  "end_guard h ticks now = endSpan h ticks now"

text \<open>The entry guard is not protected against the cases in which no entry span is made: a
  null context, and a context that already has a span, make its constructor call through a
  null pointer.\<close>

lemma entry_guard_null:
  assumes "ctx = None \<or> (\<exists>c. ctx = Some c \<and> spans c \<noteq> [])"
  shows "StartEntrySpan ctx operation_name ticks now = Inl NullDereference"
  using assms by (auto simp: StartEntrySpan_def createEntrySpan_def)

lemma entry_guard_null_witness:
  "StartEntrySpan None (view_of ''op'') 1000000 \<lparr>point = 0\<rparr> = Inl NullDereference
   \<and> (\<exists>h c. StartEntrySpan (Some example_context) (view_of ''op'') 1000000 \<lparr>point = 0\<rparr> = Inr (h, c)
      \<and> StartEntrySpan (Some c) (view_of ''op'') 1000000 \<lparr>point = 0\<rparr> = Inl NullDereference)"
proof -
  note new = new_context [OF example_new]
  from new(1) obtain s where "segment_store example_context = Some s" by blast
  from createEntrySpan_live [OF this new(2,3)] obtain c seg where
    c: "createEntrySpan example_context = Inr (Some 0, c)" and seg: "segment_store c = Some seg"
      "context_inv c" "length (table_of c) = 1"
    by fastforce
  have "length (span_objects c) = 1" using length_table [OF seg(1,2)] seg(3) by simp
  then have h: "0 < length (span_objects c)" by linarith
  with seg have "spans c \<noteq> []" by (simp add: context_inv_live)
  with c update_span_live [OF seg(1,2) h] obtain c' where
    "StartEntrySpan (Some example_context) (view_of ''op'') 1000000 \<lparr>point = 0\<rparr> = Inr (0, c')"
    "spans c' \<noteq> []"
    by (simp add: StartEntrySpan_def startSpan_def startSpanImpl_def)
  with entry_guard_null [of None "view_of ''op''" 1000000 "\<lparr>point = 0\<rparr>"]
    entry_guard_null [of "Some c'" "view_of ''op''" 1000000 "\<lparr>point = 0\<rparr>"]
  show ?thesis by blast
qed

section \<open>Nested scopes\<close>

text \<open>
  The way the guards are meant to be used: a block holds a guard, and in it blocks that hold
  exit guards whose parent is the span of the block around them. A block is its operation name,
  the reading of the clock at its start, the blocks in it, and the reading at its end.
\<close>

datatype scope = Scope string time_point "scope list" time_point

fun run_scope :: "int \<Rightarrow> span_handle \<Rightarrow> scope \<Rightarrow> context_op"
  and run_scopes :: "int \<Rightarrow> span_handle \<Rightarrow> scope list \<Rightarrow> context_op"
where
  "run_scope ticks parent (Scope name start inner stop) c =
     and_then (StartExitSpan (Some c) (Some parent) (view_of name) ticks start) (\<lambda>(h, c).
     and_then (run_scopes ticks h inner c) (\<lambda>c. end_guard h ticks stop c))"
| "run_scopes ticks parent [] c = Inr c"
| "run_scopes ticks parent (s # ss) c =
     and_then (run_scope ticks parent s c) (run_scopes ticks parent ss)"

fun run_entry_scope :: "int \<Rightarrow> scope \<Rightarrow> context_op" where
  "run_entry_scope ticks (Scope name start inner stop) c =
     and_then (StartEntrySpan (Some c) (view_of name) ticks start) (\<lambda>(h, c).
     and_then (run_scopes ticks h inner c) (\<lambda>c. end_guard h ticks stop c))"

text \<open>The spans a block leaves behind, in the order of their creation, from position \<open>n\<close> on.\<close>

fun scope_size :: "scope \<Rightarrow> nat" and scopes_size :: "scope list \<Rightarrow> nat" where
  "scope_size (Scope _ _ inner _) = Suc (scopes_size inner)"
| "scopes_size [] = 0"
| "scopes_size (s # ss) = scope_size s + scopes_size ss"

fun scope_rows :: "int \<Rightarrow> bool \<Rightarrow> nat \<Rightarrow> nat \<Rightarrow> scope \<Rightarrow> span_table"
  and scopes_rows :: "int \<Rightarrow> bool \<Rightarrow> nat \<Rightarrow> nat \<Rightarrow> scope list \<Rightarrow> span_table"
where
  "scope_rows ticks skip parent n (Scope name start inner stop) =
     ((exit_object n parent skip)\<lparr>so_operationname := name, so_starttime := fetch ticks start,
        so_endtime := fetch ticks stop\<rparr>, True) # scopes_rows ticks skip n (Suc n) inner"
| "scopes_rows ticks skip parent n [] = []"
| "scopes_rows ticks skip parent n (s # ss) =
     scope_rows ticks skip parent n s @ scopes_rows ticks skip parent (n + scope_size s) ss"

fun names_ok :: "scope \<Rightarrow> bool" and all_names_ok :: "scope list \<Rightarrow> bool" where
  "names_ok (Scope name _ inner _) \<longleftrightarrow> CHR 0x00 \<notin> set name \<and> all_names_ok inner"
| "all_names_ok [] \<longleftrightarrow> True"
| "all_names_ok (s # ss) \<longleftrightarrow> names_ok s \<and> all_names_ok ss"

definition live :: "tracing_context \<Rightarrow> bool" where
  "live c \<longleftrightarrow> segment_store c \<noteq> None \<and> context_inv c"

lemma change_live:
  assumes "live c" and "table_of c = tab @ (so, False) # rest" and "h = length tab"
  shows "\<exists>c'. change_span ch h c = Inr c' \<and> live c'
    \<and> should_skip_analysis c' = should_skip_analysis c
    \<and> table_of c' = tab @ (changed ch so, finishes ch) # rest"
proof -
  from assms(1) obtain seg where seg: "segment_store c = Some seg" and inv: "context_inv c"
    by (auto simp: live_def)
  have h: "h < length (span_objects c)" using length_table [OF seg inv] assms(2,3) by simp
  have "finished (span_objects c ! h) = False"
    using table_nth [OF seg inv h] assms(2,3) by simp
  then obtain c' where c': "change_span ch h c = Inr c'"
    by (simp add: change_span_live [OF seg inv h])
  with table_of_change [OF seg inv h c'] frame_parts [OF frame_change [OF c']] seg assms(2,3)
  show ?thesis by (auto simp: live_def)
qed

lemma StartExitSpan_live:
  assumes "live c" and "p < length (table_of c)" and "CHR 0x00 \<notin> set name"
  shows "\<exists>c'. StartExitSpan (Some c) (Some p) (view_of name) ticks now = Inr (length (table_of c), c')
    \<and> live c' \<and> should_skip_analysis c' = should_skip_analysis c
    \<and> table_of c' = table_of c @ [((exit_object (length (table_of c)) p (should_skip_analysis c))
        \<lparr>so_operationname := name, so_starttime := fetch ticks now\<rparr>, False)]"
proof -
  from assms(1) obtain seg where seg: "segment_store c = Some seg" and inv: "context_inv c"
    by (auto simp: live_def)
  have "p < length (span_objects c)" using length_table [OF seg inv] assms(2) by simp
  from createExitSpan_live [OF seg inv this] obtain c1 where
    c1: "createExitSpan (Some p) c = Inr (length (table_of c), c1)" "live c1"
    and t1: "table_of c1
      = table_of c @ [(exit_object (length (table_of c)) p (should_skip_analysis c), False)]"
    by (auto simp: live_def)
  have s1: "should_skip_analysis c1 = should_skip_analysis c"
    using frame_parts(2) [OF frame_call [of "Create_Exit_Span (Some p)" c c1]] c1(1) by simp
  from change_live [OF c1(2) t1, of "length (table_of c)" "Start_Span name (fetch ticks now)"]
  obtain c' where "startSpanImpl (length (table_of c)) name (fetch ticks now) c1 = Inr c'"
    "live c'" "should_skip_analysis c' = should_skip_analysis c1"
    "table_of c' = table_of c @ [((exit_object (length (table_of c)) p (should_skip_analysis c))
        \<lparr>so_operationname := name, so_starttime := fetch ticks now\<rparr>, False)]"
    by (auto simp: finishes_def)
  with c1(1) s1 assms(3) show ?thesis by (simp add: StartExitSpan_def startSpan_def)
qed

lemma StartEntrySpan_live:
  assumes "live c" and "table_of c = []" and "CHR 0x00 \<notin> set name"
  shows "\<exists>c'. StartEntrySpan (Some c) (view_of name) ticks now = Inr (0, c')
    \<and> live c' \<and> should_skip_analysis c' = should_skip_analysis c
    \<and> table_of c' = [((entry_object (parent_span_context c) (should_skip_analysis c))
        \<lparr>so_operationname := name, so_starttime := fetch ticks now\<rparr>, False)]"
proof -
  from assms(1) obtain seg where seg: "segment_store c = Some seg" and inv: "context_inv c"
    by (auto simp: live_def)
  from createEntrySpan_live [OF seg inv assms(2)] obtain c1 where
    c1: "createEntrySpan c = Inr (Some 0, c1)" "live c1"
    and t1: "table_of c1
      = [] @ [(entry_object (parent_span_context c) (should_skip_analysis c), False)]"
    by (auto simp: live_def)
  have s1: "should_skip_analysis c1 = should_skip_analysis c"
    using frame_parts(2) [OF frame_call [of Create_Entry_Span c c1]] c1(1) by simp
  from change_live [OF c1(2) t1, of 0 "Start_Span name (fetch ticks now)"]
  obtain c' where "startSpanImpl 0 name (fetch ticks now) c1 = Inr c'"
    "live c'" "should_skip_analysis c' = should_skip_analysis c1"
    "table_of c' = [((entry_object (parent_span_context c) (should_skip_analysis c))
        \<lparr>so_operationname := name, so_starttime := fetch ticks now\<rparr>, False)]"
    by (auto simp: finishes_def)
  with c1(1) s1 assms(3) show ?thesis by (simp add: StartEntrySpan_def startSpan_def)
qed

lemma end_guard_live:
  assumes "live c" and "table_of c = tab @ (so, False) # rest" and "h = length tab"
  shows "\<exists>c'. end_guard h ticks now c = Inr c' \<and> live c'
    \<and> should_skip_analysis c' = should_skip_analysis c
    \<and> table_of c' = tab @ (so\<lparr>so_endtime := fetch ticks now\<rparr>, True) # rest"
  using change_live [OF assms, of "End_Span (fetch ticks now)"]
  by (simp add: end_guard_def endSpan_def finishes_def)

lemma scope_rows_length [simp]:
  "length (scope_rows ticks skip p n s) = scope_size s"
  "length (scopes_rows ticks skip p n ss) = scopes_size ss"
  by (induction ticks skip p n s and ticks skip p n ss rule: scope_rows_scopes_rows.induct) simp_all

lemma run_scope_live:
  shows "live c \<Longrightarrow> p < length (table_of c) \<Longrightarrow> names_ok s \<Longrightarrow>
    \<exists>c'. run_scope ticks p s c = Inr c' \<and> live c'
      \<and> should_skip_analysis c' = should_skip_analysis c
      \<and> table_of c' = table_of c @ scope_rows ticks (should_skip_analysis c) p (length (table_of c)) s"
    and "live c \<Longrightarrow> p < length (table_of c) \<Longrightarrow> all_names_ok ss \<Longrightarrow>
    \<exists>c'. run_scopes ticks p ss c = Inr c' \<and> live c'
      \<and> should_skip_analysis c' = should_skip_analysis c
      \<and> table_of c' = table_of c @ scopes_rows ticks (should_skip_analysis c) p (length (table_of c)) ss"
proof (induction ticks p s c and ticks p ss c rule: run_scope_run_scopes.induct)
  case (1 ticks p name start inner stop c)
  from StartExitSpan_live [OF "1.prems"(1,2), of name ticks start] "1.prems"(3) obtain c1 where
    c1: "StartExitSpan (Some c) (Some p) (view_of name) ticks start = Inr (length (table_of c), c1)"
      "live c1" "should_skip_analysis c1 = should_skip_analysis c"
    and t1: "table_of c1 = table_of c @ [((exit_object (length (table_of c)) p (should_skip_analysis c))
        \<lparr>so_operationname := name, so_starttime := fetch ticks start\<rparr>, False)]"
    by auto
  from "1.IH" [OF c1(2)] c1 t1 "1.prems"(3) obtain c2 where
    c2: "run_scopes ticks (length (table_of c)) inner c1 = Inr c2" "live c2"
      "should_skip_analysis c2 = should_skip_analysis c"
    and t2: "table_of c2 = table_of c1 @ scopes_rows ticks (should_skip_analysis c)
        (length (table_of c)) (Suc (length (table_of c))) inner"
    by auto
  from end_guard_live [OF c2(2), of "table_of c" _ _ "length (table_of c)" ticks stop] t1 t2 c1 c2
  show ?case by simp
next
  case (3 ticks p s ss c)
  from "3.IH"(1) "3.prems" obtain c1 where c1: "run_scope ticks p s c = Inr c1" "live c1"
    "should_skip_analysis c1 = should_skip_analysis c"
    "table_of c1 = table_of c @ scope_rows ticks (should_skip_analysis c) p (length (table_of c)) s"
    by auto
  with "3.IH"(2) [OF c1(2)] "3.prems" show ?case by auto
qed simp

lemma scope_rows_finished:
  "list_all snd (scope_rows ticks skip p n s)"
  "list_all snd (scopes_rows ticks skip p n ss)"
  by (induction ticks skip p n s and ticks skip p n ss rule: scope_rows_scopes_rows.induct) simp_all

lemma run_entry_scope_live:
  assumes "live c" and "table_of c = []" and "names_ok (Scope name start inner stop)"
  shows "\<exists>c'. run_entry_scope ticks (Scope name start inner stop) c = Inr c' \<and> live c'
    \<and> table_of c' = ((entry_object (parent_span_context c) (should_skip_analysis c))
        \<lparr>so_operationname := name, so_starttime := fetch ticks start, so_endtime := fetch ticks stop\<rparr>,
        True) # scopes_rows ticks (should_skip_analysis c) 0 1 inner"
proof -
  from StartEntrySpan_live [OF assms(1,2), of name ticks start] assms(3) obtain c1 where
    c1: "StartEntrySpan (Some c) (view_of name) ticks start = Inr (0, c1)"
      "live c1" "should_skip_analysis c1 = should_skip_analysis c"
    and t1: "table_of c1 = [((entry_object (parent_span_context c) (should_skip_analysis c))
        \<lparr>so_operationname := name, so_starttime := fetch ticks start\<rparr>, False)]"
    by auto
  from run_scope_live(2) [OF c1(2), of 0 inner ticks] c1 t1 assms(3) obtain c2 where
    c2: "run_scopes ticks 0 inner c1 = Inr c2" "live c2"
    and t2: "table_of c2 = table_of c1 @ scopes_rows ticks (should_skip_analysis c) 0 1 inner"
    by auto
  from end_guard_live [OF c2(2), of "[]" _ _ 0 ticks stop] t1 t2 c1 c2 show ?thesis by auto
qed

text \<open>C31. Guards nested to any depth leave a complete segment: when the outermost block has been
  left no constructor or destructor has faulted, every span is finished and the context is ready
  to be sent; the entry span comes first, each exit span names the span of the block around it as
  its parent, and carries the name and the two times of its own block.\<close>

theorem nested_guards_complete_segment:
  assumes "TracingContextImpl next_id service_name instance_name parent ext g = Inr (c, g')"
    and "names_ok (Scope name start inner stop)"
  shows "\<exists>c'. run_entry_scope ticks (Scope name start inner stop) c = Inr c'
    \<and> readyToSend c' = Inr True
    \<and> table_of c' = ((entry_object parent False)
        \<lparr>so_operationname := name, so_starttime := fetch ticks start, so_endtime := fetch ticks stop\<rparr>,
        True) # scopes_rows ticks False 0 1 inner"
proof -
  note new = new_context [OF assms(1)]
  have "live c" using new(1,2) by (simp add: live_def)
  from run_entry_scope_live [OF this new(3) assms(2), of ticks] new obtain c' where
    c': "run_entry_scope ticks (Scope name start inner stop) c = Inr c'" "live c'"
    and t: "table_of c' = ((entry_object parent False)
        \<lparr>so_operationname := name, so_starttime := fetch ticks start, so_endtime := fetch ticks stop\<rparr>,
        True) # scopes_rows ticks False 0 1 inner" by auto
  have "readyToSend c' = Inr True"
    using readyToSend_table [of c'] c'(2) t scope_rows_finished(2) by (simp add: live_def)
  with c' t show ?thesis by blast
qed

theorem nested_guards_complete_segment_witness:
  "\<exists>c'. run_entry_scope 1000000 (Scope ''/in'' \<lparr>point = 1000000\<rparr>
      [Scope ''/out'' \<lparr>point = 2000000\<rparr> [] \<lparr>point = 3000000\<rparr>] \<lparr>point = 4000000\<rparr>) example_context = Inr c'
    \<and> readyToSend c' = Inr True
    \<and> table_of c' = [((entry_object None False)\<lparr>so_operationname := ''/in'', so_starttime := 1,
        so_endtime := 4\<rparr>, True), ((exit_object 1 0 False)\<lparr>so_operationname := ''/out'',
        so_starttime := 2, so_endtime := 3\<rparr>, True)]"
  using nested_guards_complete_segment [OF example_new, of "''/in''" "\<lparr>point = 1000000\<rparr>"
      "[Scope ''/out'' \<lparr>point = 2000000\<rparr> [] \<lparr>point = 3000000\<rparr>]" "\<lparr>point = 4000000\<rparr>" 1000000]
  by (simp add: fetch_def trunc_div_def)

end
