(* ===== verification/Trace_Log.thy ===== *)
theory Trace_Log
  imports Segment_Table
begin

text \<open>
  Log lines with the ids of the trace in them: the pattern of \<^verbatim>\<open>cpp2sky/trace_log.h\<close>, which the
  application gives its spdlog logger, and \<open>logMessage\<close> of a tracing context, whose result it
  logs, are the two halves of one JSON object. The formatter of spdlog is a parameter: what it
  documents of the flags the pattern uses is \<open>formatter_spec\<close>. The names of the two headers
  (\<^verbatim>\<open>cpp2sky/well_known_names.h\<close>) are here as well.
\<close>

section \<open>Constants\<close>

definition kPropagationHeader :: string where
  "kPropagationHeader = ''sw8''"

definition kPropagationExtensionHeader :: string where
  "kPropagationExtensionHeader = ''sw8-x''"

definition SPDLOG_LOG_FORMAT :: string where
  "SPDLOG_LOG_FORMAT = ''{\"level\": \"%^%l%$\", \"msg\": \"%v''"

definition logFormat :: "string outcome" where
  "logFormat = c_string (view_of SPDLOG_LOG_FORMAT)"

text \<open>
  A formatter takes a pattern, the name of a level and a text. \<open>%l\<close> is the level, \<open>%v\<close> the text;
  \<open>%^\<close> and \<open>%$\<close> bound the part that a terminal may colour and print nothing themselves.
\<close>

definition formatter_spec :: "(string \<Rightarrow> string \<Rightarrow> string \<Rightarrow> string) \<Rightarrow> bool" where
  "formatter_spec f \<longleftrightarrow>
     (\<forall>level txt. f [] level txt = [])
   \<and> (\<forall>c p level txt. c \<noteq> CHR ''%'' \<longrightarrow> f (c # p) level txt = c # f p level txt)
   \<and> (\<forall>p level txt. f (''%l'' @ p) level txt = level @ f p level txt)
   \<and> (\<forall>p level txt. f (''%v'' @ p) level txt = txt @ f p level txt)
   \<and> (\<forall>p level txt. f (''%^'' @ p) level txt = f p level txt)
   \<and> (\<forall>p level txt. f (''%$'' @ p) level txt = f p level txt)"

fun plain_formatter :: "string \<Rightarrow> string \<Rightarrow> string \<Rightarrow> string" where
  "plain_formatter [] level txt = []"
| "plain_formatter (c # p) level txt =
     (if c \<noteq> CHR ''%'' then c # plain_formatter p level txt
      else case p of
          [] \<Rightarrow> []
        | d # q \<Rightarrow> (if d = CHR ''l'' then level else if d = CHR ''v'' then txt else [])
            @ plain_formatter q level txt)"

lemma plain_formatter_spec: "formatter_spec plain_formatter"
  by (simp add: formatter_spec_def)

section \<open>JSON\<close>

text \<open>
  What a log line should be: objects whose members are strings or arrays of strings, printed with
  the escapes of RFC 8259.
\<close>

datatype json = JString string | JArray "string list"

definition json_hex :: "nat \<Rightarrow> char" where
  "json_hex n = ''0123456789abcdef'' ! n"

definition escape_char :: "char \<Rightarrow> string" where
  "escape_char c =
     (if c = CHR 0x22 \<or> c = CHR 0x5C then [CHR 0x5C, c]
      else if of_char c < (32 :: nat) then
        [CHR 0x5C] @ ''u00'' @ [json_hex (of_char c div 16), json_hex (of_char c mod 16)]
      else [c])"

definition json_string :: "string \<Rightarrow> string" where
  "json_string s = [CHR 0x22] @ concat (map escape_char s) @ [CHR 0x22]"

fun comma_separated :: "string \<Rightarrow> string list \<Rightarrow> string" where
  "comma_separated sep [] = []"
| "comma_separated sep [x] = x"
| "comma_separated sep (x # y # xs) = x @ sep @ comma_separated sep (y # xs)"

fun json_value :: "json \<Rightarrow> string" where
  "json_value (JString s) = json_string s"
| "json_value (JArray xs) = ''['' @ comma_separated '','' (map json_string xs) @ '']''"

definition json_object :: "(string \<times> json) list \<Rightarrow> string" where
  "json_object members =
     ''{'' @ comma_separated '', '' (map (\<lambda>(k, v). json_string k @ '': '' @ json_value v) members) @ ''}''"

definition needs_no_escape :: "string \<Rightarrow> bool" where
  "needs_no_escape s \<longleftrightarrow> list_all (\<lambda>c. c \<noteq> CHR 0x22 \<and> c \<noteq> CHR 0x5C \<and> 32 \<le> (of_char c :: nat)) s"

text \<open>Escaping makes a text longer unless there is nothing to escape.\<close>

lemma escape_char_length: "1 \<le> length (escape_char c)"
  by (simp add: escape_char_def)

lemma escape_plain: "needs_no_escape s \<Longrightarrow> concat (map escape_char s) = s"
  by (induction s) (auto simp: needs_no_escape_def escape_char_def)

lemma escape_letter: "needs_no_escape [c] \<Longrightarrow> escape_char c = [c]"
  using escape_plain [of "[c]"] by simp

lemma escape_length: "length s \<le> length (concat (map escape_char s))"
proof (induction s)
  case (Cons c s)
  with escape_char_length [of c] show ?case by simp
qed simp

lemma escape_longer: "\<not> needs_no_escape s \<Longrightarrow> length s < length (concat (map escape_char s))"
proof (induction s)
  case (Cons c s)
  show ?case
  proof (cases "needs_no_escape s")
    case True
    with Cons.prems have "1 < length (escape_char c)"
      by (auto simp: needs_no_escape_def escape_char_def)
    with escape_length [of s] show ?thesis by simp
  next
    case False
    with Cons.IH escape_char_length [of c] show ?thesis by simp
  qed
qed (simp add: needs_no_escape_def)

lemma json_string_length: "length (json_string s) = 2 + length (concat (map escape_char s))"
  by (simp add: json_string_def)


section \<open>A log line\<close>

lemma logFormat_pattern: "logFormat = Inr SPDLOG_LOG_FORMAT"
  by (simp add: logFormat_def SPDLOG_LOG_FORMAT_def)

lemma formatted_line:
  assumes "formatter_spec f"
  shows "f SPDLOG_LOG_FORMAT level txt = ''{\"level\": \"'' @ level @ ''\", \"msg\": \"'' @ txt"
  using assms by (simp add: SPDLOG_LOG_FORMAT_def formatter_spec_def)

lemma digits_need_no_escape: "list_all is_digit s \<Longrightarrow> needs_no_escape s"
  by (induction s) (auto simp: needs_no_escape_def is_digit_def digits_def)

lemma ids_need_no_escape: "needs_no_escape (std_to_string w)" "needs_no_escape ''-1''"
proof -
  have "needs_no_escape (nat_digits n)" for n
    by (rule digits_need_no_escape) (rule nat_digits_digits)
  then show "needs_no_escape (std_to_string w)"
    by (auto simp: std_to_string_def int_digits_def needs_no_escape_def)
  show "needs_no_escape ''-1''" by (simp add: needs_no_escape_def)
qed

text \<open>A sequence of texts, each quoted, is what the printer of JSON makes of it, exactly when no
  text needs an escape.\<close>

lemma quoted_texts:
  assumes "length ys = length xs"
  shows "concat (map (\<lambda>(x, g). x @ g) (zip xs ys))
      = concat (map (\<lambda>(x, g). concat (map escape_char x) @ g) (zip xs ys))
    \<longleftrightarrow> list_all needs_no_escape xs"
proof
  assume eq: "concat (map (\<lambda>(x, g). x @ g) (zip xs ys))
      = concat (map (\<lambda>(x, g). concat (map escape_char x) @ g) (zip xs ys))"
  have le: "length (concat (map (\<lambda>(x, g). x @ g) (zip xs ys)))
      \<le> length (concat (map (\<lambda>(x, g). concat (map escape_char x) @ g) (zip xs ys)))
    \<and> (\<not> list_all needs_no_escape xs \<longrightarrow> length (concat (map (\<lambda>(x, g). x @ g) (zip xs ys)))
      < length (concat (map (\<lambda>(x, g). concat (map escape_char x) @ g) (zip xs ys))))"
    using assms
  proof (induction ys xs rule: list_induct2)
    case (Cons y ys x xs)
    with escape_length [of x] escape_longer [of x] show ?case by fastforce
  qed simp
  with eq show "list_all needs_no_escape xs" by (metis less_irrefl)
next
  assume "list_all needs_no_escape xs"
  with assms show "concat (map (\<lambda>(x, g). x @ g) (zip xs ys))
      = concat (map (\<lambda>(x, g). concat (map escape_char x) @ g) (zip xs ys))"
    by (induction ys xs rule: list_induct2) (simp_all add: escape_plain)
qed

text \<open>C34. A line logged with the pattern of \<open>logFormat\<close> and the text of \<open>logMessage\<close> is one JSON
  object with the level, the message and the service, the instance, the trace, the segment and
  the last span of the context, exactly when the message and the four names contain nothing that
  JSON wants escaped: the code escapes nothing. The message is everything up to the first NUL
  behind the pointer of the view, whatever the view's length.\<close>

theorem log_line_is_json:
  assumes "TracingContextImpl next_id service_name instance_name parent ext g = Inr (c, g')"
    and "calls_ok 0 xs" and "do_calls xs c = Inr c'" and "segment_store c' = Some seg"
    and "CHR 0x00 \<notin> set msg"
    and "formatter_spec f" and "needs_no_escape level"
  shows "\<exists>pattern txt. logFormat = Inr pattern
    \<and> logMessage \<lparr>sv_memory = msg @ CHR 0x00 # rest, sv_length = n\<rparr> c' = Inr txt
    \<and> (f pattern level txt = json_object [(''level'', JString level), (''msg'', JString msg),
          (''SW_CTX'', JArray [service_name, instance_name, seg_traceid seg, seg_tracesegmentid seg,
            if seg_spans seg = [] then ''-1''
            else std_to_string (word_of_nat (length (seg_spans seg) - 1))])]
       \<longleftrightarrow> needs_no_escape msg \<and> needs_no_escape service_name \<and> needs_no_escape instance_name
          \<and> needs_no_escape (seg_traceid seg) \<and> needs_no_escape (seg_tracesegmentid seg))"
proof -
  let ?id = "if seg_spans seg = [] then ''-1''
    else std_to_string (word_of_nat (length (seg_spans seg) - 1))"
  let ?texts = "[msg, service_name, instance_name, seg_traceid seg, seg_tracesegmentid seg]"
  let ?gaps = "[''\", \"SW_CTX\": [\"'', ''\",\"'', ''\",\"'', ''\",\"'', ''\",\"'' @ ?id @ ''\"]}'']"
  have id: "concat (map escape_char ?id) = ?id"
    using ids_need_no_escape by (simp add: escape_plain)
  let ?raw = "concat (map (\<lambda>(x, g). x @ g) (zip ?texts ?gaps))"
  let ?escaped = "concat (map (\<lambda>(x, g). concat (map escape_char x) @ g) (zip ?texts ?gaps))"
  let ?object = "json_object [(''level'', JString level), (''msg'', JString msg), (''SW_CTX'',
    JArray [service_name, instance_name, seg_traceid seg, seg_tracesegmentid seg, ?id])]"
  have line: "f SPDLOG_LOG_FORMAT level ?raw = ''{\"level\": \"'' @ level @ ''\", \"msg\": \"'' @ ?raw"
    by (rule formatted_line [OF assms(6)])
  have object: "?object = ''{\"level\": \"'' @ level @ ''\", \"msg\": \"'' @ ?escaped"
    by (simp add: json_object_def json_string_def id escape_plain [OF assms(7)] escape_letter
        needs_no_escape_def split del: if_split)
  have printed: "logMessage \<lparr>sv_memory = msg @ CHR 0x00 # rest, sv_length = n\<rparr> c' = Inr ?raw"
    using log_message_text [OF assms(1-5), of rest n] by (simp split del: if_split)
  have "f SPDLOG_LOG_FORMAT level ?raw = ?object \<longleftrightarrow> list_all needs_no_escape ?texts"
    unfolding line object same_append_eq by (rule quoted_texts) simp
  with printed logFormat_pattern show ?thesis
    by (intro exI [of _ SPDLOG_LOG_FORMAT] exI [of _ ?raw]) (simp only: list.pred_inject simp_thms)
qed

theorem log_line_is_json_witness:
  "\<exists>txt. logMessage \<lparr>sv_memory = ''hello'' @ [CHR 0x00], sv_length = 2\<rparr> example_context = Inr txt
    \<and> plain_formatter SPDLOG_LOG_FORMAT ''info'' txt = json_object [(''level'', JString ''info''),
        (''msg'', JString ''hello''), (''SW_CTX'', JArray [''svc'', ''inst'', ''1'', ''2'', ''-1''])]"
proof -
  have "segment_store example_context = Some example_segment" by (simp add: example_context_def)
  moreover have "needs_no_escape ''info''" by (simp add: needs_no_escape_def)
  ultimately show ?thesis
    using log_line_is_json [OF example_new, of "[]" example_context example_segment "''hello''"
        plain_formatter "''info''" "[]" 2] plain_formatter_spec
    by (auto simp: logFormat_pattern example_segment_def needs_no_escape_def)
qed

end
