(* ===== verification/Sample_Programs.thy ===== *)
theory Sample_Programs
  imports Trace_Continuation Span_Guards Trace_Log
begin

text \<open>
  The two programs that show the use of the library: the client of \<^verbatim>\<open>example/sample_client.cc\<close>,
  which traces one outgoing request, and the server of \<^verbatim>\<open>example/sample.cc\<close>, whose handler for
  \<open>/ping\<close> continues the trace of the request. Of the HTTP library the programs use the headers:
  \<open>get_header_value\<close> of the request is an argument of the handler, and what the client hands to
  \<open>Get\<close> is part of its result; the response is not used. The readings of the clock are \<open>now\<close>,
  \<open>ticks\<close> the ticks of the clock in a millisecond.
\<close>

section \<open>Configurations\<close>

definition unset_config :: tracer_config where
  "unset_config = \<lparr>cfg_protocol = GRPC, cfg_service_name = '''', cfg_instance_name = '''',
     cfg_address = '''', cfg_token = '''', cfg_delayed_buffer_size = 0,
     cfg_ignore_operation_name_suffix = [], cfg_cds_request_interval = 0\<rparr>"

definition server_init :: tracer_config where
  "server_init = unset_config\<lparr>cfg_instance_name := ''node_0'', cfg_service_name := ''mesh'',
     cfg_address := ''0.0.0.0:11800'', cfg_cds_request_interval := 5\<rparr>"

definition client_init :: tracer_config where
  "client_init = unset_config\<lparr>cfg_instance_name := ''client_0'', cfg_service_name := '''',
     cfg_address := ''0.0.0.0:11800''\<rparr>"

section \<open>The server\<close>

definition server_tracer :: "segment_object async_client tracer outcome" where
  "server_tracer = createInsecureGrpcTracer server_init"

text \<open>The handler returns the tracer and the generator of the thread it runs in.\<close>

definition ping_handler ::
  "(string \<Rightarrow> int32 option) \<Rightarrow> (string \<Rightarrow> string \<Rightarrow> bool) \<Rightarrow> int \<Rightarrow> (nat \<Rightarrow> time_point)
   \<Rightarrow> (string \<Rightarrow> string) \<Rightarrow> segment_object async_client tracer \<Rightarrow> random_generator
   \<Rightarrow> (segment_object async_client tracer \<times> random_generator) outcome"
where
  "ping_handler simple_atoi ends_with ticks now get_header_value tracer g =
     (let context = get_header_value kPropagationHeader
      in and_then
        (if context \<noteq> '''' then
           and_then (createSpanContext simple_atoi context) (\<lambda>span.
           and_then (newContext_from tracer (Some span) g) (\<lambda>(c, g). Inr (Some c, g)))
         else Inr (None, g)) (\<lambda>(tracing_context, g).
      and_then (StartEntrySpan tracing_context (view_of ''sample_op3'') ticks (now 0))
        (\<lambda>(current_span, c).
      and_then (end_guard current_span ticks (now 1) c) (\<lambda>c.
      if tracing_context \<noteq> None then
        and_then (report sendMessage ends_with (Some c) tracer) (\<lambda>(_, _, tracer). Inr (tracer, g))
      else Inr (tracer, g)))))"

section \<open>The client\<close>

definition sample_target :: string where
  "sample_target = ''127.0.0.1:8081''"

text \<open>The inner block: what the program hands to \<open>Get\<close>, and the context when the guard has gone.\<close>

definition traced_get ::
  "int \<Rightarrow> (nat \<Rightarrow> time_point) \<Rightarrow> span_handle \<Rightarrow> tracing_context
   \<Rightarrow> ((string \<times> (string \<times> string) list) \<times> tracing_context) outcome"
where
  "traced_get ticks now entry_span c =
     and_then (StartExitSpan (Some c) (Some entry_span) (view_of ''sample_op2'') ticks (now 1))
       (\<lambda>(exit_span, c).
     and_then (setPeer exit_span sample_target c) (\<lambda>c.
     and_then (createSW8HeaderValue sample_target c) (\<lambda>value.
     and_then (case value of None \<Rightarrow> Inl EmptyOptional | Some v \<Rightarrow> Inr [(kPropagationHeader, v)])
       (\<lambda>headers.
     and_then (end_guard exit_span ticks (now 2) c) (\<lambda>c.
     Inr ((''/ping'', headers), c))))))"

text \<open>
  The event loop of the reporter runs beside \<open>main\<close>: the completions it handles before and after
  the report are \<open>before\<close> and \<open>after\<close>, those it takes off the queue when \<open>main\<close> returns and the
  tracer is destroyed are \<open>rest\<close>. The result is the request and the tracer at its end.
\<close>

definition handle_completions ::
  "bool list \<Rightarrow> 'm async_client tracer \<Rightarrow> 'm async_client tracer outcome"
where
  "handle_completions oks t =
     and_then (client_steps (map Completed oks) (reporter_client t)) (\<lambda>client.
     Inr (t\<lparr>reporter_client := client\<rparr>))"

definition sample_client_main ::
  "(string \<Rightarrow> string \<Rightarrow> bool) \<Rightarrow> int \<Rightarrow> (nat \<Rightarrow> time_point) \<Rightarrow> bool list \<Rightarrow> bool list \<Rightarrow> bool list
   \<Rightarrow> random_generator
   \<Rightarrow> ((string \<times> (string \<times> string) list) \<times> segment_object async_client tracer) outcome"
where
  "sample_client_main ends_with ticks now before after rest g =
     and_then (createInsecureGrpcTracer client_init) (\<lambda>tracer.
     and_then (newContext tracer g) (\<lambda>(c, g).
     and_then (StartEntrySpan (Some c) (view_of ''sample_op1'') ticks (now 0)) (\<lambda>(entry_span, c).
     and_then (traced_get ticks now entry_span c) (\<lambda>(request, c).
     and_then (end_guard entry_span ticks (now 3) c) (\<lambda>c.
     and_then (handle_completions before tracer) (\<lambda>tracer.
     and_then (report sendMessage ends_with (Some c) tracer) (\<lambda>(_, _, tracer).
     and_then (handle_completions after tracer) (\<lambda>tracer.
     and_then (destroy_tracer (resetClient rest) tracer) (\<lambda>tracer.
     Inr (request, tracer))))))))))"


section \<open>The guards as calls\<close>

lemma entry_guard_calls:
  assumes "StartEntrySpan (Some c) (view_of name) ticks now = Inr (h, c')" and "CHR 0x00 \<notin> set name"
  shows "do_calls [Create_Entry_Span, Change_Span (Start_Span name (fetch ticks now)) h] c = Inr c'"
  using assms by (auto simp: StartEntrySpan_def startSpan_def outcome_eqs split: option.splits)

lemma exit_guard_calls:
  assumes "StartExitSpan (Some c) p (view_of name) ticks now = Inr (h, c')" and "CHR 0x00 \<notin> set name"
  shows "do_calls [Create_Exit_Span p, Change_Span (Start_Span name (fetch ticks now)) h] c = Inr c'"
  using assms by (auto simp: StartExitSpan_def startSpan_def outcome_eqs split: option.splits)

lemma end_guard_calls:
  "end_guard h ticks now c = Inr c' \<Longrightarrow> do_calls [Change_Span (End_Span (fetch ticks now)) h] c = Inr c'"
  by (simp add: end_guard_def endSpan_def)

text \<open>The names of a segment, which calls keep.\<close>

definition names_of :: "tracing_context \<Rightarrow> (string \<times> string \<times> string \<times> string) option" where
  "names_of c = map_option (\<lambda>seg. (seg_traceid seg, seg_tracesegmentid seg, seg_service seg,
     seg_serviceinstance seg)) (segment_store c)"

lemma names_of_calls: "do_calls xs c = Inr c' \<Longrightarrow> live c \<Longrightarrow> names_of c' = names_of c"
  using do_calls_names [of xs c c'] by (auto simp: live_def names_of_def)

section \<open>What the programs do\<close>

lemma sample_names: "CHR 0x00 \<notin> set ''sample_op1''" "CHR 0x00 \<notin> set ''sample_op2''"
  "CHR 0x00 \<notin> set ''sample_op3''"
  by simp_all

text \<open>The span the client reports for its request.\<close>

definition request_span :: "int \<Rightarrow> (nat \<Rightarrow> time_point) \<Rightarrow> span_object" where
  "request_span ticks now = (exit_object 1 0 False)\<lparr>so_operationname := ''sample_op2'',
     so_peer := sample_target, so_starttime := fetch ticks (now 1),
     so_endtime := fetch ticks (now 2)\<rparr>"

lemma traced_get_live:
  assumes "live c" and "table_of c = [(e, False)]" and "\<not> should_skip_analysis c"
    and "names_of c = Some (trace, sgmt, svc, inst)"
  shows "\<exists>h c'. traced_get ticks now 0 c = Inr ((''/ping'', [(kPropagationHeader, h)]), c')
    \<and> live c' \<and> table_of c' = [(e, False), (request_span ticks now, True)]
    \<and> names_of c' = names_of c
    \<and> (\<forall>simple_atoi. simple_atoi_spec simple_atoi \<longrightarrow> createSpanContext simple_atoi h
        = Inr \<lparr>sc_sample = True, sc_trace_id = trace, sc_trace_segment_id = sgmt, sc_span_id = 1,
            sc_service = svc, sc_service_instance = inst, sc_endpoint = so_operationname e,
            sc_target_address = sample_target\<rparr>)"
proof -
  let ?x = "(exit_object 1 0 False)\<lparr>so_operationname := ''sample_op2'',
    so_starttime := fetch ticks (now 1)\<rparr>"
  from StartExitSpan_live [OF assms(1) _ sample_names(2), of 0 ticks "now 1"] assms(2,3)
  obtain c1 where c1: "StartExitSpan (Some c) (Some 0) (view_of ''sample_op2'') ticks (now 1)
      = Inr (1, c1)" "live c1" and t1: "table_of c1 = [(e, False)] @ [(?x, False)]" by auto
  from change_live [OF c1(2) t1, of 1 "Set_Peer sample_target"] obtain c2 where
    c2: "setPeer 1 sample_target c1 = Inr c2" "live c2"
    and t2: "table_of c2 = [(e, False)] @ [(?x\<lparr>so_peer := sample_target\<rparr>, False)]"
    by (auto simp: finishes_def)
  from end_guard_live [OF c2(2) t2, of 1 ticks "now 2"] obtain c3 where
    c3: "end_guard 1 ticks (now 2) c2 = Inr c3" "live c3"
    and t3: "table_of c3 = [(e, False), (request_span ticks now, True)]"
    by (auto simp: request_span_def)
  have n2: "names_of c2 = names_of c"
    using names_of_calls [OF exit_guard_calls [OF c1(1) sample_names(2)] assms(1)]
      names_of_calls [of "[Change_Span (Set_Peer sample_target) 1]" c1 c2] c1(2) c2(1) by simp
  have n3: "names_of c3 = names_of c"
    using names_of_calls [OF end_guard_calls [OF c3(1)] c2(2)] n2 by simp
  from c2(2) obtain seg where seg: "segment_store c2 = Some seg" and inv: "context_inv c2"
    by (auto simp: live_def)
  have "seg_spans seg = [e, ?x\<lparr>so_peer := sample_target\<rparr>]"
    using seg_spans_table [OF seg inv] t2 by simp
  then obtain h where h: "createSW8HeaderValue sample_target c2 = Inr (Some h)"
    using createSW8HeaderValue_live [OF seg inv] by (simp add: exit_object_def)
  have "createSpanContext simple_atoi h = Inr \<lparr>sc_sample = True, sc_trace_id = trace,
      sc_trace_segment_id = sgmt, sc_span_id = 1, sc_service = svc,
      sc_service_instance = inst, sc_endpoint = so_operationname e,
      sc_target_address = sample_target\<rparr>" if "simple_atoi_spec simple_atoi" for simple_atoi
    using outgoing_header_live [OF seg inv h _ that] t2 n2 assms(4) seg
    by (auto simp: received_context_def names_of_def)
  with c1(1) c2(1) c3 h t3 n3 show ?thesis by (simp add: traced_get_def)
qed


text \<open>What the reporter makes of one message among completions: it is written once a completion has
  been a success.\<close>

lemma spec_completions_empty:
  "queue a = [] \<Longrightarrow> queue (spec_steps (map Completed oks) a) = []
    \<and> attempted (spec_steps (map Completed oks) a) = attempted a"
proof (induction oks arbitrary: a)
  case (Cons ok oks)
  have "queue (spec_event ok a) = [] \<and> attempted (spec_event ok a) = attempted a"
    using Cons.prems by (simp add: spec_event_def start_next_def Let_def split: phase.split)
  with Cons show ?case by simp
qed simp

lemma spec_completions_opening:
  assumes "phase a = Opening"
  shows "spec_steps (map Completed oks) a = (if True \<in> set oks
    then spec_steps (map Completed (tl (dropWhile Not oks))) (start_next a) else a)"
  using assms
proof (induction oks)
  case (Cons ok oks)
  then have "spec_event ok a = (if ok then start_next a else a)" by (simp add: spec_event_def)
  with Cons show ?case by simp
qed simp

lemma one_message_written:
  "attempted (spec_steps (map Completed before @ Send m # map Completed after) new_reporter)
    = (if True \<in> set before \<or> True \<in> set after then [m] else [])"
proof -
  let ?a = "spec_steps (map Completed before) (new_reporter :: 'a reporter)"
  have new: "phase (new_reporter :: 'a reporter) = Opening" by (simp add: new_reporter_def)
  have idle: "spec_steps (map Completed oks) b = b" if "phase b = Idle" for oks and b :: "'a reporter"
    using that by (induction oks) simp_all
  show ?thesis
  proof (cases "True \<in> set before")
    case True
    have "phase (start_next (new_reporter :: 'a reporter)) = Idle"
      by (simp add: start_next_def new_reporter_def)
    with spec_completions_opening [OF new, of before] True
    have "?a = start_next new_reporter" by (simp add: idle)
    then have "queue (spec_send m ?a) = [] \<and> attempted (spec_send m ?a) = [m]"
      by (simp add: spec_send_def start_next_def new_reporter_def)
    with spec_completions_empty [of "spec_send m ?a" after] True show ?thesis
      by (simp add: spec_steps_append)
  next
    case False
    with spec_completions_opening [OF new, of before] have "?a = new_reporter" by simp
    then have b: "phase (spec_send m ?a) = Opening" "queue (start_next (spec_send m ?a)) = []"
      "attempted (start_next (spec_send m ?a)) = [m]" "attempted (spec_send m ?a) = []"
      by (simp_all add: spec_send_def start_next_def new_reporter_def)
    with spec_completions_opening [OF b(1), of after] spec_completions_empty [OF b(2)] False
    show ?thesis by (simp add: spec_steps_append)
  qed
qed

lemma reset_keeps_wire:
  assumes "implements c a"
  shows "\<exists>c'. resetClient [ok] c = Inr c' \<and> wire c' = wire c \<and> buf (message_buffer c') = []"
  using assms by (cases "phase a") (auto simp: resetClient_def exit_loop_def resetStream_def
      event_turn_def write_event_callback_def basic_event_callback_def implements_def
      implements_data_def tags_of_def value_buffer_defs drained)

text \<open>The spans of a new context when the two guards of the client have come and gone, and what the
  header in between says.\<close>

definition client_spans :: "int \<Rightarrow> (nat \<Rightarrow> time_point) \<Rightarrow> span_object list" where
  "client_spans ticks now = [(entry_object None False)\<lparr>so_operationname := ''sample_op1'',
     so_starttime := fetch ticks (now 0), so_endtime := fetch ticks (now 3)\<rparr>,
     request_span ticks now]"

definition header_of :: "segment_object \<Rightarrow> string \<Rightarrow> bool" where
  "header_of seg h \<longleftrightarrow> (\<forall>simple_atoi. simple_atoi_spec simple_atoi \<longrightarrow>
     createSpanContext simple_atoi h = Inr \<lparr>sc_sample = True, sc_trace_id = seg_traceid seg,
       sc_trace_segment_id = seg_tracesegmentid seg, sc_span_id = 1, sc_service = seg_service seg,
       sc_service_instance = seg_serviceinstance seg, sc_endpoint = ''sample_op1'',
       sc_target_address = sample_target\<rparr>)"

lemma client_guards:
  assumes "TracingContextImpl next_id svc inst None None g = Inr (c, g')"
  shows "\<exists>c1 h c2 c3 seg.
      StartEntrySpan (Some c) (view_of ''sample_op1'') ticks (now 0) = Inr (0, c1)
    \<and> traced_get ticks now 0 c1 = Inr ((''/ping'', [(kPropagationHeader, h)]), c2)
    \<and> end_guard 0 ticks (now 3) c2 = Inr c3 \<and> segment_store c3 = Some seg \<and> context_inv c3
    \<and> table_of c3 = map (\<lambda>so. (so, True)) (client_spans ticks now)
    \<and> seg_service seg = svc \<and> seg_serviceinstance seg = inst \<and> header_of seg h"
proof -
  note new = new_context [OF assms]
  have live: "live c" using new(1,2) by (simp add: live_def)
  let ?e = "(entry_object None False)\<lparr>so_operationname := ''sample_op1'',
    so_starttime := fetch ticks (now 0)\<rparr>"
  from StartEntrySpan_live [OF live new(3) sample_names(1), of ticks "now 0"] new(4,6) obtain c1 where
    c1: "StartEntrySpan (Some c) (view_of ''sample_op1'') ticks (now 0) = Inr (0, c1)" "live c1"
      "\<not> should_skip_analysis c1" "table_of c1 = [(?e, False)]" by auto
  from assms obtain trace sgmt where "names_of c = Some (trace, sgmt, svc, inst)"
    by (auto simp: TracingContextImpl_def names_of_def outcome_eqs)
  then have names: "names_of c1 = Some (trace, sgmt, svc, inst)"
    using names_of_calls [OF entry_guard_calls [OF c1(1) sample_names(1)] live] by simp
  from traced_get_live [OF c1(2,4,3) names, of ticks now] obtain h c2 where
    c2: "traced_get ticks now 0 c1 = Inr ((''/ping'', [(kPropagationHeader, h)]), c2)" "live c2"
      "table_of c2 = [] @ (?e, False) # [(request_span ticks now, True)]" "names_of c2 = names_of c1"
    and sc: "\<And>simple_atoi. simple_atoi_spec simple_atoi \<Longrightarrow> createSpanContext simple_atoi h
        = Inr \<lparr>sc_sample = True, sc_trace_id = trace, sc_trace_segment_id = sgmt, sc_span_id = 1,
            sc_service = svc, sc_service_instance = inst, sc_endpoint = ''sample_op1'',
            sc_target_address = sample_target\<rparr>"
    by auto
  from end_guard_live [OF c2(2,3), of 0 ticks "now 3"] obtain c3 where
    c3: "end_guard 0 ticks (now 3) c2 = Inr c3" "live c3"
    and t3: "table_of c3 = map (\<lambda>so. (so, True)) (client_spans ticks now)"
    by (auto simp: client_spans_def)
  from c3(2) obtain seg where seg: "segment_store c3 = Some seg" and inv: "context_inv c3"
    by (auto simp: live_def)
  have "seg_traceid seg = trace" "seg_tracesegmentid seg = sgmt" "seg_service seg = svc"
    "seg_serviceinstance seg = inst"
    using names_of_calls [OF end_guard_calls [OF c3(1)] c2(2)] c2(4) names seg
    by (auto simp: names_of_def)
  with c1(1) c2(1) c3(1) seg inv t3 sc show ?thesis by (simp add: header_of_def)
qed

lemma sample_client_run:
  assumes "generator_ready g" and "ends_with_spec ends_with"
  shows "\<exists>h seg client tracer.
    sample_client_main ends_with ticks now before after [ok] g
      = Inr ((''/ping'', [(kPropagationHeader, h)]), tracer)
    \<and> client_steps (map Completed before @ Send seg # map Completed after) (createClient '''')
      = Inr client
    \<and> wire (reporter_client tracer) = wire client
    \<and> seg_service seg = '''' \<and> seg_serviceinstance seg = ''client_0''
    \<and> seg_spans seg = client_spans ticks now \<and> header_of seg h"
proof -
  let ?t = "\<lparr>reporter_client = createClient '''' :: segment_object async_client,
    segment_factory = TracingContextFactory client_init, ignore_matcher = new_suffix_matcher []\<rparr>"
  have t: "createInsecureGrpcTracer client_init = Inr ?t"
    by (simp add: createInsecureGrpcTracer_def TracerImpl_def init_def client_init_def unset_config_def)
  obtain c g' where c: "newContext ?t g = Inr (c, g')"
    and impl: "TracingContextImpl uuid '''' ''client_0'' None None g = Inr (c, g')"
    using random.new_context_ids [OF assms(1), of "''''" "''client_0''" None None]
    by (auto simp: newContext_def create_root_def TracingContextFactory_def client_init_def
        unset_config_def)
  from client_guards [OF impl, of ticks now] obtain c1 h c2 c3 seg where
    guards: "StartEntrySpan (Some c) (view_of ''sample_op1'') ticks (now 0) = Inr (0, c1)"
      "traced_get ticks now 0 c1 = Inr ((''/ping'', [(kPropagationHeader, h)]), c2)"
      "end_guard 0 ticks (now 3) c2 = Inr c3"
    and seg: "segment_store c3 = Some seg" and inv: "context_inv c3"
    and t3: "table_of c3 = map (\<lambda>so. (so, True)) (client_spans ticks now)"
    and segment: "seg_service seg = ''''" "seg_serviceinstance seg = ''client_0''" "header_of seg h"
    by blast
  from client_steps_implement [OF implements_new, of "map Completed before" "''''"] obtain cl1 where
    cl1: "client_steps (map Completed before) (createClient '''')
      = Inr (cl1 :: segment_object async_client)" "client_ready cl1"
    using reporter_inv_steps [OF reporter_inv_new] by (auto simp: client_ready_def)
  let ?t1 = "?t\<lparr>reporter_client := cl1\<rparr>"
  have "list_all snd (table_of c3)" "\<not> ignored_table (ignore_matcher ?t1) (table_of c3)"
    "client_ready (reporter_client ?t1)"
    by (simp_all add: t3 list_all_iff ignored_table_def new_suffix_matcher_def cl1(2))
  from grpc_sink.report_accepted [OF seg inv assms(2) this] obtain cl2 where
    r: "report sendMessage ends_with (Some c3) ?t1
      = Inr (True, Some (c3\<lparr>spans := [], segment_store := None\<rparr>), ?t1\<lparr>reporter_client := cl2\<rparr>)"
    and cl2: "sendMessage seg cl1 = Inr cl2" by auto
  from client_steps_implement [OF implements_new, of
      "map Completed before @ Send seg # map Completed after" "''''"] obtain client a where
    client: "client_steps (map Completed before @ Send seg # map Completed after) (createClient '''')
      = Inr client" "implements client a" by blast
  then have after: "client_steps (map Completed after) cl2 = Inr client"
    using cl1(1) cl2 by (simp add: client_steps_append)
  from reset_keeps_wire [OF client(2), of ok] obtain cl4 where
    cl4: "resetClient [ok] client = Inr cl4" "wire cl4 = wire client" by blast
  have "sample_client_main ends_with ticks now before after [ok] g
      = Inr ((''/ping'', [(kPropagationHeader, h)]), ?t\<lparr>reporter_client := cl4\<rparr>)"
    using t c guards cl1(1) r after cl4(1)
    by (simp add: sample_client_main_def handle_completions_def destroy_tracer_def)
  moreover have "seg_spans seg = client_spans ticks now"
    using seg_spans_table [OF seg inv] by (simp add: t3 comp_def)
  ultimately show ?thesis using client(1) cl4(2) segment
    by (intro exI [of _ h] exI [of _ seg] exI [of _ client]
        exI [of _ "?t\<lparr>reporter_client := cl4\<rparr>"]) simp
qed

text \<open>The server's side: a request whose header stands for a span context.\<close>

lemma ping_handler_run:
  assumes "createSpanContext simple_atoi (get_header_value kPropagationHeader) = Inr sc"
    and "get_header_value kPropagationHeader \<noteq> ''''" and "generator_ready g"
    and "ends_with_spec ends_with" and "client_ready (reporter_client t)"
    and "target_suffixes (ignore_matcher t) = []"
  shows "\<exists>t' g' seg.
    ping_handler simple_atoi ends_with ticks now get_header_value t g = Inr (t', g')
    \<and> generator_ready g' \<and> client_ready (reporter_client t')
    \<and> t' = t\<lparr>reporter_client := reporter_client t'\<rparr>
    \<and> sendMessage seg (reporter_client t) = Inr (reporter_client t')
    \<and> seg_traceid seg = sc_trace_id sc
    \<and> seg_service seg = factory_service_name (segment_factory t)
    \<and> seg_serviceinstance seg = factory_instance_name (segment_factory t)
    \<and> seg_spans seg = [(entry_object (Some sc) False)\<lparr>so_operationname := ''sample_op3'',
          so_starttime := fetch ticks (now 0), so_endtime := fetch ticks (now 1)\<rparr>]"
proof -
  from incoming_context [OF assms(3), of t sc] obtain c g' seg0 where
    c: "newContext_from t (Some sc) g = Inr (c, g')" "generator_ready g'"
    and impl: "TracingContextImpl uuid (factory_service_name (segment_factory t))
      (factory_instance_name (segment_factory t)) (Some sc) None g = Inr (c, g')"
    and seg0: "segment_store c = Some seg0" "seg_traceid seg0 = sc_trace_id sc" by blast
  note new = new_context [OF impl]
  have live: "live c" using new(1,2) by (simp add: live_def)
  from StartEntrySpan_live [OF live new(3) sample_names(3), of ticks "now 0"] new(4,6) obtain c1 where
    c1: "StartEntrySpan (Some c) (view_of ''sample_op3'') ticks (now 0) = Inr (0, c1)" "live c1"
      "table_of c1 = [] @ ((entry_object (Some sc) False)\<lparr>so_operationname := ''sample_op3'',
        so_starttime := fetch ticks (now 0)\<rparr>, False) # []" by auto
  from end_guard_live [OF c1(2,3), of 0 ticks "now 1"] obtain c2 where
    c2: "end_guard 0 ticks (now 1) c1 = Inr c2" "live c2"
    and t2: "table_of c2 = [((entry_object (Some sc) False)\<lparr>so_operationname := ''sample_op3'',
        so_starttime := fetch ticks (now 0), so_endtime := fetch ticks (now 1)\<rparr>, True)]" by auto
  from c2(2) obtain seg where seg: "segment_store c2 = Some seg" and inv: "context_inv c2"
    by (auto simp: live_def)
  have names: "names_of c2 = names_of c"
    using names_of_calls [OF end_guard_calls [OF c2(1)] c1(2)]
      names_of_calls [OF entry_guard_calls [OF c1(1) sample_names(3)] live] by simp
  have "list_all snd (table_of c2)" "\<not> ignored_table (ignore_matcher t) (table_of c2)"
    by (simp_all add: t2 ignored_table_def assms(6))
  from grpc_sink.report_accepted [OF seg inv assms(4) this assms(5)] obtain cl where
    r: "report sendMessage ends_with (Some c2) t
      = Inr (True, Some (c2\<lparr>spans := [], segment_store := None\<rparr>), t\<lparr>reporter_client := cl\<rparr>)"
    and cl: "sendMessage seg (reporter_client t) = Inr cl" "client_ready cl" by auto
  have "ping_handler simple_atoi ends_with ticks now get_header_value t g
      = Inr (t\<lparr>reporter_client := cl\<rparr>, g')"
    using assms(1,2) c(1) c1(1) c2(1) r by (simp add: ping_handler_def Let_def)
  moreover have "seg_traceid seg = sc_trace_id sc"
    "seg_service seg = factory_service_name (segment_factory t)"
    "seg_serviceinstance seg = factory_instance_name (segment_factory t)"
    using names seg seg0 impl by (auto simp: names_of_def TracingContextImpl_def outcome_eqs)
  ultimately show ?thesis
    using c(2) cl seg_spans_table [OF seg inv] t2 by auto
qed


section \<open>The programs together\<close>

lemma server_tracer_ready:
  "\<exists>t. server_tracer = Inr t \<and> client_ready (reporter_client t)
    \<and> client_accepted (reporter_client t) = [] \<and> client_has_room (reporter_client t)
    \<and> target_suffixes (ignore_matcher t) = []
    \<and> factory_service_name (segment_factory t) = ''mesh''
    \<and> factory_instance_name (segment_factory t) = ''node_0''"
  by (simp add: server_tracer_def createInsecureGrpcTracer_def TracerImpl_def init_def
      server_init_def unset_config_def client_ready_new client_accepted_new client_has_room_new
      new_suffix_matcher_def TracingContextFactory_def)

text \<open>C3. The two sample programs produce one trace: the client sends its request with an \<open>sw8\<close>
  header, the handler of the server accepts it and hands its reporter one segment; that segment
  has the trace id of the client's, and its only span, a finished entry span, refers to the
  client's segment, to the exit span of the request, and to the client's names, operation and
  target. It does not matter what happened on the client's own stream.\<close>

theorem samples_share_a_trace:
  assumes "generator_ready g1" and "generator_ready g2" and "ends_with_spec ends_with"
    and "simple_atoi_spec simple_atoi"
  shows "\<exists>path h client t t' g' seg1 seg2 cl.
    sample_client_main ends_with ticks now1 before after [ok] g1 = Inr ((path, [(''sw8'', h)]), client)
    \<and> client_steps (map Completed before @ Send seg1 # map Completed after) (createClient '''') = Inr cl
    \<and> wire (reporter_client client) = wire cl
    \<and> server_tracer = Inr t
    \<and> ping_handler simple_atoi ends_with ticks now2 (\<lambda>name. if name = ''sw8'' then h else '''') t g2
        = Inr (t', g')
    \<and> client_accepted (reporter_client t') = [seg2]
    \<and> seg_traceid seg2 = seg_traceid seg1 \<and> seg_service seg2 = ''mesh''
    \<and> map so_spanid (seg_spans seg1) = [0, 1] \<and> map so_spanid (seg_spans seg2) = [0]
    \<and> map so_refs (seg_spans seg2) = [[\<lparr>ref_reftype = CrossProcess,
        ref_traceid = seg_traceid seg1, ref_parenttracesegmentid = seg_tracesegmentid seg1,
        ref_parentspanid = 1, ref_parentservice = '''', ref_parentserviceinstance = ''client_0'',
        ref_parentendpoint = ''sample_op1'', ref_networkaddressusedatpeer = ''127.0.0.1:8081''\<rparr>]]"
proof -
  from sample_client_run [OF assms(1,3), of ticks now1 before after ok] obtain h seg1 cl client where
    c: "sample_client_main ends_with ticks now1 before after [ok] g1
      = Inr ((''/ping'', [(kPropagationHeader, h)]), client)"
      "client_steps (map Completed before @ Send seg1 # map Completed after) (createClient '''') = Inr cl"
      "wire (reporter_client client) = wire cl"
      "seg_service seg1 = ''''" "seg_serviceinstance seg1 = ''client_0''"
      "seg_spans seg1 = client_spans ticks now1" and h: "header_of seg1 h" by blast
  from server_tracer_ready obtain t where t: "server_tracer = Inr t" "client_ready (reporter_client t)"
    "client_accepted (reporter_client t) = []" "client_has_room (reporter_client t)"
    "target_suffixes (ignore_matcher t) = []" "factory_service_name (segment_factory t) = ''mesh''"
    by blast
  let ?get = "\<lambda>name. if name = ''sw8'' then h else ''''"
  let ?sc = "\<lparr>sc_sample = True, sc_trace_id = seg_traceid seg1,
       sc_trace_segment_id = seg_tracesegmentid seg1, sc_span_id = 1, sc_service = '''',
       sc_service_instance = ''client_0'', sc_endpoint = ''sample_op1'',
       sc_target_address = sample_target\<rparr>"
  have get: "?get kPropagationHeader = h" by (simp add: kPropagationHeader_def)
  have sc: "createSpanContext simple_atoi h = Inr ?sc"
    using h assms(4) c(4,5) by (simp add: header_of_def)
  have ne: "h \<noteq> ''''" using sc by (auto simp: createSpanContext_def SpanContextImpl_eq Let_def)
  from ping_handler_run [of simple_atoi ?get ?sc g2 ends_with t ticks now2, unfolded get,
      OF sc ne assms(2,3) t(2,5)]
  obtain t' g' seg2 where s:
    "ping_handler simple_atoi ends_with ticks now2 ?get t g2 = Inr (t', g')"
    "sendMessage seg2 (reporter_client t) = Inr (reporter_client t')"
    "seg_traceid seg2 = seg_traceid seg1" "seg_service seg2 = ''mesh''"
    and spans: "seg_spans seg2 = [(entry_object (Some ?sc) False)\<lparr>so_operationname := ''sample_op3'',
          so_starttime := fetch ticks (now2 0), so_endtime := fetch ticks (now2 1)\<rparr>]"
    using t(6) by auto
  have "client_accepted (reporter_client t') = [seg2]"
    using grpc_client.send_accepts [OF t(2), of seg2] s(2) t(3,4) by auto
  with c t(1) s spans show ?thesis
    by (intro exI [of _ "''/ping''"] exI [of _ h] exI [of _ client] exI [of _ t] exI [of _ t']
        exI [of _ g'] exI [of _ seg1] exI [of _ seg2] exI [of _ cl])
      (simp add: kPropagationHeader_def client_spans_def request_span_def entry_object_def
        exit_object_def segment_ref_of_def sample_target_def)
qed

text \<open>The client's own segment reaches the stream only if a completion was a success before
  \<open>main\<close> returned: the tracer's destructor discards what is still in the buffer. When the
  program ends before the stream is up, the trace begins with a segment nobody has.\<close>

lemma sample_client_may_lose_its_segment:
  assumes "generator_ready g" and "ends_with_spec ends_with"
  shows "\<exists>request tracer seg. sample_client_main ends_with ticks now before after [ok] g
      = Inr (request, tracer)
    \<and> seg_spans seg = client_spans ticks now
    \<and> writes (wire (reporter_client tracer))
      = (if True \<in> set before \<or> True \<in> set after then [seg] else [])"
proof -
  from sample_client_run [OF assms, of ticks now before after ok] obtain h seg cl tracer where
    c: "sample_client_main ends_with ticks now before after [ok] g
      = Inr ((''/ping'', [(kPropagationHeader, h)]), tracer)"
      "client_steps (map Completed before @ Send seg # map Completed after) (createClient '''') = Inr cl"
      "wire (reporter_client tracer) = wire cl" "seg_spans seg = client_spans ticks now" by blast
  from after_steps [of "map Completed before @ Send seg # map Completed after" "''''"] c(2)
  have "implements cl (spec_steps (map Completed before @ Send seg # map Completed after) new_reporter)"
    by auto
  with c(3) have "writes (wire (reporter_client tracer))
      = (if True \<in> set before \<or> True \<in> set after then [seg] else [])"
    unfolding implements_def implements_data_def one_message_written [symmetric] by simp
  with c(1,4) show ?thesis by blast
qed

text \<open>The handler of the sample server is not prepared for a request without the header: it
  makes an entry guard with a null context, whose constructor calls through it. A header that is
  there and malformed ends the handler with the exception of the library.\<close>

lemma ping_handler_needs_the_header:
  "(get_header_value kPropagationHeader = '''' \<longrightarrow>
      ping_handler simple_atoi ends_with ticks now get_header_value t g = Inl NullDereference)
   \<and> (get_header_value kPropagationHeader \<noteq> '''' \<and>
      createSpanContext simple_atoi (get_header_value kPropagationHeader) = Inl f \<longrightarrow>
      ping_handler simple_atoi ends_with ticks now get_header_value t g = Inl f)"
  by (simp add: ping_handler_def Let_def StartEntrySpan_def)


theorem samples_share_a_trace_witness:
  "\<exists>path h client t t' g' seg2.
    sample_client_main ends_with_by_drop 1000000 (\<lambda>i. \<lparr>point = int i\<rparr>) [False, True] [] [True]
        (new_generator (\<lambda>_. 0)) = Inr ((path, [(''sw8'', h)]), client)
    \<and> server_tracer = Inr t
    \<and> ping_handler decimal_atoi ends_with_by_drop 1000000 (\<lambda>i. \<lparr>point = int i\<rparr>)
        (\<lambda>name. if name = ''sw8'' then h else '''') t (new_generator (\<lambda>_. 0)) = Inr (t', g')
    \<and> client_accepted (reporter_client t') = [seg2]
    \<and> map (map ref_parentspanid \<circ> so_refs) (seg_spans seg2) = [[1]]"
proof -
  note g = generator_ready_new [OF zero_draws]
  from samples_share_a_trace [OF g g ends_with_by_drop_spec decimal_atoi_spec, of 1000000
      "\<lambda>i. \<lparr>point = int i\<rparr>" "[False, True]" "[]" True "\<lambda>i. \<lparr>point = int i\<rparr>"]
  obtain path h client t t' g' seg2 and seg1 :: segment_object where r:
    "sample_client_main ends_with_by_drop 1000000 (\<lambda>i. \<lparr>point = int i\<rparr>) [False, True] [] [True]
        (new_generator (\<lambda>_. 0)) = Inr ((path, [(''sw8'', h)]), client)"
    "server_tracer = Inr t"
    "ping_handler decimal_atoi ends_with_by_drop 1000000 (\<lambda>i. \<lparr>point = int i\<rparr>)
        (\<lambda>name. if name = ''sw8'' then h else '''') t (new_generator (\<lambda>_. 0)) = Inr (t', g')"
    "client_accepted (reporter_client t') = [seg2]"
    and refs: "map so_refs (seg_spans seg2) = [[\<lparr>ref_reftype = CrossProcess,
        ref_traceid = seg_traceid seg1, ref_parenttracesegmentid = seg_tracesegmentid seg1,
        ref_parentspanid = 1, ref_parentservice = '''', ref_parentserviceinstance = ''client_0'',
        ref_parentendpoint = ''sample_op1'', ref_networkaddressusedatpeer = ''127.0.0.1:8081''\<rparr>]]"
    by - (elim exE conjE, rule that, assumption+)
  have "map (map ref_parentspanid \<circ> so_refs) (seg_spans seg2)
      = map (map ref_parentspanid) (map so_refs (seg_spans seg2))" by simp
  also have "\<dots> = [[1]]" unfolding refs by simp
  finally show ?thesis using r
    by (intro exI [of _ path] exI [of _ h] exI [of _ client] exI [of _ t] exI [of _ t']
        exI [of _ g'] exI [of _ seg2]) (simp only: simp_thms)
qed

lemma sample_client_may_lose_its_segment_witness:
  "\<exists>request tracer. sample_client_main ends_with_by_drop 1000000 (\<lambda>i. \<lparr>point = int i\<rparr>) [False] []
      [True] (new_generator (\<lambda>_. 0)) = Inr (request, tracer)
    \<and> writes (wire (reporter_client tracer)) = []"
  using sample_client_may_lose_its_segment [OF generator_ready_new [OF zero_draws]
      ends_with_by_drop_spec, of 1000000 "\<lambda>i. \<lparr>point = int i\<rparr>" "[False]" "[]" True]
  by fastforce

lemma ping_handler_needs_the_header_witness:
  "ping_handler decimal_atoi ends_with_by_drop 1000000 (\<lambda>i. \<lparr>point = int i\<rparr>) (\<lambda>name. '''')
      example_tracer (new_generator (\<lambda>_. 0)) = Inl NullDereference
   \<and> ping_handler decimal_atoi ends_with_by_drop 1000000 (\<lambda>i. \<lparr>point = int i\<rparr>) (\<lambda>name. ''1-x'')
      example_tracer (new_generator (\<lambda>_. 0))
      = Inl (TracerException ''Invalid span context format. It must have 8 fields.'')"
proof -
  have "createSpanContext decimal_atoi ''1-x''
      = Inl (TracerException ''Invalid span context format. It must have 8 fields.'')"
    by (simp add: createSpanContext_def SpanContextImpl_eq)
  then show ?thesis
    using ping_handler_needs_the_header [of "\<lambda>_. ''''" decimal_atoi ends_with_by_drop 1000000
        "\<lambda>i. \<lparr>point = int i\<rparr>" example_tracer "new_generator (\<lambda>_. 0)"]
      ping_handler_needs_the_header [of "\<lambda>_. ''1-x''" decimal_atoi ends_with_by_drop 1000000
        "\<lambda>i. \<lparr>point = int i\<rparr>" example_tracer "new_generator (\<lambda>_. 0)"]
    by simp
qed

end
