(* ===== verification/Sample_Server.thy ===== *)
theory Sample_Server
  imports Sample_Programs
begin

text \<open>
  The \<open>main\<close> of the sample server, \<^verbatim>\<open>example/sample.cc\<close>: a tracer that lives for the whole program
  and a handler that the HTTP library calls for every request. A request is what
  \<open>get_header_value\<close> returns for it and the readings of the clock while it is handled, together
  with the completions the event loop of the reporter has handled since the request before.
  Requests are handled one after the other, by one thread (several threads are the subject of
  \<^theory_text>\<open>Concurrent_Server\<close>). Which ends of a handler the library
  catches is a parameter, \<open>catches\<close>; the library documents that it answers an exception with an
  error status and goes on.
\<close>

section \<open>Serving requests\<close>

record http_request =
  get_header_value :: "string \<Rightarrow> string"
  readings :: "nat \<Rightarrow> time_point"
  completions_before :: "bool list"

definition catches_spec :: "(fault \<Rightarrow> bool) \<Rightarrow> bool" where
  "catches_spec catches \<longleftrightarrow> (\<forall>f. catches f \<longleftrightarrow> is_exception f)"

text \<open>The handler throws before it has touched the tracer.\<close>

fun serve ::
  "(fault \<Rightarrow> bool) \<Rightarrow> (string \<Rightarrow> int32 option) \<Rightarrow> (string \<Rightarrow> string \<Rightarrow> bool) \<Rightarrow> int
   \<Rightarrow> http_request list \<Rightarrow> segment_object async_client tracer \<Rightarrow> random_generator
   \<Rightarrow> (segment_object async_client tracer \<times> random_generator) outcome"
where
  "serve catches simple_atoi ends_with ticks [] tracer g = Inr (tracer, g)"
| "serve catches simple_atoi ends_with ticks (r # rs) tracer g =
     and_then (handle_completions (completions_before r) tracer) (\<lambda>tracer.
       case ping_handler simple_atoi ends_with ticks (readings r) (get_header_value r) tracer g of
         Inl f \<Rightarrow> if catches f then serve catches simple_atoi ends_with ticks rs tracer g else Inl f
       | Inr (tracer, g) \<Rightarrow> serve catches simple_atoi ends_with ticks rs tracer g)"

text \<open>When \<open>listen\<close> returns the tracer is destroyed with the program.\<close>

definition sample_server_main ::
  "(fault \<Rightarrow> bool) \<Rightarrow> (string \<Rightarrow> int32 option) \<Rightarrow> (string \<Rightarrow> string \<Rightarrow> bool) \<Rightarrow> int
   \<Rightarrow> http_request list \<Rightarrow> bool list \<Rightarrow> random_generator \<Rightarrow> segment_object async_client tracer outcome"
where
  "sample_server_main catches simple_atoi ends_with ticks requests rest g =
     and_then server_tracer (\<lambda>tracer.
     and_then (serve catches simple_atoi ends_with ticks requests tracer g) (\<lambda>(tracer, g).
     destroy_tracer (resetClient rest) tracer))"

section \<open>What a request leads to\<close>

text \<open>The context the handler finds in a request, or what ends the handler.\<close>

definition request_context :: "(string \<Rightarrow> int32 option) \<Rightarrow> http_request \<Rightarrow> span_context outcome" where
  "request_context simple_atoi r =
     (let h = get_header_value r kPropagationHeader
      in if h = '''' then Inl NullDereference else createSpanContext simple_atoi h)"

text \<open>The faults that are no exceptions end the program.\<close>

definition fatal :: "'a outcome \<Rightarrow> fault option" where
  "fatal x = (case x of Inl f \<Rightarrow> if is_exception f then None else Some f | Inr _ \<Rightarrow> None)"

text \<open>The segment the handler makes of a request with a context.\<close>

definition server_segment ::
  "int \<Rightarrow> (nat \<Rightarrow> time_point) \<Rightarrow> span_context \<Rightarrow> segment_object \<Rightarrow> bool"
where
  "server_segment ticks now sc seg \<longleftrightarrow> seg_traceid seg = sc_trace_id sc
     \<and> seg_service seg = ''mesh'' \<and> seg_serviceinstance seg = ''node_0''
     \<and> seg_spans seg = [(entry_object (Some sc) False)\<lparr>so_operationname := ''sample_op3'',
          so_starttime := fetch ticks (now 0), so_endtime := fetch ticks (now 1)\<rparr>]"

text \<open>What the reporter client goes through while requests are handled.\<close>

inductive served ::
  "(string \<Rightarrow> int32 option) \<Rightarrow> int \<Rightarrow> http_request list \<Rightarrow> segment_object client_step list \<Rightarrow> bool"
  for simple_atoi ticks
where
  none: "served simple_atoi ticks [] []"
| traced: "request_context simple_atoi r = Inr sc \<Longrightarrow> server_segment ticks (readings r) sc seg \<Longrightarrow>
    served simple_atoi ticks rs ss \<Longrightarrow>
    served simple_atoi ticks (r # rs) (map Completed (completions_before r) @ Send seg # ss)"
| refused: "request_context simple_atoi r = Inl f \<Longrightarrow> is_exception f \<Longrightarrow>
    served simple_atoi ticks rs ss \<Longrightarrow>
    served simple_atoi ticks (r # rs) (map Completed (completions_before r) @ ss)"

lemma handler_stops:
  assumes "request_context simple_atoi r = Inl f"
  shows "ping_handler simple_atoi ends_with ticks now (get_header_value r) t g = Inl f"
  using assms ping_handler_needs_the_header [of "get_header_value r" simple_atoi ends_with ticks now t g f]
  by (auto simp: request_context_def Let_def split: if_splits)

definition server_ready :: "segment_object async_client tracer \<Rightarrow> bool" where
  "server_ready t \<longleftrightarrow> client_ready (reporter_client t) \<and> target_suffixes (ignore_matcher t) = []
     \<and> factory_service_name (segment_factory t) = ''mesh''
     \<and> factory_instance_name (segment_factory t) = ''node_0''"

lemma completions_handled:
  assumes "server_ready t"
  shows "\<exists>c. client_steps (map Completed oks) (reporter_client t) = Inr c
    \<and> handle_completions oks t = Inr (t\<lparr>reporter_client := c\<rparr>)
    \<and> server_ready (t\<lparr>reporter_client := c\<rparr>)"
proof -
  from assms obtain a where a: "implements (reporter_client t) a" "reporter_inv a"
    by (auto simp: server_ready_def client_ready_def)
  from client_steps_implement [OF a(1), of "map Completed oks"] obtain c where
    "client_steps (map Completed oks) (reporter_client t) = Inr c"
    "implements c (spec_steps (map Completed oks) a)" by blast
  with reporter_inv_steps [OF a(2)] assms show ?thesis
    by (auto simp: handle_completions_def server_ready_def client_ready_def)
qed


lemma handler_traces:
  assumes "request_context simple_atoi r = Inr sc" and "server_ready t" and "generator_ready g"
    and "ends_with_spec ends_with"
  shows "\<exists>t' g' seg. ping_handler simple_atoi ends_with ticks (readings r) (get_header_value r) t g
      = Inr (t', g')
    \<and> server_ready t' \<and> generator_ready g' \<and> server_segment ticks (readings r) sc seg
    \<and> sendMessage seg (reporter_client t) = Inr (reporter_client t')"
proof -
  from assms(1) have sc: "createSpanContext simple_atoi (get_header_value r kPropagationHeader) = Inr sc"
    and ne: "get_header_value r kPropagationHeader \<noteq> ''''"
    by (auto simp: request_context_def Let_def split: if_splits)
  have t: "client_ready (reporter_client t)" "target_suffixes (ignore_matcher t) = []"
    "factory_service_name (segment_factory t) = ''mesh''"
    "factory_instance_name (segment_factory t) = ''node_0''"
    using assms(2) by (simp_all add: server_ready_def)
  from ping_handler_run [of simple_atoi "get_header_value r" sc g ends_with t ticks "readings r",
      OF sc ne assms(3,4) t(1,2)]
  obtain t' g' seg where
    "ping_handler simple_atoi ends_with ticks (readings r) (get_header_value r) t g = Inr (t', g')"
    "generator_ready g'" "client_ready (reporter_client t')"
    "sendMessage seg (reporter_client t) = Inr (reporter_client t')"
    and t': "t' = t\<lparr>reporter_client := reporter_client t'\<rparr>"
    and "server_segment ticks (readings r) sc seg"
    using t(3,4) by (auto simp: server_segment_def)
  moreover from this have "server_ready t'" using assms(2) t'
    by (metis (no_types, lifting) server_ready_def tracer.select_convs(2,3) tracer.surjective tracer.update_convs(1))
  ultimately show ?thesis by blast
qed

text \<open>Serving requests ends at the first one that is fatal, and handles all of them otherwise.\<close>

fun first_fatal :: "(string \<Rightarrow> int32 option) \<Rightarrow> http_request list \<Rightarrow> fault option" where
  "first_fatal simple_atoi [] = None"
| "first_fatal simple_atoi (r # rs) = (case fatal (request_context simple_atoi r) of
     Some f \<Rightarrow> Some f | None \<Rightarrow> first_fatal simple_atoi rs)"

lemma fatal_simps [simp]:
  "fatal (Inr x) = None" "fatal (Inl f :: 'a outcome) = (if is_exception f then None else Some f)"
  by (simp_all add: fatal_def)

lemma serve_stops:
  assumes "server_ready t" and "generator_ready g" and "ends_with_spec ends_with"
    and "catches_spec catches" and "first_fatal simple_atoi rs = Some f"
  shows "serve catches simple_atoi ends_with ticks rs t g = Inl f"
  using assms(1,2,5)
proof (induction rs arbitrary: t g)
  case (Cons r rs)
  have catches: "catches x = is_exception x" for x using assms(4) by (simp add: catches_spec_def)
  from completions_handled [OF Cons.prems(1), of "completions_before r"] obtain c where
    c: "handle_completions (completions_before r) t = Inr (t\<lparr>reporter_client := c\<rparr>)"
      "server_ready (t\<lparr>reporter_client := c\<rparr>)" by blast
  show ?case
  proof (cases "request_context simple_atoi r")
    case (Inr sc)
    from handler_traces [OF Inr c(2) Cons.prems(2) assms(3), of ticks] obtain t' g' where
      "ping_handler simple_atoi ends_with ticks (readings r) (get_header_value r)
        (t\<lparr>reporter_client := c\<rparr>) g = Inr (t', g')" "server_ready t'" "generator_ready g'" by auto
    with Cons.IH [of t' g'] Cons.prems(3) c(1) Inr show ?thesis by simp
  next
    case (Inl f')
    note h = handler_stops [OF Inl, of ends_with ticks "readings r" "t\<lparr>reporter_client := c\<rparr>" g]
    show ?thesis
    proof (cases "is_exception f'")
      case True
      with Cons.IH [OF c(2) Cons.prems(2)] Cons.prems(3) c(1) Inl h catches show ?thesis by simp
    next
      case False
      with Cons.prems(3) Inl c(1) h catches show ?thesis by simp
    qed
  qed
qed simp

lemma serve_completes:
  assumes "server_ready t" and "generator_ready g" and "ends_with_spec ends_with"
    and "catches_spec catches" and "first_fatal simple_atoi rs = None"
  shows "\<exists>t' g' ss. serve catches simple_atoi ends_with ticks rs t g = Inr (t', g')
    \<and> served simple_atoi ticks rs ss
    \<and> client_steps ss (reporter_client t) = Inr (reporter_client t')"
  using assms(1,2,5)
proof (induction rs arbitrary: t g)
  case Nil
  show ?case
    by (rule exI [of _ t], rule exI [of _ g], rule exI [of _ "[]"]) (simp add: served.none)
next
  case (Cons r rs)
  from completions_handled [OF Cons.prems(1), of "completions_before r"] obtain c where
    c: "client_steps (map Completed (completions_before r)) (reporter_client t) = Inr c"
      "handle_completions (completions_before r) t = Inr (t\<lparr>reporter_client := c\<rparr>)"
      "server_ready (t\<lparr>reporter_client := c\<rparr>)" by blast
  have rest: "first_fatal simple_atoi rs = None"
    using Cons.prems(3) by (auto split: option.splits)
  show ?case
  proof (cases "request_context simple_atoi r")
    case (Inr sc)
    from handler_traces [OF Inr c(3) Cons.prems(2) assms(3), of ticks] obtain t' g' seg where
      h: "ping_handler simple_atoi ends_with ticks (readings r) (get_header_value r)
        (t\<lparr>reporter_client := c\<rparr>) g = Inr (t', g')" "server_ready t'" "generator_ready g'"
        "server_segment ticks (readings r) sc seg" "sendMessage seg c = Inr (reporter_client t')"
      by auto
    from Cons.IH [OF h(2,3) rest] obtain t'' g'' ss where
      i: "serve catches simple_atoi ends_with ticks rs t' g' = Inr (t'', g'')" "served simple_atoi ticks rs ss"
        "client_steps ss (reporter_client t') = Inr (reporter_client t'')" by blast
    have "served simple_atoi ticks (r # rs) (map Completed (completions_before r) @ Send seg # ss)"
      by (rule served.traced [OF Inr h(4) i(2)])
    moreover have "client_steps (map Completed (completions_before r) @ Send seg # ss)
        (reporter_client t) = Inr (reporter_client t'')"
      by (simp add: client_steps_append c(1) h(5) i(3))
    moreover have "serve catches simple_atoi ends_with ticks (r # rs) t g = Inr (t'', g'')"
      by (simp add: c(2) h(1) i(1))
    ultimately show ?thesis by blast
  next
    case (Inl f)
    with Cons.prems(3) have m: "is_exception f" by (auto split: option.splits if_splits)
    from Cons.IH [OF c(3) Cons.prems(2) rest] obtain t'' g'' ss where
      i: "serve catches simple_atoi ends_with ticks rs (t\<lparr>reporter_client := c\<rparr>) g = Inr (t'', g'')"
        "served simple_atoi ticks rs ss" "client_steps ss c = Inr (reporter_client t'')" by auto
    have "served simple_atoi ticks (r # rs) (map Completed (completions_before r) @ ss)"
      by (rule served.refused [OF Inl m i(2)])
    moreover have "client_steps (map Completed (completions_before r) @ ss) (reporter_client t)
        = Inr (reporter_client t'')" by (simp add: client_steps_append c(1) i(3))
    moreover have "serve catches simple_atoi ends_with ticks (r # rs) t g = Inr (t'', g'')"
      using assms(4) by (simp add: c(2) handler_stops [OF Inl] m i(1) catches_spec_def)
    ultimately show ?thesis by blast
  qed
qed

section \<open>The server\<close>

definition contexts :: "(string \<Rightarrow> int32 option) \<Rightarrow> http_request list \<Rightarrow> span_context list" where
  "contexts simple_atoi rs = List.map_filter
     (\<lambda>r. case request_context simple_atoi r of Inl _ \<Rightarrow> None | Inr sc \<Rightarrow> Some sc) rs"

lemma sends_append [simp]: "sends (xs @ ys) = sends xs @ sends ys"
  by (induction xs rule: sends.induct) simp_all

lemma sends_completions [simp]: "sends (map Completed oks) = []"
  by (induction oks) simp_all

lemma served_traces:
  "served simple_atoi ticks rs ss \<Longrightarrow>
    map seg_traceid (sends ss) = map sc_trace_id (contexts simple_atoi rs)"
  by (induction rule: served.induct)
    (simp_all add: contexts_def server_segment_def)

lemma subseq_prefix: "subseq xs (xs @ ys)"
  by (simp add: prefix_imp_subseq)

lemma written_of_sent:
  assumes "client_steps log (createClient tok) = Inr c"
  shows "subseq (writes (wire c)) (sends log)"
proof -
  from after_steps [of log tok] assms obtain a where
    "implements c a" "reporter_inv a" "submitted a = sends log" by (metis sum.inject(2))
  then show ?thesis using subseq_order.trans [OF subseq_prefix]
    by (auto simp: implements_def implements_data_def reporter_inv_def)
qed

lemma served_length: "served simple_atoi ticks rs ss \<Longrightarrow> length (sends ss) \<le> length rs"
  by (induction rule: served.induct) simp_all

text \<open>As long as no more than 1025 messages have been sent, there is room for each.\<close>

lemma spec_all_accepted:
  assumes "length (queue a) + length (sends log) \<le> 1025"
  shows "attempted (spec_steps log a) @ queue (spec_steps log a) = attempted a @ queue a @ sends log"
  using assms
proof (induction log arbitrary: a rule: sends.induct)
  case (2 m ss)
  have "length (queue a) \<le> 1024" using "2.prems" by simp
  moreover have "length (queue (spec_send m a)) \<le> Suc (length (queue a))"
    by (auto simp: spec_send_def start_next_def Let_def dest: arg_cong [of _ _ length] split: list.split)
  ultimately show ?case using "2.IH" [of "spec_send m a"] "2.prems" spec_send_accepted [of m a] by simp
next
  case (3 ok ss)
  show ?case
  proof (cases "phase a = Idle")
    case False
    have "attempted (spec_event ok a) @ queue (spec_event ok a) = attempted a @ queue a"
      "length (queue (spec_event ok a)) \<le> length (queue a)"
      using False by (auto simp: spec_event_def start_next_def Let_def split: phase.splits list.splits)
    with "3.IH" [of "spec_event ok a"] "3.prems" False show ?thesis by simp
  qed (use 3 in simp)
qed simp

lemma all_accepted:
  assumes "client_steps log (createClient tok) = Inr c" and "length (sends log) \<le> Suc MaxPendingMessagesSize"
  shows "writes (wire c) @ buf (message_buffer c) = sends log"
proof -
  from after_steps [of log tok] assms(1) obtain a where
    a: "implements c a" "a = spec_steps log new_reporter" by (metis sum.inject(2))
  with spec_all_accepted [of new_reporter log] assms(2) show ?thesis
    by (simp add: implements_def implements_data_def new_reporter_def MaxPendingMessagesSize_def)
qed

lemma new_server:
  "\<exists>t. server_tracer = Inr t \<and> server_ready t \<and> reporter_client t = createClient ''''"
  by (simp add: server_tracer_def server_ready_def createInsecureGrpcTracer_def TracerImpl_def
      init_def server_init_def unset_config_def client_ready_new new_suffix_matcher_def
      TracingContextFactory_def)

text \<open>C4. The sample server handles requests until one is fatal, which is one without the header or
  one whose header overruns the array of fields: it ends in the fault of that request. Otherwise
  it goes on, malformed headers included, and its reporter goes through exactly this: the
  completions that come between the requests, and a call of \<open>sendMessage\<close> per accepted header, in
  the order of the requests, with the segment of that request, then the reset with which the program
  ends. So what has been written or waits when the requests are over is what there was room for, and
  all of it when there are at most 1025 requests; what is on the wire when the program has ended is a
  subsequence of what was handed over.\<close>

theorem sample_server_traces_requests:
  assumes "generator_ready g" and "ends_with_spec ends_with" and "catches_spec catches"
  shows "case first_fatal simple_atoi requests of
      Some f \<Rightarrow> sample_server_main catches simple_atoi ends_with ticks requests [ok] g = Inl f
    | None \<Rightarrow> \<exists>tracer ss client. sample_server_main catches simple_atoi ends_with ticks requests [ok] g = Inr tracer
        \<and> served simple_atoi ticks requests ss
        \<and> map seg_traceid (sends ss) = map sc_trace_id (contexts simple_atoi requests)
        \<and> client_steps ss (createClient '''') = Inr client
        \<and> resetClient [ok] client = Inr (reporter_client tracer)
        \<and> (length requests \<le> Suc MaxPendingMessagesSize \<longrightarrow>
            writes (wire client) @ buf (message_buffer client) = sends ss)
        \<and> subseq (writes (wire (reporter_client tracer))) (sends ss)"
proof -
  obtain t where t: "server_tracer = Inr t" "server_ready t" "reporter_client t = createClient ''''"
    using new_server by blast
  show ?thesis
  proof (cases "first_fatal simple_atoi requests")
    case (Some f)
    with serve_stops [OF t(2) assms Some, of ticks] show ?thesis
      by (simp add: sample_server_main_def t(1))
  next
    case None
    from serve_completes [OF t(2) assms None, of ticks] obtain t' g' ss where
      s: "serve catches simple_atoi ends_with ticks requests t g = Inr (t', g')"
        "served simple_atoi ticks requests ss"
        "client_steps ss (createClient '''') = Inr (reporter_client t')" by (auto simp: t(3))
    from after_steps [of ss "''''"] s(3) obtain a where
      a: "implements (reporter_client t') a"
      by (metis sum.inject(2))
    from reset_keeps_wire [OF a(1), of ok] obtain c where
      c: "resetClient [ok] (reporter_client t') = Inr c" "wire c = wire (reporter_client t')" by blast
    have "sample_server_main catches simple_atoi ends_with ticks requests [ok] g
        = Inr (t'\<lparr>reporter_client := c\<rparr>)"
      using s(1) c(1) by (simp add: sample_server_main_def destroy_tracer_def t(1))
    moreover have "subseq (writes (wire c)) (sends ss)"
      unfolding c(2) by (rule written_of_sent [OF s(3)])
    moreover have "writes (wire (reporter_client t')) @ buf (message_buffer (reporter_client t')) = sends ss"
      if "length requests \<le> Suc MaxPendingMessagesSize"
      by (rule all_accepted [OF s(3)]) (use that served_length [OF s(2)] in simp)
    ultimately show ?thesis using None s(2,3) c(1) served_traces [OF s(2)] by auto
  qed
qed

definition example_request :: "string \<Rightarrow> http_request" where
  "example_request h = \<lparr>get_header_value = (\<lambda>_. h), readings = (\<lambda>_. \<lparr>point = 0\<rparr>),
     completions_before = [True]\<rparr>"

lemma example_request_simps [simp]: "get_header_value (example_request h) name = h"
  by (simp add: example_request_def)

definition example_span_context :: span_context where
  "example_span_context = \<lparr>sc_sample = True, sc_trace_id = ''1'', sc_trace_segment_id = ''5'',
     sc_span_id = 3, sc_service = ''mesh'', sc_service_instance = ''instance'',
     sc_endpoint = ''/api/v1/health'', sc_target_address = ''example.com:8080''\<rparr>"

lemma example_contexts:
  "request_context decimal_atoi (example_request (sw8_text example_span_context))
    = Inr example_span_context"
  "request_context decimal_atoi (example_request ''1-x'')
    = Inl (TracerException ''Invalid span context format. It must have 8 fields.'')"
  "request_context decimal_atoi (example_request '''') = Inl NullDereference"
proof -
  have "SpanContextImpl decimal_atoi (sw8_text example_span_context) = Inr example_span_context"
    using SpanContextImpl_sw8_text [OF decimal_atoi_spec, of example_span_context]
    by (simp add: example_span_context_def)
  moreover from this have "sw8_text example_span_context \<noteq> ''''"
    by (auto simp: SpanContextImpl_eq Let_def)
  ultimately show "request_context decimal_atoi (example_request (sw8_text example_span_context))
    = Inr example_span_context" by (simp add: request_context_def createSpanContext_def Let_def)
qed (simp_all add: request_context_def createSpanContext_def SpanContextImpl_eq Let_def)

lemma exceptions_caught: "catches_spec is_exception"
  by (simp add: catches_spec_def)

theorem sample_server_traces_requests_witness:
  "(\<exists>tracer client. sample_server_main is_exception decimal_atoi ends_with_by_drop 1000000
        [example_request ''1-x'', example_request (sw8_text example_span_context)] [True]
        (new_generator (\<lambda>_. 0)) = Inr tracer
      \<and> resetClient [True] client = Inr (reporter_client tracer)
      \<and> map seg_traceid (writes (wire client) @ buf (message_buffer client)) = [''1''])
    \<and> sample_server_main is_exception decimal_atoi ends_with_by_drop 1000000
        [example_request (sw8_text example_span_context), example_request ''''] [True]
        (new_generator (\<lambda>_. 0)) = Inl NullDereference"
proof
  note run = sample_server_traces_requests [OF generator_ready_new [OF zero_draws]
      ends_with_by_drop_spec exceptions_caught, where simple_atoi = decimal_atoi and ticks = 1000000 and ok = True]
  have "length [example_request ''1-x'', example_request (sw8_text example_span_context)]
      \<le> Suc MaxPendingMessagesSize" by (simp add: MaxPendingMessagesSize_def)
  then show "\<exists>tracer client. sample_server_main is_exception decimal_atoi ends_with_by_drop 1000000
        [example_request ''1-x'', example_request (sw8_text example_span_context)] [True]
        (new_generator (\<lambda>_. 0)) = Inr tracer
      \<and> resetClient [True] client = Inr (reporter_client tracer)
      \<and> map seg_traceid (writes (wire client) @ buf (message_buffer client)) = [''1'']"
    using run [where requests = "[example_request ''1-x'', example_request (sw8_text example_span_context)]"]
    by (simp add: example_contexts contexts_def) (simp add: example_span_context_def, metis map_append)
  show "sample_server_main is_exception decimal_atoi ends_with_by_drop 1000000
        [example_request (sw8_text example_span_context), example_request ''''] [True]
        (new_generator (\<lambda>_. 0)) = Inl NullDereference"
    using run [where requests = "[example_request (sw8_text example_span_context), example_request '''']"]
    by (simp add: example_contexts)
qed

end
