(* ===== verification/Concurrent_Server.thy ===== *)
theory Concurrent_Server
  imports Sample_Server
begin

text \<open>
  The sample server (\<^verbatim>\<open>example/sample.cc\<close>) with the threads the HTTP library has: each takes
  requests off its connections, one after the other, and runs the handler; the tracer is shared.
  A handler moves from one use of the library to the next, and between its moves the other
  threads move, and the event loop of the reporter handles completions. A call of the reporter is one
  move here (its own interleavings are in \<^theory_text>\<open>Async_Client_Threads\<close>). The contexts are of the
  handler alone, the generator is of the thread (\<open>thread_local\<close> in \<^verbatim>\<open>utils/random_generator.cc\<close>).
\<close>

section \<open>Threads\<close>

text \<open>How far a thread is: without a request, with the context of one, inside and behind the block.\<close>

datatype activity =
    Free
  | Has_Context http_request "tracing_context option"
  | In_Block http_request span_handle tracing_context
  | Past_Block http_request tracing_context

record worker =
  activity :: activity
  to_handle :: "http_request list"
  thread_generator :: random_generator

type_synonym sample_tracer = "segment_object async_client tracer"

definition handler_context ::
  "(string \<Rightarrow> int32 option) \<Rightarrow> http_request \<Rightarrow> sample_tracer \<Rightarrow> random_generator
   \<Rightarrow> (tracing_context option \<times> random_generator) outcome"
where
  "handler_context simple_atoi r tracer g =
     (let context = get_header_value r kPropagationHeader
      in if context \<noteq> '''' then
           and_then (createSpanContext simple_atoi context) (\<lambda>span.
           and_then (newContext_from tracer (Some span) g) (\<lambda>(c, g). Inr (Some c, g)))
         else Inr (None, g))"

definition handler_step ::
  "(string \<Rightarrow> int32 option) \<Rightarrow> (string \<Rightarrow> string \<Rightarrow> bool) \<Rightarrow> int
   \<Rightarrow> sample_tracer \<Rightarrow> worker \<Rightarrow> (sample_tracer \<times> worker) outcome"
where
  "handler_step simple_atoi ends_with ticks tracer w =
     (case activity w of
       Free \<Rightarrow> (case to_handle w of
           [] \<Rightarrow> Inr (tracer, w)
         | r # rs \<Rightarrow> and_then (handler_context simple_atoi r tracer (thread_generator w)) (\<lambda>(c, g).
             Inr (tracer, \<lparr>activity = Has_Context r c, to_handle = rs, thread_generator = g\<rparr>)))
     | Has_Context r ctx \<Rightarrow>
         and_then (StartEntrySpan ctx (view_of ''sample_op3'') ticks (readings r 0)) (\<lambda>(h, c).
         Inr (tracer, w\<lparr>activity := In_Block r h c\<rparr>))
     | In_Block r h c \<Rightarrow>
         and_then (end_guard h ticks (readings r 1) c) (\<lambda>c.
         Inr (tracer, w\<lparr>activity := Past_Block r c\<rparr>))
     | Past_Block r c \<Rightarrow>
         and_then (report sendMessage ends_with (Some c) tracer) (\<lambda>(_, _, tracer).
         Inr (tracer, w\<lparr>activity := Free\<rparr>)))"

text \<open>A move of a thread: the library catches what it catches, and the thread is free again.\<close>

definition worker_step ::
  "(fault \<Rightarrow> bool) \<Rightarrow> (string \<Rightarrow> int32 option) \<Rightarrow> (string \<Rightarrow> string \<Rightarrow> bool) \<Rightarrow> int
   \<Rightarrow> sample_tracer \<Rightarrow> worker \<Rightarrow> (sample_tracer \<times> worker) outcome"
where
  "worker_step catches simple_atoi ends_with ticks tracer w =
     (case handler_step simple_atoi ends_with ticks tracer w of
       Inr x \<Rightarrow> Inr x
     | Inl f \<Rightarrow>
         if catches f then
           Inr (tracer, w\<lparr>activity := Free,
             to_handle := (if activity w = Free then tl (to_handle w) else to_handle w)\<rparr>)
         else Inl f)"

text \<open>In one go, the moves of a thread are the handler.\<close>

lemma handler_in_one_go:
  "ping_handler simple_atoi ends_with ticks (readings r) (get_header_value r) tracer g =
     and_then (handler_step simple_atoi ends_with ticks tracer
       \<lparr>activity = Free, to_handle = r # rs, thread_generator = g\<rparr>) (\<lambda>(tracer, w).
     and_then (handler_step simple_atoi ends_with ticks tracer w) (\<lambda>(tracer, w).
     and_then (handler_step simple_atoi ends_with ticks tracer w) (\<lambda>(tracer, w).
     and_then (handler_step simple_atoi ends_with ticks tracer w) (\<lambda>(tracer, w).
     Inr (tracer, thread_generator w)))))"
proof -
  have handler: "ping_handler simple_atoi ends_with ticks (readings r) (get_header_value r) tracer g =
     and_then (handler_context simple_atoi r tracer g) (\<lambda>(ctx, g).
     and_then (StartEntrySpan ctx (view_of ''sample_op3'') ticks (readings r 0)) (\<lambda>(h, c).
     and_then (end_guard h ticks (readings r 1) c) (\<lambda>c.
     if ctx \<noteq> None then
       and_then (report sendMessage ends_with (Some c) tracer) (\<lambda>(_, _, tracer). Inr (tracer, g))
     else Inr (tracer, g))))"
    unfolding ping_handler_def handler_context_def Let_def ..
  show ?thesis
  proof (cases "handler_context simple_atoi r tracer g")
    case (Inl f)
    then show ?thesis unfolding handler by (simp add: handler_step_def)
  next
    case (Inr p)
    obtain ctx g' where p: "p = (ctx, g')" by fastforce
    show ?thesis
    proof (cases "StartEntrySpan ctx (view_of ''sample_op3'') ticks (readings r 0)")
      case (Inr q)
      obtain h c where q: "q = (h, c)" by fastforce
      have some: "ctx \<noteq> None" using Inr by (cases ctx) (simp_all add: StartEntrySpan_def)
      show ?thesis
      proof (cases "end_guard h ticks (readings r 1) c")
        case (Inr c')
        show ?thesis
          using \<open>handler_context simple_atoi r tracer g = Inr p\<close> p q some Inr
            \<open>StartEntrySpan ctx (view_of ''sample_op3'') ticks (readings r 0) = Inr q\<close>
          by (cases "report sendMessage ends_with (Some c') tracer")
            (simp_all add: handler handler_step_def case_prod_unfold)
      qed (use \<open>handler_context simple_atoi r tracer g = Inr p\<close> Inr p q in
          \<open>simp add: handler handler_step_def\<close>)
    qed (use Inr p in \<open>simp add: handler handler_step_def\<close>)
  qed
qed

datatype turn = Turn_Of nat | Completion bool

record server =
  shared :: sample_tracer
  workers :: "worker list"

fun run_turns ::
  "(fault \<Rightarrow> bool) \<Rightarrow> (string \<Rightarrow> int32 option) \<Rightarrow> (string \<Rightarrow> string \<Rightarrow> bool) \<Rightarrow> int
   \<Rightarrow> turn list \<Rightarrow> server \<Rightarrow> server outcome"
where
  "run_turns catches simple_atoi ends_with ticks [] s = Inr s"
| "run_turns catches simple_atoi ends_with ticks (Turn_Of i # ts) s =
     (if i < length (workers s) then
        and_then (worker_step catches simple_atoi ends_with ticks (shared s) (workers s ! i))
          (\<lambda>(tracer, w). run_turns catches simple_atoi ends_with ticks ts
             \<lparr>shared = tracer, workers = (workers s)[i := w]\<rparr>)
      else run_turns catches simple_atoi ends_with ticks ts s)"
| "run_turns catches simple_atoi ends_with ticks (Completion ok # ts) s =
     and_then (handle_completions [ok] (shared s)) (\<lambda>tracer.
     run_turns catches simple_atoi ends_with ticks ts (s\<lparr>shared := tracer\<rparr>))"

text \<open>The server with one thread for each list of requests, a generator for each.\<close>

definition concurrent_server ::
  "(fault \<Rightarrow> bool) \<Rightarrow> (string \<Rightarrow> int32 option) \<Rightarrow> (string \<Rightarrow> string \<Rightarrow> bool) \<Rightarrow> int
   \<Rightarrow> turn list \<Rightarrow> (http_request list \<times> random_generator) list \<Rightarrow> server outcome"
where
  "concurrent_server catches simple_atoi ends_with ticks turns threads =
     and_then server_tracer (\<lambda>tracer.
     run_turns catches simple_atoi ends_with ticks turns \<lparr>shared = tracer,
       workers = map (\<lambda>(rs, g). \<lparr>activity = Free, to_handle = rs, thread_generator = g\<rparr>) threads\<rparr>)"

section \<open>What a thread has done\<close>

definition accepted_requests ::
  "(string \<Rightarrow> int32 option) \<Rightarrow> http_request list \<Rightarrow> (http_request \<times> span_context) list"
where
  "accepted_requests simple_atoi rs = List.map_filter
     (\<lambda>r. case request_context simple_atoi r of Inl _ \<Rightarrow> None | Inr sc \<Rightarrow> Some (r, sc)) rs"

definition segments_for ::
  "(string \<Rightarrow> int32 option) \<Rightarrow> int \<Rightarrow> http_request list \<Rightarrow> segment_object list \<Rightarrow> bool"
where
  "segments_for simple_atoi ticks rs segs \<longleftrightarrow>
     list_all2 (\<lambda>(r, sc) seg. server_segment ticks (readings r) sc seg)
       (accepted_requests simple_atoi rs) segs"

fun in_work :: "activity \<Rightarrow> http_request list" where
  "in_work Free = []"
| "in_work (Has_Context r _) = [r]"
| "in_work (In_Block r _ _) = [r]"
| "in_work (Past_Block r _) = [r]"

text \<open>The context of a request whose header is accepted, with the spans it has so far.\<close>

definition context_for :: "span_context \<Rightarrow> span_table \<Rightarrow> tracing_context \<Rightarrow> bool" where
  "context_for sc tab c \<longleftrightarrow> live c \<and> table_of c = tab
     \<and> (tab = [] \<longrightarrow> parent_span_context c = Some sc \<and> \<not> should_skip_analysis c)
     \<and> (\<exists>sgmt. names_of c = Some (sc_trace_id sc, sgmt, ''mesh'', ''node_0''))"

definition open_span :: "int \<Rightarrow> http_request \<Rightarrow> span_context \<Rightarrow> span_object" where
  "open_span ticks r sc = (entry_object (Some sc) False)\<lparr>so_operationname := ''sample_op3'',
     so_starttime := fetch ticks (readings r 0)\<rparr>"

definition closed_span :: "int \<Rightarrow> http_request \<Rightarrow> span_context \<Rightarrow> span_object" where
  "closed_span ticks r sc = (open_span ticks r sc)\<lparr>so_endtime := fetch ticks (readings r 1)\<rparr>"

fun activity_ok :: "(string \<Rightarrow> int32 option) \<Rightarrow> int \<Rightarrow> activity \<Rightarrow> bool" where
  "activity_ok simple_atoi ticks Free \<longleftrightarrow> True"
| "activity_ok simple_atoi ticks (Has_Context r ctx) \<longleftrightarrow>
     (case request_context simple_atoi r of
       Inl f \<Rightarrow> f = NullDereference \<and> ctx = None
     | Inr sc \<Rightarrow> \<exists>c. ctx = Some c \<and> context_for sc [] c)"
| "activity_ok simple_atoi ticks (In_Block r h c) \<longleftrightarrow> h = 0 \<and> (\<exists>sc.
     request_context simple_atoi r = Inr sc \<and> context_for sc [(open_span ticks r sc, False)] c)"
| "activity_ok simple_atoi ticks (Past_Block r c) \<longleftrightarrow> (\<exists>sc.
     request_context simple_atoi r = Inr sc \<and> context_for sc [(closed_span ticks r sc, True)] c)"

definition worker_ok ::
  "(string \<Rightarrow> int32 option) \<Rightarrow> int \<Rightarrow> http_request list \<Rightarrow> segment_object list \<Rightarrow> worker \<Rightarrow> bool"
where
  "worker_ok simple_atoi ticks rs segs w \<longleftrightarrow> generator_ready (thread_generator w)
     \<and> activity_ok simple_atoi ticks (activity w)
     \<and> (\<exists>handled. rs = handled @ in_work (activity w) @ to_handle w
          \<and> segments_for simple_atoi ticks handled segs)"

text \<open>The moves a thread has left at most.\<close>

definition moves_left :: "worker \<Rightarrow> nat" where
  "moves_left w = 4 * length (to_handle w)
     + (case activity w of Free \<Rightarrow> 0 | Has_Context _ _ \<Rightarrow> 3 | In_Block _ _ _ \<Rightarrow> 2 | Past_Block _ _ \<Rightarrow> 1)"

lemma accepted_append [simp]:
  "accepted_requests simple_atoi (xs @ ys) = accepted_requests simple_atoi xs @ accepted_requests simple_atoi ys"
  by (induction xs) (simp_all add: accepted_requests_def split: option.splits)

lemma accepted_one [simp]:
  "request_context simple_atoi r = Inl f \<Longrightarrow> accepted_requests simple_atoi [r] = []"
  "request_context simple_atoi r = Inr sc \<Longrightarrow> accepted_requests simple_atoi [r] = [(r, sc)]"
  by (simp_all add: accepted_requests_def)

lemma segments_for_snoc:
  assumes "segments_for simple_atoi ticks rs segs"
  shows "request_context simple_atoi r = Inl f \<Longrightarrow> segments_for simple_atoi ticks (rs @ [r]) segs"
    and "request_context simple_atoi r = Inr sc \<Longrightarrow> server_segment ticks (readings r) sc seg \<Longrightarrow>
      segments_for simple_atoi ticks (rs @ [r]) (segs @ [seg])"
  using assms by (simp_all add: segments_for_def list_all2_appendI)

section \<open>The moves of a thread\<close>

lemma handler_context_refused:
  assumes "request_context simple_atoi r = Inl f"
  shows "handler_context simple_atoi r t g = (if get_header_value r kPropagationHeader = ''''
    then Inr (None, g) else Inl f)"
    and "get_header_value r kPropagationHeader = '''' \<Longrightarrow> f = NullDereference"
  using assms by (auto simp: handler_context_def request_context_def Let_def split: if_splits)

lemma handler_context_accepted:
  assumes "request_context simple_atoi r = Inr sc" and "server_ready t" and "generator_ready g"
  shows "\<exists>c g'. handler_context simple_atoi r t g = Inr (Some c, g') \<and> generator_ready g'
    \<and> context_for sc [] c"
proof -
  from incoming_context [OF assms(3), of t sc] obtain c g' seg where
    c: "newContext_from t (Some sc) g = Inr (c, g')" "generator_ready g'"
    and impl: "TracingContextImpl uuid (factory_service_name (segment_factory t))
      (factory_instance_name (segment_factory t)) (Some sc) None g = Inr (c, g')"
    and seg: "segment_store c = Some seg" "seg_traceid seg = sc_trace_id sc" by blast
  have "seg_service seg = ''mesh''" "seg_serviceinstance seg = ''node_0''"
    using impl seg assms(2) by (auto simp: TracingContextImpl_def outcome_eqs server_ready_def)
  with new_context [OF impl] seg have "context_for sc [] c"
    by (simp add: context_for_def live_def names_of_def)
  with c assms(1) show ?thesis
    by (auto simp: handler_context_def request_context_def Let_def split: if_splits)
qed

lemma block_entered:
  assumes "context_for sc [] c"
  shows "\<exists>c'. StartEntrySpan (Some c) (view_of ''sample_op3'') ticks (readings r 0) = Inr (0, c')
    \<and> context_for sc [(open_span ticks r sc, False)] c'"
proof -
  have c: "live c" "table_of c = []" "parent_span_context c = Some sc" "\<not> should_skip_analysis c"
    using assms by (simp_all add: context_for_def)
  from StartEntrySpan_live [OF c(1,2) sample_names(3), of ticks "readings r 0"] c(3,4) obtain c' where
    c': "StartEntrySpan (Some c) (view_of ''sample_op3'') ticks (readings r 0) = Inr (0, c')" "live c'"
      "\<not> should_skip_analysis c'" "table_of c' = [(open_span ticks r sc, False)]"
    by (auto simp: open_span_def)
  have "names_of c' = names_of c"
    by (rule names_of_calls [OF entry_guard_calls [OF c'(1) sample_names(3)] c(1)])
  with assms c' show ?thesis by (auto simp: context_for_def)
qed

lemma block_left:
  assumes "context_for sc [(open_span ticks r sc, False)] c"
  shows "\<exists>c'. end_guard 0 ticks (readings r 1) c = Inr c'
    \<and> context_for sc [(closed_span ticks r sc, True)] c'"
proof -
  have c: "live c" "table_of c = [] @ (open_span ticks r sc, False) # []"
    using assms by (simp_all add: context_for_def)
  from end_guard_live [OF c, of 0 ticks "readings r 1"] obtain c' where
    c': "end_guard 0 ticks (readings r 1) c = Inr c'" "live c'"
      "table_of c' = [(closed_span ticks r sc, True)]" by (auto simp: closed_span_def)
  have "names_of c' = names_of c" by (rule names_of_calls [OF end_guard_calls [OF c'(1)] c(1)])
  with assms c' show ?thesis by (auto simp: context_for_def)
qed

lemma segment_reported:
  assumes "context_for sc [(closed_span ticks r sc, True)] c" and "server_ready t"
    and "ends_with_spec ends_with"
  shows "\<exists>c' t' seg. report sendMessage ends_with (Some c) t = Inr (True, c', t') \<and> server_ready t'
    \<and> sendMessage seg (reporter_client t) = Inr (reporter_client t')
    \<and> server_segment ticks (readings r) sc seg"
proof -
  from assms(1) obtain seg where c: "segment_store c = Some seg" "context_inv c"
    and tab: "table_of c = [(closed_span ticks r sc, True)]"
    and names: "seg_traceid seg = sc_trace_id sc" "seg_service seg = ''mesh''"
      "seg_serviceinstance seg = ''node_0''"
    by (auto simp: context_for_def live_def names_of_def)
  have t: "client_ready (reporter_client t)" "target_suffixes (ignore_matcher t) = []"
    using assms(2) by (simp_all add: server_ready_def)
  have "list_all snd (table_of c)" "\<not> ignored_table (ignore_matcher t) (table_of c)"
    by (simp_all add: tab ignored_table_def t(2))
  from grpc_sink.report_accepted [OF c assms(3) this t(1)] obtain client where
    r: "report sendMessage ends_with (Some c) t
      = Inr (True, Some (c\<lparr>spans := [], segment_store := None\<rparr>), t\<lparr>reporter_client := client\<rparr>)"
    and client: "sendMessage seg (reporter_client t) = Inr client" "client_ready client" by blast
  have "server_segment ticks (readings r) sc seg"
    using seg_spans_table [OF c] names
    by (simp add: server_segment_def tab closed_span_def open_span_def)
  moreover have "server_ready (t\<lparr>reporter_client := client\<rparr>)"
    using assms(2) client(2) by (simp add: server_ready_def)
  ultimately show ?thesis using r client(1) by auto
qed

text \<open>
  A move keeps the account of the thread, uses up at least one of its moves, and reaches the
  reporter at most once, with the segment of the request. Or it is fatal, as the request is.
\<close>

lemma worker_moves:
  assumes "server_ready t" and "worker_ok simple_atoi ticks rs segs w"
    and "ends_with_spec ends_with" and "catches_spec catches"
  shows "case worker_step catches simple_atoi ends_with ticks t w of
      Inl f \<Rightarrow> \<exists>r \<in> set rs. fatal (request_context simple_atoi r) = Some f
    | Inr (t', w') \<Rightarrow> server_ready t' \<and> moves_left w' \<le> moves_left w - 1
        \<and> (t' = t \<and> worker_ok simple_atoi ticks rs segs w'
          \<or> (\<exists>seg. sendMessage seg (reporter_client t) = Inr (reporter_client t')
               \<and> worker_ok simple_atoi ticks rs (segs @ [seg]) w'))"
proof -
  from assms(2) obtain handled where w: "generator_ready (thread_generator w)"
    "activity_ok simple_atoi ticks (activity w)"
    "rs = handled @ in_work (activity w) @ to_handle w" "segments_for simple_atoi ticks handled segs"
    by (auto simp: worker_ok_def)
  have catches: "catches x = is_exception x" for x using assms(4) by (simp add: catches_spec_def)
  show ?thesis
  proof (cases "activity w")
    case Free
    show ?thesis
    proof (cases "to_handle w")
      case Nil
      with Free assms(1,2) show ?thesis
        by (simp add: worker_step_def handler_step_def moves_left_def)
    next
      case (Cons r rest)
      show ?thesis
      proof (cases "request_context simple_atoi r")
        case (Inr sc)
        from handler_context_accepted [OF Inr assms(1) w(1)] obtain c g' where
          "handler_context simple_atoi r t (thread_generator w) = Inr (Some c, g')"
          "generator_ready g'" "context_for sc [] c" by blast
        with Free Cons Inr assms(1) w(3,4) show ?thesis
          by (auto simp: worker_step_def handler_step_def worker_ok_def moves_left_def)
      next
        case (Inl f)
        note refused = handler_context_refused [OF Inl]
        from w(3) Free Cons have rs: "rs = (handled @ [r]) @ rest" by simp
        show ?thesis
        proof (cases "get_header_value r kPropagationHeader = ''''")
          case True
          with Free Cons Inl refused assms(1) w show ?thesis
            by (auto simp: worker_step_def handler_step_def worker_ok_def moves_left_def)
        next
          case False
          with Free Cons Inl refused(1) assms(1) w(1) rs segments_for_snoc(1) [OF w(4) Inl]
          show ?thesis
            by (auto simp: worker_step_def handler_step_def worker_ok_def moves_left_def catches)
        qed
      qed
    qed
  next
    case (Has_Context r ctx)
    show ?thesis
    proof (cases "request_context simple_atoi r")
      case (Inr sc)
      with Has_Context w(2) obtain c where "ctx = Some c" "context_for sc [] c" by auto
      with block_entered [OF this(2), of ticks r] Has_Context Inr assms(1) w show ?thesis
        by (auto simp: worker_step_def handler_step_def worker_ok_def moves_left_def)
    next
      case (Inl f)
      with Has_Context w(2,3) show ?thesis
        by (auto simp: worker_step_def handler_step_def StartEntrySpan_def catches is_exception_def)
    qed
  next
    case (In_Block r h c)
    with w(2) obtain sc where "h = 0" "request_context simple_atoi r = Inr sc"
      "context_for sc [(open_span ticks r sc, False)] c" by auto
    with block_left [OF this(3)] In_Block assms(1) w show ?thesis
      by (auto simp: worker_step_def handler_step_def worker_ok_def moves_left_def)
  next
    case (Past_Block r c)
    with w(2) obtain sc where sc: "request_context simple_atoi r = Inr sc"
      "context_for sc [(closed_span ticks r sc, True)] c" by auto
    from segment_reported [OF sc(2) assms(1,3)] obtain c' t' seg where
      rep: "report sendMessage ends_with (Some c) t = Inr (True, c', t')" "server_ready t'"
        "sendMessage seg (reporter_client t) = Inr (reporter_client t')"
        "server_segment ticks (readings r) sc seg" by blast
    from w(3) Past_Block have rs: "rs = (handled @ [r]) @ to_handle w" by simp
    from segments_for_snoc(2) [OF w(4) sc(1) rep(4)]
    have "worker_ok simple_atoi ticks rs (segs @ [seg]) (w\<lparr>activity := Free\<rparr>)"
      using w(1) rs by (auto simp: worker_ok_def)
    with Past_Block rep show ?thesis
      by (auto simp: worker_step_def handler_step_def moves_left_def)
  qed
qed

lemma worker_done:
  assumes "worker_ok simple_atoi ticks rs segs w" and "moves_left w \<le> 4 * length rs - k"
  shows "\<exists>handled. rs = handled @ in_work (activity w) @ to_handle w
    \<and> segments_for simple_atoi ticks handled segs \<and> (4 * length rs \<le> k \<longrightarrow> handled = rs)"
proof -
  have "to_handle w = [] \<and> activity w = Free" if "4 * length rs \<le> k"
    using that assms(2) by (cases "activity w") (simp_all add: moves_left_def)
  with assms(1) show ?thesis by (auto simp: worker_ok_def)
qed

section \<open>The server\<close>

text \<open>The segments that thread \<open>i\<close> handed to the reporter, of all that were handed to it.\<close>

definition sent_by :: "nat \<Rightarrow> (nat \<times> segment_object) list \<Rightarrow> segment_object list" where
  "sent_by i tagged = map snd (filter (\<lambda>(j, seg). j = i) tagged)"

lemma sent_by_simps [simp]:
  "sent_by i [] = []"
  "sent_by i (tagged @ [(j, seg)]) = sent_by i tagged @ (if j = i then [seg] else [])"
  by (simp_all add: sent_by_def)

text \<open>The account of the server: what its reporter went through, and what each thread has done.\<close>

definition server_account ::
  "(string \<Rightarrow> int32 option) \<Rightarrow> int \<Rightarrow> http_request list list \<Rightarrow> server
   \<Rightarrow> segment_object client_step list \<Rightarrow> (nat \<times> segment_object) list \<Rightarrow> bool"
where
  "server_account simple_atoi ticks rss s log tagged \<longleftrightarrow> server_ready (shared s)
     \<and> length (workers s) = length rss
     \<and> client_steps log (createClient '''') = Inr (reporter_client (shared s))
     \<and> sends log = map snd tagged
     \<and> (\<forall>i < length rss. worker_ok simple_atoi ticks (rss ! i) (sent_by i tagged) (workers s ! i))"

lemma account_turn:
  assumes "server_account simple_atoi ticks rss s log tagged" and "i < length rss"
    and "ends_with_spec ends_with" and "catches_spec catches"
  shows "case worker_step catches simple_atoi ends_with ticks (shared s) (workers s ! i) of
      Inl f \<Rightarrow> \<exists>r \<in> set (concat rss). fatal (request_context simple_atoi r) = Some f
    | Inr (t', w') \<Rightarrow> moves_left w' \<le> moves_left (workers s ! i) - 1
        \<and> (\<exists>log' tagged'. server_account simple_atoi ticks rss
            \<lparr>shared = t', workers = (workers s)[i := w']\<rparr> log' tagged')"
proof -
  have s: "server_ready (shared s)" "length (workers s) = length rss"
    "client_steps log (createClient '''') = Inr (reporter_client (shared s))" "sends log = map snd tagged"
    and ok: "\<And>j. j < length rss \<Longrightarrow>
      worker_ok simple_atoi ticks (rss ! j) (sent_by j tagged) (workers s ! j)"
    using assms(1) by (simp_all add: server_account_def)
  note move = worker_moves [OF s(1) ok [OF assms(2)] assms(3,4)]
  show ?thesis
  proof (cases "worker_step catches simple_atoi ends_with ticks (shared s) (workers s ! i)")
    case (Inl f)
    with move have "\<exists>r \<in> set (rss ! i). fatal (request_context simple_atoi r) = Some f" by simp
    with assms(2) Inl show ?thesis by auto
  next
    case (Inr p)
    obtain t' w' where p: "p = (t', w')" by fastforce
    from move Inr p have step: "server_ready t'" "moves_left w' \<le> moves_left (workers s ! i) - 1"
      and alt: "t' = shared s \<and> worker_ok simple_atoi ticks (rss ! i) (sent_by i tagged) w'
          \<or> (\<exists>seg. sendMessage seg (reporter_client (shared s)) = Inr (reporter_client t')
               \<and> worker_ok simple_atoi ticks (rss ! i) (sent_by i tagged @ [seg]) w')" by simp_all
    let ?s = "\<lparr>shared = t', workers = (workers s)[i := w']\<rparr>"
    from alt have "\<exists>log' tagged'. server_account simple_atoi ticks rss ?s log' tagged'"
    proof
      assume here: "t' = shared s \<and> worker_ok simple_atoi ticks (rss ! i) (sent_by i tagged) w'"
      have "worker_ok simple_atoi ticks (rss ! j) (sent_by j tagged) ((workers s)[i := w'] ! j)"
        if "j < length rss" for j using that here ok s(2) by (cases "j = i") simp_all
      with s here have "server_account simple_atoi ticks rss ?s log tagged"
        by (simp add: server_account_def)
      then show ?thesis by blast
    next
      assume "\<exists>seg. sendMessage seg (reporter_client (shared s)) = Inr (reporter_client t')
        \<and> worker_ok simple_atoi ticks (rss ! i) (sent_by i tagged @ [seg]) w'"
      then obtain seg where seg: "sendMessage seg (reporter_client (shared s)) = Inr (reporter_client t')"
        "worker_ok simple_atoi ticks (rss ! i) (sent_by i tagged @ [seg]) w'" by blast
      have "worker_ok simple_atoi ticks (rss ! j) (sent_by j (tagged @ [(i, seg)])) ((workers s)[i := w'] ! j)"
        if "j < length rss" for j using that seg(2) ok s(2) by (cases "j = i") simp_all
      with s seg(1) step(1) have "server_account simple_atoi ticks rss ?s (log @ [Send seg]) (tagged @ [(i, seg)])"
        by (simp add: server_account_def client_steps_append)
      then show ?thesis by blast
    qed
    with Inr p step(2) show ?thesis by simp
  qed
qed

lemma account_completion:
  assumes "server_account simple_atoi ticks rss s log tagged"
  shows "\<exists>t'. handle_completions [ok] (shared s) = Inr t'
    \<and> server_account simple_atoi ticks rss (s\<lparr>shared := t'\<rparr>) (log @ [Completed ok]) tagged"
proof -
  have "server_ready (shared s)" using assms by (simp add: server_account_def)
  from completions_handled [OF this, of "[ok]"] obtain c where
    c: "client_steps [Completed ok] (reporter_client (shared s)) = Inr c"
      "handle_completions [ok] (shared s) = Inr ((shared s)\<lparr>reporter_client := c\<rparr>)"
      "server_ready ((shared s)\<lparr>reporter_client := c\<rparr>)" by auto
  then have "client_steps (log @ [Completed ok]) (createClient '''') = Inr c"
    "sends (log @ [Completed ok]) = map snd tagged"
    using assms by (simp_all add: server_account_def client_steps_append)
  with c assms show ?thesis by (auto simp: server_account_def)
qed

lemma run_accounted:
  assumes "server_account simple_atoi ticks rss s log tagged"
    and "ends_with_spec ends_with" and "catches_spec catches"
  shows "case run_turns catches simple_atoi ends_with ticks turns s of
      Inl f \<Rightarrow> \<exists>r \<in> set (concat rss). fatal (request_context simple_atoi r) = Some f
    | Inr s' \<Rightarrow> \<exists>log' tagged'. server_account simple_atoi ticks rss s' log' tagged'
        \<and> (\<forall>i < length rss. moves_left (workers s' ! i)
             \<le> moves_left (workers s ! i) - count_list turns (Turn_Of i))"
  using assms(1)
proof (induction turns arbitrary: s log tagged)
  case (Cons turn turns)
  show ?case
  proof (cases turn)
    case (Completion ok)
    from account_completion [OF Cons.prems, of ok] obtain t' where
      t': "handle_completions [ok] (shared s) = Inr t'"
      "server_account simple_atoi ticks rss (s\<lparr>shared := t'\<rparr>) (log @ [Completed ok]) tagged" by blast
    from Cons.IH [OF t'(2)] t'(1) Completion show ?thesis
      by (cases "run_turns catches simple_atoi ends_with ticks turns (s\<lparr>shared := t'\<rparr>)") simp_all
  next
    case (Turn_Of i)
    have len: "length (workers s) = length rss" using Cons.prems by (simp add: server_account_def)
    show ?thesis
    proof (cases "i < length rss")
      case False
      with Cons.IH [OF Cons.prems] Turn_Of len show ?thesis
        by (auto split: sum.splits)
    next
      case True
      note turn = account_turn [OF Cons.prems True assms(2,3)]
      show ?thesis
      proof (cases "worker_step catches simple_atoi ends_with ticks (shared s) (workers s ! i)")
        case (Inl f)
        with turn Turn_Of True len show ?thesis by simp
      next
        case (Inr p)
        obtain t' w' where p: "p = (t', w')" by fastforce
        let ?s = "\<lparr>shared = t', workers = (workers s)[i := w']\<rparr>"
        from turn Inr p obtain log' tagged' where
          acc: "server_account simple_atoi ticks rss ?s log' tagged'"
          and less: "moves_left w' \<le> moves_left (workers s ! i) - 1" by auto
        have "x \<le> moves_left (workers s ! j) - count_list (turn # turns) (Turn_Of j)"
          if "x \<le> moves_left (workers ?s ! j) - count_list turns (Turn_Of j)" "j < length rss" for x j
          using that less Turn_Of True len by (cases "j = i") auto
        moreover have "run_turns catches simple_atoi ends_with ticks (turn # turns) s
            = run_turns catches simple_atoi ends_with ticks turns ?s"
          using Turn_Of True len Inr p by simp
        ultimately show ?thesis using Cons.IH [OF acc]
          by (cases "run_turns catches simple_atoi ends_with ticks turns ?s") auto
      qed
    qed
  qed
qed auto

text \<open>C5. Requests handled at the same time do not get in each other's way. However the threads of
  the server and the completions of its reporter are interleaved, it runs on unless some request
  is fatal; the reporter has been handed one segment per accepted header that a thread has dealt
  with, each thread's in the order of its requests and each made of its own request, and what is
  written is a subsequence of that; and a thread that gets four moves per request has dealt with
  all of its requests.\<close>

theorem concurrent_requests_are_traced:
  assumes "list_all generator_ready (map snd threads)"
    and "ends_with_spec ends_with" and "catches_spec catches"
  shows "case concurrent_server catches simple_atoi ends_with ticks turns threads of
      Inl f \<Rightarrow> \<exists>r \<in> set (concat (map fst threads)). fatal (request_context simple_atoi r) = Some f
    | Inr s \<Rightarrow> \<exists>log tagged. client_steps log (createClient '''') = Inr (reporter_client (shared s))
        \<and> sends log = map snd tagged
        \<and> subseq (writes (wire (reporter_client (shared s)))) (sends log)
        \<and> (\<forall>i < length threads. \<exists>handled.
             fst (threads ! i) = handled @ in_work (activity (workers s ! i)) @ to_handle (workers s ! i)
             \<and> segments_for simple_atoi ticks handled (sent_by i tagged)
             \<and> (4 * length (fst (threads ! i)) \<le> count_list turns (Turn_Of i)
                  \<longrightarrow> handled = fst (threads ! i)))"
proof -
  obtain t where t: "server_tracer = Inr t" "server_ready t" "reporter_client t = createClient ''''"
    using new_server by blast
  let ?s = "\<lparr>shared = t,
    workers = map (\<lambda>(rs, g). \<lparr>activity = Free, to_handle = rs, thread_generator = g\<rparr>) threads\<rparr>"
  have "worker_ok simple_atoi ticks (fst (threads ! i)) [] (workers ?s ! i)" if "i < length threads" for i
    using that assms(1)
    by (simp add: list_all_length worker_ok_def case_prod_unfold segments_for_def accepted_requests_def)
  then have "server_account simple_atoi ticks (map fst threads) ?s [] []"
    using t by (simp add: server_account_def)
  note run = run_accounted [OF this assms(2,3), of turns]
  have start: "concurrent_server catches simple_atoi ends_with ticks turns threads
      = run_turns catches simple_atoi ends_with ticks turns ?s"
    by (simp add: concurrent_server_def t(1))
  show ?thesis
  proof (cases "run_turns catches simple_atoi ends_with ticks turns ?s")
    case (Inl f)
    with run start show ?thesis by simp
  next
    case (Inr s)
    with run obtain log tagged where
      acc: "server_account simple_atoi ticks (map fst threads) s log tagged"
      and left: "\<And>i. i < length threads \<Longrightarrow> moves_left (workers s ! i)
        \<le> moves_left (workers ?s ! i) - count_list turns (Turn_Of i)" by auto
    have client: "client_steps log (createClient '''') = Inr (reporter_client (shared s))"
      "sends log = map snd tagged" using acc by (simp_all add: server_account_def)
    note sub = written_of_sent [OF client(1)]
    have "\<exists>handled. fst (threads ! i) = handled @ in_work (activity (workers s ! i)) @ to_handle (workers s ! i)
        \<and> segments_for simple_atoi ticks handled (sent_by i tagged)
        \<and> (4 * length (fst (threads ! i)) \<le> count_list turns (Turn_Of i) \<longrightarrow> handled = fst (threads ! i))"
      if i: "i < length threads" for i
      using acc left [OF i] i
      by (intro worker_done) (simp_all add: server_account_def moves_left_def case_prod_unfold)
    with client sub show ?thesis unfolding start Inr sum.case by blast
  qed
qed

theorem concurrent_requests_are_traced_witness:
  "\<exists>s log tagged. concurrent_server is_exception decimal_atoi ends_with_by_drop 1000000
      [Turn_Of 0, Turn_Of 1, Turn_Of 1, Completion True, Turn_Of 0, Turn_Of 1, Turn_Of 1, Turn_Of 0,
       Turn_Of 0]
      [([example_request (sw8_text example_span_context)], new_generator (\<lambda>_. 0)),
       ([example_request (sw8_text example_span_context)], new_generator (\<lambda>_. 1))] = Inr s
    \<and> client_steps log (createClient '''') = Inr (reporter_client (shared s))
    \<and> sends log = map snd tagged
    \<and> map seg_traceid (sent_by 0 tagged) = [''1''] \<and> map seg_traceid (sent_by 1 tagged) = [''1'']"
  (is "\<exists>s log tagged. concurrent_server _ _ _ _ ?turns ?threads = _ \<and> _")
proof -
  have gens: "list_all generator_ready (map snd ?threads)"
    by (auto intro!: generator_ready_new simp: draws_in_range_def CHARS_def)
  note run = concurrent_requests_are_traced [OF gens ends_with_by_drop_spec exceptions_caught,
      where simple_atoi = decimal_atoi and ticks = 1000000 and turns = ?turns]
  have accepted: "accepted_requests decimal_atoi [example_request (sw8_text example_span_context)]
      = [(example_request (sw8_text example_span_context), example_span_context)]"
    by (simp add: example_contexts)
  have calm: "\<not> (\<exists>r \<in> set (concat (map fst ?threads)). fatal (request_context decimal_atoi r) = Some f)" for f
    by (simp add: example_contexts)
  show ?thesis
  proof (cases "concurrent_server is_exception decimal_atoi ends_with_by_drop 1000000 ?turns ?threads")
    case (Inl f)
    from run [unfolded Inl sum.case] calm [of f] show ?thesis by blast
  next
    case (Inr s)
    from run [unfolded Inr sum.case] obtain log tagged where
      s: "client_steps log (createClient '''') = Inr (reporter_client (shared s))" "sends log = map snd tagged"
      and all: "\<And>i. i < length ?threads \<Longrightarrow> \<exists>handled. segments_for decimal_atoi 1000000 handled (sent_by i tagged)
        \<and> (4 * length (fst (?threads ! i)) \<le> count_list ?turns (Turn_Of i) \<longrightarrow> handled = fst (?threads ! i))"
      by blast
    have "segments_for decimal_atoi 1000000 [example_request (sw8_text example_span_context)] (sent_by i tagged)"
      if "i \<in> {0, 1}" for i
    proof -
      have "i < length ?threads" "4 * length (fst (?threads ! i)) \<le> count_list ?turns (Turn_Of i)"
        "fst (?threads ! i) = [example_request (sw8_text example_span_context)]" using that by auto
      with all [of i] show ?thesis by auto
    qed
    then have "map seg_traceid (sent_by i tagged) = [''1'']" if "i \<in> {0, 1}" for i
      using that accepted
      by (fastforce simp: segments_for_def list_all2_Cons1 server_segment_def example_span_context_def)
    with s Inr show ?thesis by (intro exI [of _ s] exI [of _ log] exI [of _ tagged]) simp
  qed
qed

end
