(* ===== verification/Span_Tree.thy ===== *)
theory Span_Tree
  imports Segment_Table
begin

text \<open>
  What the collector may rely on in a segment: the spans form a tree. The first is the entry
  span, with the parent id \<open>-1\<close> and a reference to the sender of the request; every other span is
  an exit span, whose parent id is the id of an earlier span of the segment. The calls that
  would break this are the setters of the parent id and of the type, which the application can
  reach but the guards of \<^theory_text>\<open>Span_Guards\<close> do not use.
\<close>

section \<open>The type of a span\<close>

definition parent_refs :: "span_context option \<Rightarrow> segment_reference list" where
  "parent_refs parent = (case parent of None \<Rightarrow> [] | Some p \<Rightarrow> [segment_ref_of p])"

definition tree_span :: "span_context option \<Rightarrow> nat \<Rightarrow> span_object \<Rightarrow> bool" where
  "tree_span parent i so \<longleftrightarrow> so_spanlayer so \<noteq> None \<and>
     (if i = 0 then so_spantype so = Some Entry \<and> so_parentspanid so = - 1
        \<and> prefix (parent_refs parent) (so_refs so)
      else so_spantype so = Some Exit \<and> (\<exists>p<i. so_parentspanid so = word_of_nat p))"

definition tree_table :: "span_context option \<Rightarrow> span_table \<Rightarrow> bool" where
  "tree_table parent tab \<longleftrightarrow> (\<forall>i<length tab. tree_span parent i (fst (tab ! i)))"

definition keeps_tree :: "context_call \<Rightarrow> bool" where
  "keeps_tree x = (case x of
     Change_Span ch _ \<Rightarrow>
       (case ch of Set_Parent_Span_Id _ \<Rightarrow> False | Set_Span_Type _ \<Rightarrow> False | _ \<Rightarrow> True)
   | _ \<Rightarrow> True)"

lemma tree_span_changed:
  "tree_span parent i so \<Longrightarrow> keeps_tree (Change_Span ch h) \<Longrightarrow> tree_span parent i (changed ch so)"
  by (cases ch) (auto simp: tree_span_def keeps_tree_def)

lemma tree_table_call:
  assumes "table_call parent skip x tab = Inr tab'" and "tree_table parent tab"
    and "call_ok (length tab) x" and "keeps_tree x"
  shows "tree_table parent tab'"
proof (cases x)
  case Create_Entry_Span
  with assms(1,2) show ?thesis
    by (auto simp: tree_table_def tree_span_def entry_object_def parent_refs_def
        split: if_splits option.split)
next
  case (Create_Exit_Span p)
  then obtain q where q: "p = Some q" "q < length tab"
    "tab' = tab @ [(exit_object (length tab) q skip, False)]"
    using assms(1,3) by (cases p) auto
  then have "tree_span parent (length tab) (exit_object (length tab) q skip)"
    by (auto simp: tree_span_def exit_object_def)
  with q assms(2) show ?thesis by (auto simp: tree_table_def nth_append less_Suc_eq)
next
  case (Change_Span ch h)
  with assms tree_span_changed [of parent h "fst (tab ! h)" ch h] show ?thesis
    by (auto simp: tree_table_def nth_list_update split: if_splits)
next
  case Skip_Analysis
  with assms(1,2) show ?thesis by simp
qed

lemma tree_table_calls:
  "table_calls parent skip xs tab = Inr tab' \<Longrightarrow> tree_table parent tab \<Longrightarrow>
     calls_ok (length tab) xs \<Longrightarrow> list_all keeps_tree xs \<Longrightarrow> tree_table parent tab'"
proof (induction xs arbitrary: skip tab)
  case (Cons x xs)
  from Cons.prems obtain t where t: "table_call parent skip x tab = Inr t"
    "table_calls parent (skip \<or> x = Skip_Analysis) xs t = Inr tab'"
    by (auto simp: outcome_eqs)
  moreover from tree_table_call [OF t(1)] Cons.prems have "tree_table parent t" by simp
  ultimately show ?case using Cons.IH Cons.prems table_call_length [OF t(1)] by simp
qed simp

section \<open>Following the parents\<close>

definition parent_position :: "span_object list \<Rightarrow> nat \<Rightarrow> nat" where
  "parent_position sos i = nat (sint (so_parentspanid (sos ! i)))"

lemma parents_lead_to_entry:
  assumes "\<forall>i<length sos. tree_span parent i (sos ! i)" and "length sos \<le> 2 ^ 31"
  shows "i < length sos \<Longrightarrow> \<exists>k\<le>i. (parent_position sos ^^ k) i = 0"
proof (induction i rule: less_induct)
  case (less i)
  show ?case
  proof (cases "i = 0")
    case True
    then show ?thesis by (intro exI [of _ 0]) simp
  next
    case False
    have "tree_span parent i (sos ! i)" using assms(1) less.prems by blast
    with False obtain p where p: "p < i" "so_parentspanid (sos ! i) = word_of_nat p"
      by (auto simp: tree_span_def)
    then have "p < 2 ^ 31" using less.prems assms(2) by linarith
    then have step: "parent_position sos i = p"
      by (simp add: parent_position_def p(2) signed_of_nat signed_take_bit_int_eq_self)
    from less.IH [OF p(1)] p(1) less.prems obtain k where
      k: "k \<le> p" "(parent_position sos ^^ k) p = 0" by auto
    then show ?thesis using step p(1) by (intro exI [of _ "Suc k"]) (simp add: funpow_swap1)
  qed
qed

text \<open>C20. A reported segment is a tree with the entry span at its root, whatever the application did
  short of setting parent ids and types itself, as long as there are at most \<open>2 ^ 31\<close> spans: the
  spans are numbered by position, the first
  is an entry span with parent \<open>-1\<close> that starts its references with the sender's, every other is
  an exit span with the id of an earlier span as its parent, so that following the parents from
  any span ends at the entry span; and every span has a layer.\<close>

theorem reported_spans_form_a_tree:
  assumes "TracingContextImpl next_id service_name instance_name parent ext g = Inr (c, g')"
    and "calls_ok 0 xs" and "list_all keeps_tree xs" and "do_calls xs c = Inr c'"
    and "createSegmentObject c' = Inr (seg, c'')" and "length (seg_spans seg) \<le> 2 ^ 31"
  shows "\<forall>i<length (seg_spans seg). so_spanid (seg_spans seg ! i) = word_of_nat i
    \<and> tree_span parent i (seg_spans seg ! i)
    \<and> (\<exists>k\<le>i. (parent_position (seg_spans seg) ^^ k) i = 0)"
proof -
  note new = new_context [OF assms(1)]
  have live: "segment_store c' \<noteq> None" "context_inv c'"
    using calls_inv [OF new(1,2) _ assms(4)] assms(2) new(3) by simp_all
  with assms(5) have seg: "segment_store c' = Some seg"
    by (auto simp: createSegmentObject_def segment_of_def)
  have t: "table_calls parent False xs [] = Inr (table_of c')"
    using calls_table [OF new(1,2), of xs] assms(2,4) by (simp add: new)
  have "tree_table parent (table_of c')"
    by (rule tree_table_calls [OF t]) (use assms(2,3) in \<open>simp_all add: tree_table_def\<close>)
  then have tree: "\<forall>i<length (seg_spans seg). tree_span parent i (seg_spans seg ! i)"
    by (simp add: tree_table_def seg_spans_table [OF seg live(2)])
  have "\<forall>i<length (seg_spans seg). so_spanid (seg_spans seg ! i) = word_of_nat i"
    using live(2) seg by (simp add: context_inv_live)
  with tree parents_lead_to_entry [OF tree assms(6)] show ?thesis by blast
qed

theorem reported_spans_form_a_tree_witness:
  "\<exists>c seg c'. do_calls [Create_Entry_Span, Create_Exit_Span (Some 0), Create_Exit_Span (Some 1)]
      example_context = Inr c
    \<and> createSegmentObject c = Inr (seg, c') \<and> length (seg_spans seg) = 3
    \<and> so_spantype (seg_spans seg ! 0) = Some Entry \<and> so_spantype (seg_spans seg ! 2) = Some Exit
    \<and> (\<exists>k\<le>2. (parent_position (seg_spans seg) ^^ k) 2 = 0)"
proof -
  let ?xs = "[Create_Entry_Span, Create_Exit_Span (Some 0), Create_Exit_Span (Some 1)]"
  obtain c where c: "do_calls ?xs example_context = Inr c" and len: "length (table_of c) = 3"
    and live: "segment_store c \<noteq> None" "context_inv c"
    using example_calls [of ?xs] by auto
  from live(1) obtain seg where seg: "segment_store c = Some seg" by blast
  then obtain c' where r: "createSegmentObject c = Inr (seg, c')"
    by (simp add: createSegmentObject_def segment_of_def)
  have n: "length (seg_spans seg) = 3" using seg_spans_table [OF seg live(2)] len by simp
  have "calls_ok 0 ?xs" "list_all keeps_tree ?xs" "length (seg_spans seg) \<le> 2 ^ 31"
    by (simp_all add: keeps_tree_def n)
  from reported_spans_form_a_tree [OF example_new this(1,2) c r this(3)] n
  have "tree_span None 0 (seg_spans seg ! 0)" "tree_span None 2 (seg_spans seg ! 2)"
    "\<exists>k\<le>2. (parent_position (seg_spans seg) ^^ k) 2 = 0" by simp_all
  with c r n show ?thesis by (auto simp: tree_span_def)
qed

end
