(* ===== verification/Event_Loop.thy ===== *)
theory Event_Loop
  imports Async_Client_Spec
begin

text \<open>
  The event loop as the loop it is: \<open>EventLoopThread::gogo\<close> of
  \<^verbatim>\<open>source/grpc_async_client_impl.cc\<close>, which takes completions off the queue until the queue
  says there are none. It ends with \<open>Ended\<close> when the queue is drained and shut down, and comes to
  \<open>Blocked\<close> when nothing is outstanding on a queue that is not shut down, where \<open>Next\<close> waits for
  another thread to start an operation. It need not do either: a callback may start an operation each
  time, and the value \<open>None\<close> stands for a loop that goes on for ever. What the queue chooses at its \<open>k\<close>-th answer, which of the
  outstanding tags and with which flag, is the argument \<open>answer\<close>.
\<close>

section \<open>The loop\<close>

datatype 'c loop_end = Ended 'c | Blocked 'c

partial_function (option) gogo ::
  "(nat \<Rightarrow> nat \<times> bool) \<Rightarrow> nat \<Rightarrow> 'm async_client \<Rightarrow> 'm async_client loop_end outcome option"
where
  "gogo answer k c =
     (if cq_tags c = [] then Some (Inr (if loop_exited c then Ended c else Blocked c))
      else (case event_turn (fst (answer k) mod length (cq_tags c)) (snd (answer k)) c of
          Inl f \<Rightarrow> Some (Inl f)
        | Inr c' \<Rightarrow> gogo answer (Suc k) c'))"

text \<open>What a callback does once the client has been reset: it counts, and starts nothing.\<close>

definition settled :: "event_tag \<Rightarrow> bool \<Rightarrow> 'm async_client \<Rightarrow> 'm async_client" where
  "settled tag ok c = (case tag of Basic_Event \<Rightarrow> c
     | Write_Event \<Rightarrow> if ok then c\<lparr>messages_sent := messages_sent c + 1\<rparr>
                     else c\<lparr>messages_dropped := messages_dropped c + 1\<rparr>)"

lemma settled_simps [simp]:
  "client_reset (settled tag ok c) = client_reset c" "loop_exited (settled tag ok c) = loop_exited c"
  "cq_tags (settled tag ok c) = cq_tags c" "wire (settled tag ok c) = wire c"
  "message_buffer (settled tag ok c) = message_buffer c"
  "event_loop_idle (settled tag ok c) = event_loop_idle c"
  "active_stream (settled tag ok c) = active_stream c"
  "messages_total (settled tag ok c) = messages_total c"
  by (simp_all add: settled_def split: event_tag.split)

lemma settled_count:
  "messages_sent (settled tag ok c) + messages_dropped (settled tag ok c)
     = messages_sent c + messages_dropped c + (if tag = Write_Event then 1 else 0)"
  by (simp add: settled_def split: event_tag.split)

lemma turn_after_reset:
  assumes "client_reset c" and "i < length (cq_tags c)"
  shows "event_turn i ok c = Inr (settled (cq_tags c ! i) ok
    (c\<lparr>cq_tags := take i (cq_tags c) @ drop (Suc i) (cq_tags c)\<rparr>))"
  using assms by (cases "cq_tags c ! i") (auto simp: event_turn_def write_event_callback_def
      basic_event_callback_def settled_def)

lemma count_removed:
  "i < length ts \<Longrightarrow> count_list ts x
     = count_list (take i ts @ drop (Suc i) ts) x + (if ts ! i = x then 1 else 0)"
  by (subst id_take_nth_drop [of i ts]) (simp_all del: append_take_drop_id)

lemma gogo_after_reset:
  assumes "client_reset c" and "loop_exited c"
  shows "\<exists>c'. gogo answer k c = Some (Inr (Ended c')) \<and> cq_tags c' = [] \<and> wire c' = wire c
    \<and> message_buffer c' = message_buffer c \<and> active_stream c' = active_stream c
    \<and> messages_total c' = messages_total c
    \<and> messages_sent c' + messages_dropped c'
      = messages_sent c + messages_dropped c + word_of_nat (count_list (cq_tags c) Write_Event)"
  using assms
proof (induction "length (cq_tags c)" arbitrary: c k)
  case 0
  then show ?case by (simp add: gogo.simps)
next
  case (Suc n)
  let ?i = "fst (answer k) mod length (cq_tags c)" and ?ok = "snd (answer k)"
  let ?d = "settled (cq_tags c ! ?i) ?ok
    (c\<lparr>cq_tags := take ?i (cq_tags c) @ drop (Suc ?i) (cq_tags c)\<rparr>)"
  have i: "?i < length (cq_tags c)" by (rule mod_less_divisor) (use Suc.hyps(2) in linarith)
  then have "n = length (cq_tags ?d)" using Suc.hyps(2) by simp
  with Suc.hyps(1) [of ?d "Suc k"] Suc.prems obtain c' where
    c': "gogo answer (Suc k) ?d = Some (Inr (Ended c'))" "cq_tags c' = []" "wire c' = wire c"
      "message_buffer c' = message_buffer c" "active_stream c' = active_stream c"
      "messages_total c' = messages_total c"
      "messages_sent c' + messages_dropped c' = messages_sent ?d + messages_dropped ?d
        + word_of_nat (count_list (cq_tags ?d) Write_Event)" by auto
  have "gogo answer k c = gogo answer (Suc k) ?d"
    using i turn_after_reset [OF Suc.prems(1) i] by (subst gogo.simps) auto
  moreover have "messages_sent ?d + messages_dropped ?d
      + word_of_nat (count_list (cq_tags ?d) Write_Event)
    = messages_sent c + messages_dropped c + word_of_nat (count_list (cq_tags c) Write_Event)"
    using count_removed [OF i, of Write_Event] by (simp add: settled_count)
  ultimately show ?case using c' by auto
qed

text \<open>The drain of \<^theory_text>\<open>Async_Client\<close> is this loop, when it has a flag for every completion.\<close>

lemma gogo_is_drain:
  assumes "client_reset c" and "loop_exited c" and "length (cq_tags c) \<le> length oks - k"
  shows "gogo (\<lambda>j. (0, oks ! j)) k c = Some (and_then (gogo_drain (drop k oks) c) (\<lambda>c. Inr (Ended c)))"
  using assms
proof (induction "length (cq_tags c)" arbitrary: c k)
  case 0
  then show ?case by (simp add: gogo.simps drained)
next
  case (Suc n)
  let ?d = "settled (cq_tags c ! 0) (oks ! k) (c\<lparr>cq_tags := drop 1 (cq_tags c)\<rparr>)"
  have 0: "0 < length (cq_tags c)" "k < length oks" using Suc.hyps(2) Suc.prems(3) by linarith+
  then have turn: "event_turn 0 (oks ! k) c = Inr ?d"
    using turn_after_reset [OF Suc.prems(1), of 0 "oks ! k"] by simp
  have "gogo (\<lambda>j. (0, oks ! j)) (Suc k) ?d
      = Some (and_then (gogo_drain (drop (Suc k) oks) ?d) (\<lambda>c. Inr (Ended c)))"
    by (rule Suc.hyps(1)) (use Suc.hyps(2) Suc.prems in auto)
  moreover have "gogo_drain (drop k oks) c = gogo_drain (drop (Suc k) oks) ?d"
    using 0 turn by (simp flip: Cons_nth_drop_Suc)
  ultimately show ?case using 0 turn by (subst gogo.simps) simp
qed


section \<open>When it returns\<close>

text \<open>C11. The event loop of a client that has been reset returns, whichever outstanding completion
  the queue returns each time and with whichever flag: it takes every completion that is left
  off the queue, counts each write as sent or dropped, and starts nothing. So \<open>exit\<close>, which joins
  the thread, returns.\<close>

theorem event_loop_ends_after_reset:
  assumes "client_reset c" and "loop_exited c"
  shows "\<exists>c'. gogo answer 0 c = Some (Inr (Ended c')) \<and> cq_tags c' = [] \<and> wire c' = wire c
    \<and> message_buffer c' = message_buffer c
    \<and> messages_sent c' + messages_dropped c'
      = messages_sent c + messages_dropped c + word_of_nat (count_list (cq_tags c) Write_Event)"
  using gogo_after_reset [OF assms] by blast

definition example_exiting :: "nat async_client" where
  "example_exiting = (createClient ''key'')\<lparr>client_reset := True, loop_exited := True,
     cq_tags := [Basic_Event, Write_Event, Write_Event]\<rparr>"

theorem event_loop_ends_after_reset_witness:
  "\<exists>c'. gogo (\<lambda>k. (k, even k)) 0 example_exiting = Some (Inr (Ended c'))
    \<and> messages_sent c' + messages_dropped c' = 2"
  using event_loop_ends_after_reset [of example_exiting "\<lambda>k. (k, even k)"]
  by (auto simp: example_exiting_def createClient_def TraceAsyncClientImpl_def startStream_def
      createStream_def TraceAsyncStreamImpl_def Let_def)

section \<open>While the client is in use\<close>











end
