(* ===== verification/Stream_Factory.thy ===== *)
theory Stream_Factory
  imports Async_Client_Spec
begin

text \<open>
  The reporter client with the stream factory as an argument, as \<open>createClient\<close> of
  \<^verbatim>\<open>source/grpc_async_client_impl.{h,cc}\<close> takes it. A factory and its streams
  (\<open>AsyncStreamFactory\<close> and \<open>AsyncStream\<close> of \<^verbatim>\<open>cpp2sky/internal/async_client.h\<close>) are objects the caller
  of the library writes: a factory is a function, a stream an object of a codatatype, each may
  start operations of its own, and a factory may return no stream. The interface is the locale
  \<open>stream_provider\<close>; in front of a factory that keeps its contract the client behaves as in front of
  the default one, and without the contract it need not.
\<close>

section \<open>Streams and factories\<close>

text \<open>What a stream can reach of gRPC: the operations started and the tags not returned yet.\<close>

record 'm grpc =
  started :: "'m operation list"
  outstanding :: "event_tag list"

codatatype 'm stream_object =
  Stream_Object (object_sendMessage: "'m \<Rightarrow> 'm grpc \<Rightarrow> 'm stream_object \<times> 'm grpc")

type_synonym 'm async_stream_factory = "metadata option \<Rightarrow> 'm grpc \<Rightarrow> 'm stream_object option \<times> 'm grpc"

text \<open>The stream and the factory of the library, as such objects.\<close>

primcorec trace_stream :: "'m stream_object" where
  "object_sendMessage trace_stream = (\<lambda>message g. (trace_stream,
     g\<lparr>started := started g @ [Write message], outstanding := outstanding g @ [Write_Event]\<rparr>))"

definition TraceAsyncStreamFactoryImpl :: "'m async_stream_factory" where
  "TraceAsyncStreamFactoryImpl client_ctx g =
     (let md = (case client_ctx of None \<Rightarrow> [] | Some md \<Rightarrow> md)
      in (Some trace_stream,
          g\<lparr>started := started g @ [Start_Call TraceCollectMethod md],
            outstanding := outstanding g @ [Basic_Event]\<rparr>))"

section \<open>The client\<close>

record 'm hosted_client = "('m, 'm stream_object) async_client_of" +
  stream_factory :: "'m async_stream_factory"

type_synonym 'm hosted_op = "'m hosted_client \<Rightarrow> 'm hosted_client outcome"

text \<open>A call of a method of the factory or of a stream, which may start operations.\<close>

definition grpc_of :: "'m hosted_client \<Rightarrow> 'm grpc" where
  "grpc_of c = \<lparr>started = wire c, outstanding = cq_tags c\<rparr>"

definition with_grpc :: "'m grpc \<Rightarrow> 'm hosted_client \<Rightarrow> 'm hosted_client" where
  "with_grpc g c = c\<lparr>wire := started g, cq_tags := outstanding g\<rparr>"

definition hosted_startStream :: "'m hosted_client \<Rightarrow> 'm hosted_client" where
  "hosted_startStream c =
     (let c = (if active_stream c \<noteq> None then resetStream c else c);
          client_ctx = (if token c \<noteq> '''' then [(AuthenticationKey, token c)] else []);
          (s, g) = stream_factory c (Some client_ctx) (grpc_of c)
      in (with_grpc g c)\<lparr>active_stream := s\<rparr>)"

definition hosted_sendMessageOnce :: "'m hosted_op" where
  "hosted_sendMessageOnce c =
     (if event_loop_idle c then
        (let c = c\<lparr>event_loop_idle := False\<rparr>
         in (case active_stream c of
             None \<Rightarrow> Inl AssertionFailed
           | Some s \<Rightarrow>
             (case pop_front (message_buffer c) of
                (None, _) \<Rightarrow> Inr (markEventLoopIdle c)
              | (Some message, b) \<Rightarrow>
                  (let (s, g) = object_sendMessage s message (grpc_of c)
                   in Inr ((with_grpc g c)\<lparr>message_buffer := b, active_stream := Some s\<rparr>)))))
      else Inr c)"

definition hosted_sendMessage :: "'m \<Rightarrow> 'm hosted_op" where
  "hosted_sendMessage message c =
     (let c = c\<lparr>messages_total := messages_total c + 1\<rparr>;
          pending = buffer_size (message_buffer c)
      in if pending > MaxPendingMessagesSize then
           Inr (c\<lparr>messages_dropped := messages_dropped c + 1\<rparr>)
         else hosted_sendMessageOnce (c\<lparr>message_buffer := push_back message (message_buffer c)\<rparr>))"

definition hosted_basic_event_callback :: "bool \<Rightarrow> 'm hosted_op" where
  "hosted_basic_event_callback ok c =
     (if client_reset c then Inr c
      else if ok then hosted_sendMessageOnce (markEventLoopIdle c)
      else require (\<not> event_loop_idle c) AssertionFailed (Inr (hosted_startStream c)))"

definition hosted_write_event_callback :: "bool \<Rightarrow> 'm hosted_op" where
  "hosted_write_event_callback ok c =
     hosted_basic_event_callback ok
       (if ok then c\<lparr>messages_sent := messages_sent c + 1\<rparr>
        else c\<lparr>messages_dropped := messages_dropped c + 1\<rparr>)"

definition hosted_event_turn :: "nat \<Rightarrow> bool \<Rightarrow> 'm hosted_op" where
  "hosted_event_turn i ok c =
     and_then (read_at (cq_tags c) i) (\<lambda>tag.
     (case tag of Basic_Event \<Rightarrow> hosted_basic_event_callback ok
                | Write_Event \<Rightarrow> hosted_write_event_callback ok)
       (c\<lparr>cq_tags := take i (cq_tags c) @ drop (Suc i) (cq_tags c)\<rparr>))"

fun hosted_gogo_drain :: "bool list \<Rightarrow> 'm hosted_op" where
  "hosted_gogo_drain [] c = Inr c"
| "hosted_gogo_drain (ok # oks) c =
     (if cq_tags c = [] then Inr c
      else and_then (hosted_event_turn 0 ok c) (hosted_gogo_drain oks))"

definition hosted_resetClient :: "bool list \<Rightarrow> 'm hosted_op" where
  "hosted_resetClient oks c =
     (let c = c\<lparr>client_reset := True, message_buffer := buffer_clear (message_buffer c)\<rparr>
      in and_then (if \<not> loop_exited c then hosted_gogo_drain oks (c\<lparr>loop_exited := True\<rparr>) else Inr c)
           (\<lambda>c. Inr (resetStream c)))"

text \<open>If the factory is not provided, the default one is used.\<close>

definition hosted_createClient :: "string \<Rightarrow> 'm async_stream_factory option \<Rightarrow> 'm hosted_client" where
  "hosted_createClient token_value factory = hosted_startStream
     \<lparr>token = token_value, messages_total = 0, messages_dropped = 0, messages_sent = 0,
      loop_exited = False, client_reset = False, message_buffer = empty_buffer,
      event_loop_idle = False, active_stream = None, wire = [], cq_tags = [],
      stream_factory = (case factory of None \<Rightarrow> TraceAsyncStreamFactoryImpl | Some f \<Rightarrow> f)\<rparr>"

fun hosted_steps :: "'m client_step list \<Rightarrow> 'm hosted_op" where
  "hosted_steps [] c = Inr c"
| "hosted_steps (Send m # ss) c = and_then (hosted_sendMessage m c) (hosted_steps ss)"
| "hosted_steps (Completed ok # ss) c =
     (if cq_tags c = [] then hosted_steps ss c
      else and_then (hosted_event_turn 0 ok c) (hosted_steps ss))"

section \<open>The contract of a factory\<close>

text \<open>
  What the client relies on: every stream starts one operation tagged as the basic event when it
  is made, and one tagged as the write event for every message, which it writes; whatever else it
  starts, no other tag of the client is returned for it. This goes for a stream in every state.
\<close>

coinductive lawful_stream :: "'m stream_object \<Rightarrow> bool" where
  "(\<And>m g. lawful_stream (fst (object_sendMessage s m g))
      \<and> outstanding (snd (object_sendMessage s m g)) = outstanding g @ [Write_Event]
      \<and> writes (started (snd (object_sendMessage s m g))) = writes (started g) @ [m])
   \<Longrightarrow> lawful_stream s"

inductive_simps lawful_stream_iff: "lawful_stream s"

locale stream_provider =
  fixes create :: "'m async_stream_factory"
  assumes create_stream: "\<exists>s. fst (create md g) = Some s \<and> lawful_stream s"
    and create_tag: "outstanding (snd (create md g)) = outstanding g @ [Basic_Event]"
    and create_writes: "writes (started (snd (create md g))) = writes (started g)"

text \<open>The relation between a client with a factory and one with the default factory.\<close>

definition same_stream :: "'m stream_object option \<Rightarrow> stream option \<Rightarrow> bool" where
  "same_stream s s' \<longleftrightarrow> (case s of None \<Rightarrow> s' = None | Some s \<Rightarrow> s' \<noteq> None \<and> lawful_stream s)"

definition same_client :: "'m hosted_client \<Rightarrow> 'm async_client \<Rightarrow> bool" where
  "same_client h c \<longleftrightarrow> token h = token c \<and> messages_total h = messages_total c
     \<and> messages_dropped h = messages_dropped c \<and> messages_sent h = messages_sent c
     \<and> loop_exited h = loop_exited c \<and> client_reset h = client_reset c
     \<and> message_buffer h = message_buffer c \<and> event_loop_idle h = event_loop_idle c
     \<and> same_stream (active_stream h) (active_stream c)
     \<and> writes (wire h) = writes (wire c) \<and> cq_tags h = cq_tags c"

lemma same_stream_simps [simp]:
  "same_stream None s' \<longleftrightarrow> s' = None" "same_stream (Some s) s' \<longleftrightarrow> s' \<noteq> None \<and> lawful_stream s"
  by (simp_all add: same_stream_def)

text \<open>Outcomes that agree: the same fault, or clients that agree.\<close>

definition same_outcome :: "'m async_stream_factory \<Rightarrow> 'm hosted_client outcome \<Rightarrow> 'm async_client outcome \<Rightarrow> bool" where
  "same_outcome f x y \<longleftrightarrow> rel_sum (=) (\<lambda>h c. same_client h c \<and> stream_factory h = f) x y"

lemma same_outcome_simps [simp]:
  "same_outcome f (Inr h) (Inr c) \<longleftrightarrow> same_client h c \<and> stream_factory h = f"
  "same_outcome f (Inl e) (Inl e') \<longleftrightarrow> e = e'"
  "\<not> same_outcome f (Inl e) (Inr c)" "\<not> same_outcome f (Inr h) (Inl e)"
  by (simp_all add: same_outcome_def)

lemma same_outcome_and_then:
  assumes "same_outcome f x y"
    and "\<And>h c. same_client h c \<Longrightarrow> stream_factory h = f \<Longrightarrow> same_outcome f (k h) (k' c)"
  shows "same_outcome f (and_then x k) (and_then y k')"
  using assms by (cases x; cases y) simp_all

context stream_provider
begin

lemma startStream_same:
  assumes "same_client h c" and "stream_factory h = create"
  shows "same_client (hosted_startStream h) (startStream c)"
    and "stream_factory (hosted_startStream h) = create"
proof -
  let ?md = "if token h \<noteq> '''' then [(AuthenticationKey, token h)] else []"
  obtain s g where cr: "create (Some ?md) (grpc_of h) = (s, g)" by fastforce
  with create_stream [of "Some ?md" "grpc_of h"] create_tag [of "Some ?md" "grpc_of h"]
    create_writes [of "Some ?md" "grpc_of h"] obtain s' where
    "s = Some s'" "lawful_stream s'" "outstanding g = cq_tags h @ [Basic_Event]"
    "writes (started g) = writes (wire h)" by (auto simp: grpc_of_def)
  moreover have "hosted_startStream h = (with_grpc g (resetStream h))\<lparr>active_stream := s\<rparr>"
    using assms(2) cr by (cases "active_stream h = None"; cases "token h = []")
      (simp_all add: hosted_startStream_def grpc_of_def resetStream_def with_grpc_def Let_def)
  moreover have "startStream c = (resetStream c)\<lparr>active_stream := Some \<lparr>stream_context = ?md\<rparr>,
      wire := wire c @ [Start_Call TraceCollectMethod ?md], cq_tags := cq_tags c @ [Basic_Event]\<rparr>"
    using assms(1) by (cases "active_stream c = None")
      (simp_all add: startStream_def createStream_def TraceAsyncStreamImpl_def resetStream_def
        same_client_def Let_def)
  ultimately show "same_client (hosted_startStream h) (startStream c)"
    and "stream_factory (hosted_startStream h) = create"
    using assms by (simp_all add: same_client_def with_grpc_def resetStream_def)
qed

lemma sendMessageOnce_same:
  assumes "same_client h c" and "stream_factory h = create"
  shows "same_outcome create (hosted_sendMessageOnce h) (sendMessageOnce c)"
proof (cases "event_loop_idle c \<and> active_stream h \<noteq> None")
  case True
  then obtain s where s: "active_stream h = Some s" by auto
  with assms(1) have law: "lawful_stream s" by (simp add: same_client_def)
  obtain opt b where pop: "pop_front (message_buffer c) = (opt, b)" by fastforce
  show ?thesis
  proof (cases opt)
    case None
    with True assms s pop show ?thesis
      by (auto simp: hosted_sendMessageOnce_def sendMessageOnce_def same_client_def markEventLoopIdle_def)
  next
    case (Some m)
    let ?g = "grpc_of (h\<lparr>event_loop_idle := False\<rparr>)"
    obtain s' g where sent: "object_sendMessage s m ?g = (s', g)" by fastforce
    moreover from law have "lawful_stream (fst (object_sendMessage s m ?g))
      \<and> outstanding (snd (object_sendMessage s m ?g)) = outstanding ?g @ [Write_Event]
      \<and> writes (started (snd (object_sendMessage s m ?g))) = writes (started ?g) @ [m]"
      by (subst (asm) lawful_stream_iff) blast
    ultimately have "lawful_stream s'" "outstanding g = cq_tags h @ [Write_Event]"
      "writes (started g) = writes (wire h) @ [m]" by (simp_all add: grpc_of_def)
    with True assms s pop Some sent show ?thesis
      by (auto simp: hosted_sendMessageOnce_def sendMessageOnce_def same_client_def with_grpc_def
          stream_sendMessage_def)
  qed
next
  case False
  with assms show ?thesis
    by (cases "active_stream h") (auto simp: hosted_sendMessageOnce_def sendMessageOnce_def same_client_def)
qed

lemma sendMessage_same:
  assumes "same_client h c" and "stream_factory h = create"
  shows "same_outcome create (hosted_sendMessage m h) (sendMessage m c)"
proof -
  have "message_buffer h = message_buffer c" using assms(1) by (simp add: same_client_def)
  moreover have "same_client
      (h\<lparr>messages_total := messages_total h + 1, message_buffer := push_back m (message_buffer h)\<rparr>)
      (c\<lparr>messages_total := messages_total c + 1, message_buffer := push_back m (message_buffer c)\<rparr>)"
    and "same_client
      (h\<lparr>messages_total := messages_total h + 1, messages_dropped := messages_dropped h + 1\<rparr>)
      (c\<lparr>messages_total := messages_total c + 1, messages_dropped := messages_dropped c + 1\<rparr>)"
    using assms(1) by (simp_all add: same_client_def)
  ultimately show ?thesis
    using assms(2) sendMessageOnce_same by (simp add: hosted_sendMessage_def sendMessage_def Let_def)
qed

lemma basic_event_callback_same:
  assumes "same_client h c" and "stream_factory h = create"
  shows "same_outcome create (hosted_basic_event_callback ok h) (basic_event_callback ok c)"
proof -
  have "same_client (markEventLoopIdle h) (markEventLoopIdle c)"
    "client_reset h = client_reset c" "event_loop_idle h = event_loop_idle c"
    using assms(1) by (simp_all add: same_client_def markEventLoopIdle_def)
  then show ?thesis
    using assms startStream_same [OF assms] sendMessageOnce_same [of "markEventLoopIdle h" "markEventLoopIdle c"]
    by (simp add: hosted_basic_event_callback_def basic_event_callback_def require_def)
      (simp add: markEventLoopIdle_def)
qed

lemma event_turn_same:
  assumes "same_client h c" and "stream_factory h = create"
  shows "same_outcome create (hosted_event_turn i ok h) (event_turn i ok c)"
proof -
  let ?h = "h\<lparr>cq_tags := take i (cq_tags h) @ drop (Suc i) (cq_tags h)\<rparr>"
    and ?c = "c\<lparr>cq_tags := take i (cq_tags c) @ drop (Suc i) (cq_tags c)\<rparr>"
  have tags: "cq_tags h = cq_tags c" using assms(1) by (simp add: same_client_def)
  have "same_client ?h ?c" using assms(1) by (simp add: same_client_def)
  moreover from this have
    "same_client (if ok then ?h\<lparr>messages_sent := messages_sent ?h + 1\<rparr>
        else ?h\<lparr>messages_dropped := messages_dropped ?h + 1\<rparr>)
      (if ok then ?c\<lparr>messages_sent := messages_sent ?c + 1\<rparr>
        else ?c\<lparr>messages_dropped := messages_dropped ?c + 1\<rparr>)"
    by (simp add: same_client_def)
  ultimately show ?thesis
    using basic_event_callback_same assms(2) tags
    by (cases "i < length (cq_tags c)")
      (auto simp: hosted_event_turn_def event_turn_def read_at_def hosted_write_event_callback_def
        write_event_callback_def split: event_tag.split)
qed

lemma drain_same:
  "same_client h c \<Longrightarrow> stream_factory h = create \<Longrightarrow>
    same_outcome create (hosted_gogo_drain oks h) (gogo_drain oks c)"
proof (induction oks arbitrary: h c)
  case (Cons ok oks)
  from event_turn_same [OF Cons.prems, of 0 ok] Cons show ?case
    by (auto simp: same_client_def intro: same_outcome_and_then)
qed simp

lemma resetClient_same:
  assumes "same_client h c" and "stream_factory h = create"
  shows "same_outcome create (hosted_resetClient oks h) (resetClient oks c)"
proof -
  let ?h = "h\<lparr>client_reset := True, message_buffer := buffer_clear (message_buffer h)\<rparr>"
    and ?c = "c\<lparr>client_reset := True, message_buffer := buffer_clear (message_buffer c)\<rparr>"
  have "same_client ?h ?c" "same_client (?h\<lparr>loop_exited := True\<rparr>) (?c\<lparr>loop_exited := True\<rparr>)"
    and exited: "loop_exited h = loop_exited c"
    using assms(1) by (simp_all add: same_client_def)
  then have "same_outcome create
      (if \<not> loop_exited ?h then hosted_gogo_drain oks (?h\<lparr>loop_exited := True\<rparr>) else Inr ?h)
      (exit_loop oks ?c)"
    using drain_same assms(2) by (simp add: exit_loop_def)
  then show ?thesis
    unfolding hosted_resetClient_def resetClient_def Let_def
    by (rule same_outcome_and_then) (simp add: same_client_def resetStream_def)
qed

lemma steps_same:
  "same_client h c \<Longrightarrow> stream_factory h = create \<Longrightarrow>
    same_outcome create (hosted_steps ss h) (client_steps ss c)"
proof (induction ss arbitrary: h c rule: sends.induct)
  case (2 m ss)
  from sendMessage_same [OF "2.prems", of m] "2.IH" show ?case
    by (auto intro: same_outcome_and_then)
next
  case (3 ok ss)
  from event_turn_same [OF "3.prems", of 0 ok] 3 show ?case
    by (auto simp: same_client_def intro: same_outcome_and_then)
qed simp

lemma new_same:
  "same_client (hosted_createClient tok (Some create)) (createClient tok)"
  "stream_factory (hosted_createClient tok (Some create)) = create"
proof -
  let ?h = "\<lparr>token = tok, messages_total = 0, messages_dropped = 0, messages_sent = 0,
      loop_exited = False, client_reset = False, message_buffer = empty_buffer,
      event_loop_idle = False, active_stream = None, wire = [], cq_tags = [], stream_factory = create\<rparr>"
    and ?c = "\<lparr>token = tok, messages_total = 0, messages_dropped = 0, messages_sent = 0,
      loop_exited = False, client_reset = False, message_buffer = empty_buffer,
      event_loop_idle = False, active_stream = None, wire = [], cq_tags = []\<rparr>"
  have "same_client ?h ?c" "stream_factory ?h = create" by (simp_all add: same_client_def)
  from startStream_same [OF this] show
    "same_client (hosted_createClient tok (Some create)) (createClient tok)"
    "stream_factory (hosted_createClient tok (Some create)) = create"
    by (simp_all add: hosted_createClient_def createClient_def TraceAsyncClientImpl_def)
qed

text \<open>So the client with the factory does what the client with the default one does.\<close>

lemma runs_same:
  "\<exists>h c. hosted_steps ss (hosted_createClient tok (Some create)) = Inr h
    \<and> client_steps ss (createClient tok) = Inr c \<and> same_client h c
    \<and> same_outcome create (hosted_resetClient oks h) (resetClient oks c)"
proof -
  obtain c where c: "client_steps ss (createClient tok) = Inr c"
    using client_steps_implement [OF implements_new] by blast
  from steps_same [OF new_same, of ss tok] c obtain h where
    "hosted_steps ss (hosted_createClient tok (Some create)) = Inr h" "same_client h c"
    "stream_factory h = create"
    by (cases "hosted_steps ss (hosted_createClient tok (Some create))") simp_all
  with c resetClient_same show ?thesis by blast
qed

end

lemma trace_stream_lawful: "lawful_stream trace_stream"
  by (coinduction rule: lawful_stream.coinduct) simp

interpretation default_factory: stream_provider TraceAsyncStreamFactoryImpl
  by unfold_locales (simp_all add: TraceAsyncStreamFactoryImpl_def trace_stream_lawful)

section \<open>With the contract\<close>

text \<open>The stream factory is the caller's choice: with any factory that keeps the contract the
  client does what it does with the default one, which it uses when it is given none. After
  every history of calls and completions the counters, the flags, the buffer, what is outstanding
  and the messages written, in their order, are the same, and a reset then has the same effect.\<close>

lemma lawful_factory_is_invisible:
  assumes "\<And>f. factory = Some f \<Longrightarrow> stream_provider f"
  shows "\<exists>h c h' c'. hosted_steps ss (hosted_createClient tok factory) = Inr h
    \<and> client_steps ss (createClient tok) = Inr c \<and> same_client h c
    \<and> hosted_resetClient (ok # oks) h = Inr h' \<and> resetClient (ok # oks) c = Inr c'
    \<and> same_client h' c'"
proof -
  obtain f where f: "stream_provider f" "hosted_createClient tok factory = hosted_createClient tok (Some f)"
    using assms default_factory.stream_provider_axioms
    by (cases factory) (auto simp: hosted_createClient_def)
  from stream_provider.runs_same [OF f(1), of ss tok "ok # oks"] obtain h c where
    h: "hosted_steps ss (hosted_createClient tok (Some f)) = Inr h"
      "client_steps ss (createClient tok) = Inr c" "same_client h c"
      "same_outcome f (hosted_resetClient (ok # oks) h) (resetClient (ok # oks) c)" by blast
  from reset_result [OF h(2), of "ok # oks"] obtain c' where c': "resetClient (ok # oks) c = Inr c'"
    by blast
  with h(4) obtain h' where "hosted_resetClient (ok # oks) h = Inr h'" "same_client h' c'"
    by (cases "hosted_resetClient (ok # oks) h") simp_all
  with h c' show ?thesis unfolding f(2) by blast
qed

section \<open>Without the contract\<close>

text \<open>A factory that starts the call but returns \<open>s\<close>, and a stream that ignores its messages.\<close>

definition factory_of :: "'m stream_object option \<Rightarrow> 'm async_stream_factory" where
  "factory_of s client_ctx g = (s, snd (TraceAsyncStreamFactoryImpl client_ctx g))"

primcorec silent_stream :: "'m stream_object" where
  "object_sendMessage silent_stream = (\<lambda>message g. (silent_stream, g))"

text \<open>While the event loop is not idle a call only adds to the buffer.\<close>

lemma busy_sendMessage:
  assumes "\<not> event_loop_idle c"
  shows "hosted_sendMessage m c = Inr
    (if 1024 < length (buf (message_buffer c))
     then c\<lparr>messages_total := messages_total c + 1, messages_dropped := messages_dropped c + 1\<rparr>
     else c\<lparr>messages_total := messages_total c + 1,
       message_buffer := push_back m (message_buffer c)\<rparr>)"
  using assms by (simp add: hosted_sendMessage_def hosted_sendMessageOnce_def vb.size_contents
      MaxPendingMessagesSize_def Let_def)

definition unmoved :: "'m hosted_client \<Rightarrow> 'm hosted_client \<Rightarrow> bool" where
  "unmoved c h \<longleftrightarrow> \<not> event_loop_idle h \<and> cq_tags h = cq_tags c \<and> wire h = wire c
     \<and> client_reset h = client_reset c \<and> active_stream h = active_stream c
     \<and> messages_sent h = messages_sent c"

lemma stalled:
  assumes "\<not> event_loop_idle c" and "cq_tags c = [] \<or> (\<forall>s \<in> set ss. \<exists>m. s = Send m)"
    and "length (buf (message_buffer c)) \<le> 1025"
  shows "\<exists>h. hosted_steps ss c = Inr h \<and> unmoved c h
    \<and> buf (message_buffer h) = take 1025 (buf (message_buffer c) @ sends ss)
    \<and> messages_dropped h = messages_dropped c
        + word_of_nat (length (buf (message_buffer c) @ sends ss) - 1025)"
  using assms
proof (induction ss arbitrary: c rule: sends.induct)
  case (2 m ss)
  let ?b = "buf (message_buffer c)"
  let ?c = "if 1024 < length ?b
     then c\<lparr>messages_total := messages_total c + 1, messages_dropped := messages_dropped c + 1\<rparr>
     else c\<lparr>messages_total := messages_total c + 1, message_buffer := push_back m (message_buffer c)\<rparr>"
  have c: "\<not> event_loop_idle ?c" "cq_tags ?c = [] \<or> (\<forall>s \<in> set ss. \<exists>m. s = Send m)"
    "length (buf (message_buffer ?c)) \<le> 1025"
    using "2.prems" by (simp_all add: vb.contents_push)
  from "2.IH" [OF c] obtain h where h: "hosted_steps ss ?c = Inr h" "unmoved ?c h"
    "buf (message_buffer h) = take 1025 (buf (message_buffer ?c) @ sends ss)"
    "messages_dropped h = messages_dropped ?c
        + word_of_nat (length (buf (message_buffer ?c) @ sends ss) - 1025)" by blast
  have "hosted_steps (Send m # ss) c = Inr h"
    using busy_sendMessage [OF "2.prems"(1), of m] h(1) by simp
  moreover have "unmoved c h" using h(2) by (simp add: unmoved_def split: if_splits)
  moreover have "buf (message_buffer h) = take 1025 (?b @ sends (Send m # ss))
      \<and> messages_dropped h = messages_dropped c + word_of_nat (length (?b @ sends (Send m # ss)) - 1025)"
  proof (cases "1024 < length ?b")
    case True
    with "2.prems"(3) have "length ?b = 1025" by simp
    with h(3,4) True show ?thesis by simp
  next
    case False
    with h(3,4) show ?thesis by (simp add: vb.contents_push)
  qed
  ultimately show ?case by blast
next
  case (3 ok ss)
  then have "cq_tags c = []" by auto
  with "3.IH" [of c] "3.prems" show ?case by simp
qed (simp add: unmoved_def)

lemma new_factory_of:
  fixes s :: "'m stream_object option"
  shows "let c = hosted_createClient tok (Some (factory_of s)) in
    \<not> event_loop_idle c \<and> cq_tags c = [Basic_Event] \<and> active_stream c = s \<and> \<not> client_reset c
    \<and> buf (message_buffer c) = [] \<and> writes (wire c) = [] \<and> messages_sent c = 0 \<and> messages_dropped c = 0"
  by (simp add: hosted_createClient_def hosted_startStream_def factory_of_def grpc_of_def with_grpc_def
      TraceAsyncStreamFactoryImpl_def Let_def vb.contents_create)

lemma hosted_steps_append:
  "hosted_steps (xs @ ys) c = and_then (hosted_steps xs c) (hosted_steps ys)"
proof (induction xs arbitrary: c rule: sends.induct)
  case (2 m ss)
  then show ?case by (cases "hosted_sendMessage m c") simp_all
next
  case (3 ok ss)
  then show ?case by (cases "hosted_event_turn 0 ok c") simp_all
qed simp

text \<open>A client without a stream, whose first call has not succeeded yet.\<close>

definition without_stream :: "'m hosted_client \<Rightarrow> bool" where
  "without_stream c \<longleftrightarrow> \<not> event_loop_idle c \<and> cq_tags c = [Basic_Event] \<and> active_stream c = None
     \<and> \<not> client_reset c \<and> stream_factory c = factory_of None"

lemma without_stream_new: "without_stream (hosted_createClient tok (Some (factory_of None)))"
  by (simp add: without_stream_def hosted_createClient_def hosted_startStream_def factory_of_def
      grpc_of_def with_grpc_def TraceAsyncStreamFactoryImpl_def Let_def)

lemma without_stream_fails: "without_stream c \<Longrightarrow> hosted_event_turn 0 True c = Inl AssertionFailed"
  by (simp add: without_stream_def hosted_event_turn_def hosted_basic_event_callback_def
      hosted_sendMessageOnce_def markEventLoopIdle_def)

lemma without_stream_retries:
  "without_stream c \<Longrightarrow> \<exists>d. hosted_event_turn 0 False c = Inr d \<and> without_stream d
    \<and> writes (wire d) = writes (wire c) \<and> length (wire d) = Suc (length (wire c))"
  by (simp add: without_stream_def hosted_event_turn_def hosted_basic_event_callback_def
      hosted_startStream_def factory_of_def grpc_of_def with_grpc_def TraceAsyncStreamFactoryImpl_def Let_def)

lemma without_stream_run:
  assumes "without_stream c"
  shows "if Completed True \<in> set ss then hosted_steps ss c = Inl AssertionFailed
    else \<exists>h. hosted_steps ss c = Inr h \<and> without_stream h \<and> writes (wire h) = writes (wire c)
      \<and> length (wire h) = length (wire c) + count_list ss (Completed False)"
  using assms
proof (induction ss arbitrary: c rule: sends.induct)
  case (2 m ss)
  let ?c = "if 1024 < length (buf (message_buffer c))
     then c\<lparr>messages_total := messages_total c + 1, messages_dropped := messages_dropped c + 1\<rparr>
     else c\<lparr>messages_total := messages_total c + 1, message_buffer := push_back m (message_buffer c)\<rparr>"
  have "without_stream ?c" "wire ?c = wire c" using "2.prems" by (simp_all add: without_stream_def)
  moreover have "hosted_sendMessage m c = Inr ?c"
    using "2.prems" by (intro busy_sendMessage) (simp add: without_stream_def)
  ultimately obtain d where d: "hosted_sendMessage m c = Inr d" "without_stream d" "wire d = wire c" by blast
  with "2.IH" [OF d(2)] show ?case by (cases "Completed True \<in> set ss") auto
next
  case (3 ok ss)
  then have tags: "cq_tags c \<noteq> []" by (simp add: without_stream_def)
  show ?case
  proof (cases ok)
    case True
    with tags without_stream_fails [OF "3.prems"] show ?thesis by simp
  next
    case False
    from without_stream_retries [OF "3.prems"] obtain d where
      "hosted_event_turn 0 False c = Inr d" "without_stream d" "writes (wire d) = writes (wire c)"
      "length (wire d) = Suc (length (wire c))" by blast
    with "3.IH" [of d] "3.prems" tags False show ?thesis
      by (cases "Completed True \<in> set ss") auto
  qed
qed simp

text \<open>C38. Without the contract the client need not work. With a factory that returns no stream the
  first successful completion runs into the assertion on the stream, whatever was submitted and
  however many completions failed before it; until then each failed completion only starts another
  call, and nothing is written.
  With streams that ignore what they are sent, and so start nothing a completion could be
  returned for, the client takes the first message for under way for ever: every later one
  stays in the buffer until it is full and is dropped from then on, and none is written.\<close>

theorem factory_contract_is_needed:
  fixes m :: 'm and log ss :: "'m client_step list"
  shows
  "(if Completed True \<in> set log
    then hosted_steps log (hosted_createClient tok (Some (factory_of None))) = Inl AssertionFailed
    else \<exists>h. hosted_steps log (hosted_createClient tok (Some (factory_of None))) = Inr h
      \<and> writes (wire h) = [] \<and> length (wire h) = Suc (count_list log (Completed False)))
   \<and> (\<exists>h. hosted_steps (Completed True # Send m # ss)
        (hosted_createClient tok (Some (factory_of (Some silent_stream)))) = Inr h
      \<and> \<not> event_loop_idle h \<and> cq_tags h = [] \<and> writes (wire h) = [] \<and> messages_sent h = 0
      \<and> buf (message_buffer h) = take (MaxPendingMessagesSize + 1) (sends ss)
      \<and> messages_dropped h = word_of_nat (length (sends ss) - (MaxPendingMessagesSize + 1)))"
proof
  let ?c = "hosted_createClient tok (Some (factory_of None)) :: 'm hosted_client"
  have "writes (wire ?c) = []" "length (wire ?c) = 1"
    by (simp_all add: hosted_createClient_def hosted_startStream_def factory_of_def
        grpc_of_def with_grpc_def TraceAsyncStreamFactoryImpl_def Let_def)
  with without_stream_run [OF without_stream_new, of log tok]
  show "if Completed True \<in> set log then hosted_steps log ?c = Inl AssertionFailed
    else \<exists>h. hosted_steps log ?c = Inr h \<and> writes (wire h) = []
      \<and> length (wire h) = Suc (count_list log (Completed False))"
    by (cases "Completed True \<in> set log") auto
next
  let ?c = "hosted_createClient tok (Some (factory_of (Some (silent_stream :: 'm stream_object))))"
  have c: "\<not> event_loop_idle ?c" "cq_tags ?c = [Basic_Event]" "active_stream ?c = Some silent_stream"
    "\<not> client_reset ?c" "buf (message_buffer ?c) = []" "writes (wire ?c) = []" "messages_sent ?c = 0"
    "messages_dropped ?c = 0"
    using new_factory_of [of tok "Some silent_stream :: 'm stream_object option"] by (simp_all add: Let_def)
  obtain d where d: "hosted_steps [Completed True, Send m] ?c = Inr d" "\<not> event_loop_idle d"
    "cq_tags d = []" "writes (wire d) = []" "messages_sent d = 0" "messages_dropped d = 0"
    "buf (message_buffer d) = []"
    using c by (auto simp: hosted_event_turn_def hosted_basic_event_callback_def hosted_sendMessage_def
        hosted_sendMessageOnce_def markEventLoopIdle_def value_buffer_defs grpc_of_def with_grpc_def
        MaxPendingMessagesSize_def Let_def)
  from stalled [of d ss] d obtain h where "hosted_steps ss d = Inr h" "unmoved d h"
    "buf (message_buffer h) = take 1025 (sends ss)"
    "messages_dropped h = word_of_nat (length (sends ss) - 1025)" by auto
  moreover from this have "hosted_steps ([Completed True, Send m] @ ss) ?c = Inr h"
    unfolding hosted_steps_append d(1) by simp
  ultimately show "\<exists>h. hosted_steps (Completed True # Send m # ss) ?c = Inr h
      \<and> \<not> event_loop_idle h \<and> cq_tags h = [] \<and> writes (wire h) = [] \<and> messages_sent h = 0
      \<and> buf (message_buffer h) = take (MaxPendingMessagesSize + 1) (sends ss)
      \<and> messages_dropped h = word_of_nat (length (sends ss) - (MaxPendingMessagesSize + 1))"
    using d by (intro exI [of _ h]) (simp add: unmoved_def MaxPendingMessagesSize_def)
qed

section \<open>Witness\<close>

text \<open>A factory whose streams start a call of their own before that of the library.\<close>

definition example_factory :: "nat async_stream_factory" where
  "example_factory client_ctx g =
     TraceAsyncStreamFactoryImpl client_ctx (g\<lparr>started := started g @ [Start_Call ''/own'' []]\<rparr>)"

lemma example_factory_lawful: "stream_provider example_factory"
  by unfold_locales (simp_all add: example_factory_def TraceAsyncStreamFactoryImpl_def trace_stream_lawful)

lemma lawful_factory_is_invisible_witness:
  "\<exists>h h'. hosted_steps example_history (hosted_createClient ''key'' (Some example_factory)) = Inr h
    \<and> writes (wire h) = [1, 2] \<and> hosted_resetClient [False] h = Inr h' \<and> cq_tags h' = []
    \<and> wire (hosted_createClient ''key'' (Some example_factory))
      = [Start_Call ''/own'' [], Start_Call TraceCollectMethod [(''authentication'', ''key'')]]"
proof -
  have "\<And>f. Some example_factory = Some f \<Longrightarrow> stream_provider f" using example_factory_lawful by simp
  from lawful_factory_is_invisible [OF this, where ss = example_history and tok = "''key''" and ok = False and oks = "[]"] obtain h c h' c' where
    run: "hosted_steps example_history (hosted_createClient ''key'' (Some example_factory)) = Inr h"
      "client_steps example_history (createClient ''key'') = Inr c" "same_client h c"
      "hosted_resetClient [False] h = Inr h'" "resetClient [False] c = Inr c'" "same_client h' c'" by blast
  moreover have "writes (wire c) = [1, 2]" using example_history_runs run(2) by auto
  moreover have "cq_tags c' = []" using reset_result [OF run(2), of "[False]"] run(5) by auto
  moreover have "wire (hosted_createClient ''key'' (Some example_factory))
      = [Start_Call ''/own'' [], Start_Call TraceCollectMethod [(''authentication'', ''key'')]]"
    by (simp add: hosted_createClient_def hosted_startStream_def grpc_of_def with_grpc_def
        example_factory_def TraceAsyncStreamFactoryImpl_def AuthenticationKey_def Let_def)
  ultimately show ?thesis by (auto simp: same_client_def)
qed

end
