(* ===== verification/Lifetimes.thy ===== *)
theory Lifetimes
  imports Tracer Span_Guards
begin

text \<open>
  How long a context lives. A \<open>TracingContextSharedPtr\<close> of \<^verbatim>\<open>cpp2sky/tracing_context.h\<close> shares the
  ownership of a context; a \<open>TracingSpanSharedPtr\<close>, and with it a scope guard, shares that of a
  \<open>TracingSpanImpl\<close>, whose \<open>span_store_\<close> is a reference into the segment of the context and keeps
  nothing alive (\<^verbatim>\<open>source/tracing_context_impl.h\<close>). \<open>TracerImpl::report\<close> takes its pointer by value,
  so that the pointer moved into it is gone when it returns.
\<close>

section \<open>Contexts with an owner count\<close>

text \<open>
  When no pointer is left the context is destroyed, and the segment with it; the \<open>TracingSpanImpl\<close>
  objects that guards hold live on, each with its own \<open>finished_\<close> and a dangling \<open>span_store_\<close>.
\<close>

record shared_context =
  pointee :: tracing_context
  use_count :: nat

definition make_shared :: "tracing_context \<Rightarrow> shared_context" where
  "make_shared c = \<lparr>pointee = c, use_count = 1\<rparr>"

definition copy_pointer :: "shared_context \<Rightarrow> shared_context" where
  "copy_pointer s = s\<lparr>use_count := use_count s + 1\<rparr>"

definition release_pointer :: "shared_context \<Rightarrow> shared_context" where
  "release_pointer s =
     (if use_count s \<le> 1 then \<lparr>pointee = (pointee s)\<lparr>spans := [], segment_store := None\<rparr>, use_count = 0\<rparr>
      else s\<lparr>use_count := use_count s - 1\<rparr>)"

text \<open>
  A call on a span: what it does to the context and the spans, or returns. A call that gets as far
  as the segment when that has been freed has a fault of its own.
\<close>

definition on_span :: "(tracing_context \<Rightarrow> 'a outcome) \<Rightarrow> shared_context \<Rightarrow> 'a outcome" where
  "on_span call s = (case call (pointee s) of
       Inl f \<Rightarrow> Inl (if f = MovedFrom \<and> use_count s = 0 then UseAfterFree else f)
     | Inr x \<Rightarrow> Inr x)"

text \<open>\<open>report(std::move(ctx))\<close>, for a pointer that owns a context.\<close>

definition report_moved ::
  "(segment_object \<Rightarrow> 'c \<Rightarrow> 'c outcome) \<Rightarrow> (string \<Rightarrow> string \<Rightarrow> bool)
   \<Rightarrow> shared_context \<Rightarrow> 'c tracer \<Rightarrow> (bool \<times> shared_context \<times> 'c tracer) outcome"
where
  "report_moved send ends_with s t =
     and_then (report send ends_with (Some (pointee s)) t) (\<lambda>(sent, ctx, t).
     Inr (sent, release_pointer (case ctx of None \<Rightarrow> s | Some c \<Rightarrow> s\<lparr>pointee := c\<rparr>), t))"

section \<open>A guard and its context\<close>

lemma freed_change:
  assumes "h < length (span_objects c)" and "\<not> finished (span_objects c ! h)" and "segment_store c = None"
  shows "change_span ch h c = Inl MovedFrom"
  by (cases ch) (use assms in \<open>simp_all add: span_setter_defs assert_unfinished_def update_span_def
      segment_of_def require_def\<close>)

lemma open_span:
  assumes "live c" and "table_of c = tab @ (so, False) # rest" and "h = length tab"
  shows "h < length (span_objects c)" and "\<not> finished (span_objects c ! h)"
proof -
  from assms(1) obtain seg where seg: "segment_store c = Some seg" "context_inv c"
    by (auto simp: live_def)
  show h: "h < length (span_objects c)" using length_table [OF seg] assms(2,3) by simp
  show "\<not> finished (span_objects c ! h)"
    using table_nth [OF seg h] assms(2,3) by (simp add: nth_append)
qed

lemma freed_span:
  assumes "h < length (span_objects c)" and "\<not> finished (span_objects c ! h)"
    and "s = release_pointer \<lparr>pointee = c, use_count = 1\<rparr>"
  shows "on_span (span_finished h) s = Inr False" and "on_span (end_guard h ticks now) s = Inl UseAfterFree"
    and "on_span (change_span ch h) s = Inl UseAfterFree" and "on_span (span_of h) s = Inl UseAfterFree"
proof -
  let ?d = "c\<lparr>spans := [], segment_store := None\<rparr>"
  have s: "s = \<lparr>pointee = ?d, use_count = 0\<rparr>" using assms(3) by (simp add: release_pointer_def)
  have gone: "change_span ch h ?d = Inl MovedFrom" for ch
    by (rule freed_change) (use assms(1,2) in simp_all)
  show "on_span (change_span ch h) s = Inl UseAfterFree"
    using gone [of ch] by (simp only: s on_span_def) simp
  show "on_span (end_guard h ticks now) s = Inl UseAfterFree"
    using gone [of "End_Span (fetch ticks now)"] by (simp add: s on_span_def end_guard_def endSpan_def)
  show "on_span (span_finished h) s = Inr False" "on_span (span_of h) s = Inl UseAfterFree"
    using assms(1,2) by (simp_all add: s on_span_def span_finished_def span_of_def segment_of_def)
qed

lemma moved_when_finished:
  assumes "live c" and "list_all snd (table_of c)" and "\<not> ignored_table (ignore_matcher t) (table_of c)"
    and "ends_with_spec ends_with" and "client_ready (reporter_client t)" and "2 \<le> n"
  shows "\<exists>s t'. report_moved sendMessage ends_with \<lparr>pointee = c, use_count = n - 1\<rparr> t = Inr (True, s, t')
    \<and> use_count s = n - 2"
proof -
  from assms(1) obtain seg where "segment_store c = Some seg" "context_inv c" by (auto simp: live_def)
  from grpc_sink.report_accepted [OF this assms(4,2,3,5)] obtain ctx t' where
    "report sendMessage ends_with (Some c) t = Inr (True, ctx, t')" by blast
  with assms(6) show ?thesis by (auto simp: report_moved_def release_pointer_def split: option.split)
qed

text \<open>C32. A scope guard does not keep its context alive. Reporting a context by a moved pointer while
  a guard still holds one of its spans returns false, as the span is not finished; if the pointer
  was the last one, the context and its segment are gone then. The span still says that it is not
  finished, but the destructor of the guard, every change of the span and every getter that reads
  the segment is an access to freed memory. If another pointer is left the guard ends its span, and
  when that was the last open span the context can be reported by that pointer.\<close>

theorem guard_must_not_outlive_context:
  assumes "live c" and "table_of c = tab @ (so, False) # rest" and "h = length tab"
    and "1 \<le> n" and "ends_with_spec ends_with" and "client_ready (reporter_client t)"
  shows "\<exists>s. report_moved sendMessage ends_with \<lparr>pointee = c, use_count = n\<rparr> t = Inr (False, s, t)
    \<and> (if n = 1 then on_span (span_finished h) s = Inr False
         \<and> on_span (end_guard h ticks now) s = Inl UseAfterFree
         \<and> (\<forall>ch. on_span (change_span ch h) s = Inl UseAfterFree)
         \<and> on_span (span_of h) s = Inl UseAfterFree
       else \<exists>c'. on_span (end_guard h ticks now) s = Inr c' \<and> use_count s = n - 1
         \<and> table_of c' = tab @ (so\<lparr>so_endtime := fetch ticks now\<rparr>, True) # rest
         \<and> (list_all snd (tab @ rest) \<and> \<not> ignored_table (ignore_matcher t) (table_of c') \<longrightarrow>
             (\<exists>s' t'. report_moved sendMessage ends_with (s\<lparr>pointee := c'\<rparr>) t = Inr (True, s', t')
               \<and> use_count s' = n - 2)))"
proof -
  from assms(1) have c: "segment_store c \<noteq> None" "context_inv c" by (auto simp: live_def)
  from assms(2) have "\<not> list_all snd (table_of c)" by simp
  with report_refused [OF c assms(5)]
  have refused: "report sendMessage ends_with (Some c) t = Inr (False, Some c, t)" by blast
  let ?s = "release_pointer \<lparr>pointee = c, use_count = n\<rparr>"
  from refused have first: "report_moved sendMessage ends_with \<lparr>pointee = c, use_count = n\<rparr> t
      = Inr (False, ?s, t)" by (simp add: report_moved_def)
  show ?thesis
  proof (cases "n = 1")
    case True
    with first freed_span [OF open_span [OF assms(1-3)], of ?s] show ?thesis
      by (intro exI [of _ ?s]) simp
  next
    case False
    with assms(4) have n: "2 \<le> n" by simp
    then have s: "?s = \<lparr>pointee = c, use_count = n - 1\<rparr>" by (simp add: release_pointer_def)
    from end_guard_live [OF assms(1-3), of ticks now] obtain c' where
      c': "end_guard h ticks now c = Inr c'" "live c'"
        "table_of c' = tab @ (so\<lparr>so_endtime := fetch ticks now\<rparr>, True) # rest" by blast
    have "list_all snd (tab @ rest) \<Longrightarrow> list_all snd (table_of c')" by (simp add: c'(3))
    with moved_when_finished [OF c'(2) _ _ assms(5,6) n] have
      "list_all snd (tab @ rest) \<and> \<not> ignored_table (ignore_matcher t) (table_of c') \<longrightarrow>
        (\<exists>s' t'. report_moved sendMessage ends_with (?s\<lparr>pointee := c'\<rparr>) t = Inr (True, s', t')
          \<and> use_count s' = n - 2)" by (simp add: s)
    moreover have "on_span (end_guard h ticks now) ?s = Inr c'" "use_count ?s = n - 1"
      by (simp_all add: s on_span_def c'(1))
    ultimately show ?thesis using first c'(3) unfolding if_not_P [OF False] by blast
  qed
qed

section \<open>Witness\<close>

theorem guard_must_not_outlive_context_witness:
  "\<exists>c s1 s2. StartEntrySpan (Some example_context) (view_of ''op'') 1000000 \<lparr>point = 0\<rparr> = Inr (0, c)
    \<and> report_moved sendMessage ends_with_by_drop (make_shared c) example_tracer
        = Inr (False, s1, example_tracer)
    \<and> on_span (end_guard 0 1000000 \<lparr>point = 5\<rparr>) s1 = Inl UseAfterFree
    \<and> report_moved sendMessage ends_with_by_drop (copy_pointer (make_shared c)) example_tracer
        = Inr (False, s2, example_tracer)
    \<and> (\<exists>c' s'' t'. on_span (end_guard 0 1000000 \<lparr>point = 5\<rparr>) s2 = Inr c'
        \<and> report_moved sendMessage ends_with_by_drop (s2\<lparr>pointee := c'\<rparr>) example_tracer = Inr (True, s'', t'))"
proof -
  note new = new_context [OF example_new]
  have live: "live example_context" using new(1,2) by (simp add: live_def)
  from StartEntrySpan_live [OF live new(3), of "''op''" 1000000 "\<lparr>point = 0\<rparr>"] obtain c so where
    c: "StartEntrySpan (Some example_context) (view_of ''op'') 1000000 \<lparr>point = 0\<rparr> = Inr (0, c)" "live c"
      "table_of c = [] @ (so, False) # []" and name: "so_operationname so = ''op''" by auto
  have ready: "client_ready (reporter_client example_tracer)"
    by (simp add: example_tracer_def client_ready_new)
  have kept: "\<not> ignored_table (ignore_matcher example_tracer) [(so\<lparr>so_endtime := e\<rparr>, True)]" for e
    using name by (auto simp: ignored_table_def example_tracer_def new_suffix_matcher_def
        dest: suffix_length_le)
  have one: "1 \<le> (1 :: nat)" "1 \<le> (2 :: nat)" "(2 :: nat) \<noteq> 1" by simp_all
  note run = guard_must_not_outlive_context [OF c(2,3) list.size(3) [symmetric] _ ends_with_by_drop_spec ready,
      of _ 1000000 "\<lparr>point = 5\<rparr>"]
  from run [OF one(1), unfolded if_P [OF refl]] obtain s1 where
    s1: "report_moved sendMessage ends_with_by_drop (make_shared c) example_tracer
      = Inr (False, s1, example_tracer)" "on_span (end_guard 0 1000000 \<lparr>point = 5\<rparr>) s1 = Inl UseAfterFree"
    unfolding make_shared_def by blast
  have copied: "copy_pointer (make_shared c) = \<lparr>pointee = c, use_count = 2\<rparr>"
    by (simp add: make_shared_def copy_pointer_def)
  from run [OF one(2), unfolded if_not_P [OF one(3)]] obtain s2 c' where
    s2: "report_moved sendMessage ends_with_by_drop (copy_pointer (make_shared c)) example_tracer
      = Inr (False, s2, example_tracer)" "on_span (end_guard 0 1000000 \<lparr>point = 5\<rparr>) s2 = Inr c'"
    and tab: "table_of c' = [] @ (so\<lparr>so_endtime := fetch 1000000 \<lparr>point = 5\<rparr>\<rparr>, True) # []"
    and then_sent: "list_all snd ([] @ [] :: span_table) \<and> \<not> ignored_table (ignore_matcher example_tracer) (table_of c') \<longrightarrow>
      (\<exists>s'' t'. report_moved sendMessage ends_with_by_drop (s2\<lparr>pointee := c'\<rparr>) example_tracer = Inr (True, s'', t')
        \<and> use_count s'' = 2 - 2)" unfolding copied by blast
  from then_sent kept tab obtain s'' t' where
    "report_moved sendMessage ends_with_by_drop (s2\<lparr>pointee := c'\<rparr>) example_tracer = Inr (True, s'', t')"
    by auto
  with c(1) s1 s2 show ?thesis by blast
qed

end
