(* ===== verification/Async_Client_Threads.thy ===== *)
theory Async_Client_Threads
  imports Async_Client_Spec
begin

text \<open>
  The reporter client under concurrency: the parts of \<open>sendMessage\<close>, \<open>sendMessageOnce\<close>,
  \<open>startStream\<close>, \<open>resetClient\<close>, the event loop and the two callbacks of
  \<^verbatim>\<open>source/grpc_async_client_impl.{h,cc}\<close> as the threads of a program interleave them. A step is
  one access to shared state: a load, a store or a read-modify-write of an atomic variable or of
  \<open>exited_\<close>, a method of the buffer, which holds its mutex, a test of the pointer to the stream or an
  assignment to it, or a call into gRPC, in which the reading of the pointer the call goes through is
  included (\<open>start_write\<close>, \<open>bad_write\<close>). The shutdown of the completion queue and the join are a step
  each. What only logs is no step. Thread 0 is the event loop, threads \<open>1\<close> to \<open>n\<close> belong to the
  application and thread 1 runs the constructor. An operation must not be started on a completion
  queue that has been shut down, which gRPC documents, and a thread must not be joined twice: the
  step that does is a failure, like a failed assertion and a call through a null pointer.
\<close>

section \<open>Threads\<close>

text \<open>
  Where a thread is in the code. \<open>At_Rest\<close> is outside of any call, for the event loop in \<open>Next\<close>.
\<close>

datatype 'm pc =
    At_Rest
  | Counted 'm
  | Overflowed
  | Admitted 'm
  | Try_Idle
  | Won
  | Popping
  | Found_Empty
  | Found 'm
  | Got event_tag bool
  | Callback bool
  | Marking
  | Failing
  | Replacing
  | Dropping
  | Opening_Stream
  | Opened
  | Loop_Ended
  | Reset_Flagged
  | Reset_Cleared
  | Exit_Tested
  | Exit_Flagged
  | Reset_Joining
  | Reset_Joined

record 'm threads =
  pcs :: "nat \<Rightarrow> 'm pc"
  t_total :: uint64
  t_dropped :: uint64
  t_sent :: uint64
  t_exited :: bool
  t_shutdown :: bool
  t_joined :: bool
  t_reset :: bool
  t_idle :: bool
  t_buffer :: "'m value_buffer"
  t_stream :: bool
  t_wire :: "'m operation list"
  t_tags :: "event_tag list"
  t_failed :: bool
  t_pushed :: "'m list"
  t_discarded :: "'m list"

definition goto :: "nat \<Rightarrow> 'm pc \<Rightarrow> 'm threads \<Rightarrow> 'm threads" where
  "goto t p s = s\<lparr>pcs := (pcs s)(t := p)\<rparr>"

text \<open>
  The constructor has initialised the members and started the event loop; thread 1 is about to
  enter \<open>startStream\<close>. \<open>constructed\<close> is the state when it has returned and no completion has
  been taken off the queue yet. \<open>t_pushed\<close> records the messages in the order they entered the
  buffer, \<open>t_discarded\<close> those that a reset discarded; \<open>t_failed\<close> records that the program has
  failed.
\<close>

definition constructing :: "'m threads" where
  "constructing = \<lparr>pcs = (\<lambda>_. At_Rest)(1 := Replacing), t_total = 0, t_dropped = 0,
     t_sent = 0, t_exited = False, t_shutdown = False, t_joined = False, t_reset = False,
     t_idle = False, t_buffer = empty_buffer, t_stream = False, t_wire = [], t_tags = [],
     t_failed = False, t_pushed = [], t_discarded = []\<rparr>"

definition constructed :: "metadata \<Rightarrow> 'm threads" where
  "constructed md = constructing\<lparr>pcs := \<lambda>_. At_Rest, t_stream := True, t_wire := [Start_Call TraceCollectMethod md],
     t_tags := [Basic_Event]\<rparr>"

inductive tstep :: "nat \<Rightarrow> metadata \<Rightarrow> 'm threads \<Rightarrow> 'm threads \<Rightarrow> bool" for n md where
  call: "pcs s t = At_Rest \<Longrightarrow> 1 \<le> t \<Longrightarrow> t \<le> n \<Longrightarrow>
    tstep n md s (goto t (Counted m) (s\<lparr>t_total := t_total s + 1\<rparr>))"
| full: "pcs s t = Counted m \<Longrightarrow> buffer_size (t_buffer s) > MaxPendingMessagesSize \<Longrightarrow>
    tstep n md s (goto t Overflowed s)"
| room: "pcs s t = Counted m \<Longrightarrow> \<not> buffer_size (t_buffer s) > MaxPendingMessagesSize \<Longrightarrow>
    tstep n md s (goto t (Admitted m) s)"
| overflow: "pcs s t = Overflowed \<Longrightarrow>
    tstep n md s (goto t At_Rest (s\<lparr>t_dropped := t_dropped s + 1\<rparr>))"
| push: "pcs s t = Admitted m \<Longrightarrow>
    tstep n md s (goto t Try_Idle
      (s\<lparr>t_buffer := push_back m (t_buffer s), t_pushed := t_pushed s @ [m]\<rparr>))"
| cas_won: "pcs s t = Try_Idle \<Longrightarrow> t_idle s \<Longrightarrow>
    tstep n md s (goto t Won (s\<lparr>t_idle := False\<rparr>))"
| cas_lost: "pcs s t = Try_Idle \<Longrightarrow> \<not> t_idle s \<Longrightarrow>
    tstep n md s (goto t At_Rest s)"
| has_stream: "pcs s t = Won \<Longrightarrow> t_stream s \<Longrightarrow>
    tstep n md s (goto t Popping s)"
| no_stream: "pcs s t = Won \<Longrightarrow> \<not> t_stream s \<Longrightarrow>
    tstep n md s (s\<lparr>t_failed := True\<rparr>)"
| pop_none: "pcs s t = Popping \<Longrightarrow> pop_front (t_buffer s) = (None, b) \<Longrightarrow>
    tstep n md s (goto t Found_Empty (s\<lparr>t_buffer := b\<rparr>))"
| pop_some: "pcs s t = Popping \<Longrightarrow> pop_front (t_buffer s) = (Some m, b) \<Longrightarrow>
    tstep n md s (goto t (Found m) (s\<lparr>t_buffer := b\<rparr>))"
| mark_idle: "pcs s t = Found_Empty \<Longrightarrow>
    tstep n md s (goto t At_Rest (s\<lparr>t_idle := True\<rparr>))"
| start_write: "pcs s t = Found m \<Longrightarrow> t_stream s \<Longrightarrow> \<not> t_shutdown s \<Longrightarrow>
    tstep n md s (goto t At_Rest
      (s\<lparr>t_wire := t_wire s @ [Write m], t_tags := t_tags s @ [Write_Event]\<rparr>))"
| bad_write: "pcs s t = Found m \<Longrightarrow> \<not> t_stream s \<or> t_shutdown s \<Longrightarrow>
    tstep n md s (s\<lparr>t_failed := True\<rparr>)"
| next_event: "pcs s 0 = At_Rest \<Longrightarrow> t_tags s = us @ tag # vs \<Longrightarrow>
    tstep n md s (goto 0 (Got tag ok) (s\<lparr>t_tags := us @ vs\<rparr>))"
| next_drained: "pcs s 0 = At_Rest \<Longrightarrow> t_shutdown s \<Longrightarrow> t_tags s = [] \<Longrightarrow>
    tstep n md s (goto 0 Loop_Ended s)"
| basic_event: "pcs s 0 = Got Basic_Event ok \<Longrightarrow>
    tstep n md s (goto 0 (Callback ok) s)"
| write_event: "pcs s 0 = Got Write_Event ok \<Longrightarrow>
    tstep n md s (goto 0 (Callback ok)
      (if ok then s\<lparr>t_sent := t_sent s + 1\<rparr> else s\<lparr>t_dropped := t_dropped s + 1\<rparr>))"
| event_reset: "pcs s 0 = Callback ok \<Longrightarrow> t_reset s \<Longrightarrow>
    tstep n md s (goto 0 At_Rest s)"
| event_ok: "pcs s 0 = Callback True \<Longrightarrow> \<not> t_reset s \<Longrightarrow>
    tstep n md s (goto 0 Marking s)"
| mark_event: "pcs s 0 = Marking \<Longrightarrow>
    tstep n md s (goto 0 Try_Idle (s\<lparr>t_idle := True\<rparr>))"
| event_failed: "pcs s 0 = Callback False \<Longrightarrow> \<not> t_reset s \<Longrightarrow>
    tstep n md s (goto 0 Failing s)"
| event_assert: "pcs s 0 = Failing \<Longrightarrow> t_idle s \<Longrightarrow>
    tstep n md s (s\<lparr>t_failed := True\<rparr>)"
| not_idle: "pcs s 0 = Failing \<Longrightarrow> \<not> t_idle s \<Longrightarrow>
    tstep n md s (goto 0 Replacing s)"
| old_stream: "pcs s t = Replacing \<Longrightarrow> t_stream s \<Longrightarrow>
    tstep n md s (goto t Dropping s)"
| no_old_stream: "pcs s t = Replacing \<Longrightarrow> \<not> t_stream s \<Longrightarrow>
    tstep n md s (goto t Opening_Stream s)"
| drop_stream: "pcs s t = Dropping \<Longrightarrow>
    tstep n md s (goto t Opening_Stream (s\<lparr>t_stream := False\<rparr>))"
| create_stream: "pcs s t = Opening_Stream \<Longrightarrow> \<not> t_shutdown s \<Longrightarrow>
    tstep n md s (goto t Opened
      (s\<lparr>t_wire := t_wire s @ [Start_Call TraceCollectMethod md], t_tags := t_tags s @ [Basic_Event]\<rparr>))"
| bad_create: "pcs s t = Opening_Stream \<Longrightarrow> t_shutdown s \<Longrightarrow>
    tstep n md s (s\<lparr>t_failed := True\<rparr>)"
| set_stream: "pcs s t = Opened \<Longrightarrow>
    tstep n md s (goto t At_Rest (s\<lparr>t_stream := True\<rparr>))"
| reset: "pcs s t = At_Rest \<Longrightarrow> 1 \<le> t \<Longrightarrow> t \<le> n \<Longrightarrow>
    tstep n md s (goto t Reset_Flagged (s\<lparr>t_reset := True\<rparr>))"
| clear: "pcs s t = Reset_Flagged \<Longrightarrow>
    tstep n md s (goto t Reset_Cleared (s\<lparr>t_buffer := buffer_clear (t_buffer s),
      t_discarded := t_discarded s @ buf (t_buffer s)\<rparr>))"
| not_exited: "pcs s t = Reset_Cleared \<Longrightarrow> \<not> t_exited s \<Longrightarrow>
    tstep n md s (goto t Exit_Tested s)"
| already_exited: "pcs s t = Reset_Cleared \<Longrightarrow> t_exited s \<Longrightarrow>
    tstep n md s (goto t Reset_Joined s)"
| set_exited: "pcs s t = Exit_Tested \<Longrightarrow>
    tstep n md s (goto t Exit_Flagged (s\<lparr>t_exited := True\<rparr>))"
| shutdown: "pcs s t = Exit_Flagged \<Longrightarrow>
    tstep n md s (goto t Reset_Joining (s\<lparr>t_shutdown := True\<rparr>))"
| join: "pcs s t = Reset_Joining \<Longrightarrow> pcs s 0 = Loop_Ended \<Longrightarrow> \<not> t_joined s \<Longrightarrow>
    tstep n md s (goto t Reset_Joined (s\<lparr>t_joined := True\<rparr>))"
| bad_join: "pcs s t = Reset_Joining \<Longrightarrow> t_joined s \<Longrightarrow>
    tstep n md s (s\<lparr>t_failed := True\<rparr>)"
| reset_stream: "pcs s t = Reset_Joined \<Longrightarrow>
    tstep n md s (goto t At_Rest (s\<lparr>t_stream := False\<rparr>))"

inductive reachable :: "nat \<Rightarrow> metadata \<Rightarrow> 'm threads \<Rightarrow> 'm threads \<Rightarrow> bool" for n md s where
  start: "reachable n md s s"
| more: "reachable n md s s' \<Longrightarrow> tstep n md s' s'' \<Longrightarrow> reachable n md s s''"

inductive_cases tstepE: "tstep n md s s'"

lemma goto_simps [simp]:
  "pcs (goto t p s) = (pcs s)(t := p)" "t_idle (goto t p s) = t_idle s"
  "t_buffer (goto t p s) = t_buffer s" "t_stream (goto t p s) = t_stream s"
  "t_wire (goto t p s) = t_wire s" "t_tags (goto t p s) = t_tags s"
  "t_failed (goto t p s) = t_failed s" "t_pushed (goto t p s) = t_pushed s"
  "t_exited (goto t p s) = t_exited s" "t_shutdown (goto t p s) = t_shutdown s"
  "t_joined (goto t p s) = t_joined s" "t_discarded (goto t p s) = t_discarded s"
  "t_reset (goto t p s) = t_reset s"
  "t_total (goto t p s) = t_total s" "t_dropped (goto t p s) = t_dropped s"
  "t_sent (goto t p s) = t_sent s"
  by (simp_all add: goto_def)

section \<open>One operation at a time\<close>

text \<open>
  Permission to operate on the stream is a token that is in at most one place: the idle flag, an
  outstanding operation, or the thread that won the flag or is handling a completion. Only the
  completion that finds the client reset gives the token up for good.
\<close>

definition holds :: "'m pc \<Rightarrow> bool" where
  "holds p = (case p of Won \<Rightarrow> True | Popping \<Rightarrow> True | Found_Empty \<Rightarrow> True | Found _ \<Rightarrow> True | Got _ _ \<Rightarrow> True
     | Callback _ \<Rightarrow> True | Marking \<Rightarrow> True | Failing \<Rightarrow> True | Replacing \<Rightarrow> True | Dropping \<Rightarrow> True
     | Opening_Stream \<Rightarrow> True | _ \<Rightarrow> False)"

definition holders :: "'m threads \<Rightarrow> nat set" where
  "holders s = {t. holds (pcs s t)}"

definition token_inv :: "'m threads \<Rightarrow> bool" where
  "token_inv s \<longleftrightarrow>
     t_idle s \<and> holders s = {} \<and> t_tags s = []
   \<or> \<not> t_idle s \<and> (\<exists>t. holders s = {t}) \<and> t_tags s = []
   \<or> \<not> t_idle s \<and> holders s = {} \<and> (\<exists>tag. t_tags s = [tag])
   \<or> \<not> t_idle s \<and> holders s = {} \<and> t_tags s = [] \<and> t_reset s"

lemma holders_update:
  "holders (s\<lparr>pcs := (pcs s)(t := p)\<rparr>) = (if holds p then insert t (holders s) else holders s - {t})"
  by (auto simp: holders_def)

lemma holders_goto [simp]:
  "holders (goto t p s) = (if holds p then insert t (holders s) else holders s - {t})"
  by (simp add: goto_def holders_update)

lemma holders_fields [simp]:
  "holders (s\<lparr>t_total := u\<rparr>) = holders s" "holders (s\<lparr>t_dropped := u\<rparr>) = holders s"
  "holders (s\<lparr>t_sent := u\<rparr>) = holders s" "holders (s\<lparr>t_idle := i\<rparr>) = holders s"
  "holders (s\<lparr>t_buffer := b\<rparr>) = holders s" "holders (s\<lparr>t_stream := st\<rparr>) = holders s"
  "holders (s\<lparr>t_wire := w\<rparr>) = holders s" "holders (s\<lparr>t_tags := ts\<rparr>) = holders s"
  "holders (s\<lparr>t_failed := f\<rparr>) = holders s" "holders (s\<lparr>t_pushed := ps\<rparr>) = holders s"
  "holders (s\<lparr>t_exited := f\<rparr>) = holders s" "holders (s\<lparr>t_shutdown := f\<rparr>) = holders s"
  "holders (s\<lparr>t_joined := f\<rparr>) = holders s" "holders (s\<lparr>t_discarded := k\<rparr>) = holders s"
  "holders (s\<lparr>t_reset := f\<rparr>) = holders s"
  by (simp_all add: holders_def)

lemma holder_iff: "pcs s t = p \<Longrightarrow> t \<in> holders s \<longleftrightarrow> holds p"
  by (auto simp: holders_def)

lemma holds_simps [simp]:
  "\<not> holds At_Rest" "\<not> holds (Counted m)" "\<not> holds (Admitted m)" "\<not> holds Try_Idle" "\<not> holds Overflowed"
  "holds Won" "holds Popping" "holds Found_Empty" "holds (Found m)" "holds (Got tag ok)" "holds (Callback ok)"
  "holds Marking" "holds Failing" "holds Replacing" "holds Dropping"
  "holds Opening_Stream" "\<not> holds Opened" "\<not> holds Loop_Ended" "\<not> holds Reset_Flagged"
  "\<not> holds Reset_Cleared" "\<not> holds Exit_Tested" "\<not> holds Exit_Flagged"
  "\<not> holds Reset_Joining" "\<not> holds Reset_Joined"
  by (simp_all add: holds_def)

text \<open>The ways a step moves the token.\<close>

lemma token_same:
  assumes "token_inv s" and "holders s' = holders s" and "t_idle s' = t_idle s" and "t_tags s' = t_tags s"
    and "t_reset s \<Longrightarrow> t_reset s'"
  shows "token_inv s'"
  using assms by (auto simp: token_inv_def)

lemma token_taken:
  assumes "token_inv s" and "t_idle s" and "holders s' = insert t (holders s)"
    and "\<not> t_idle s'" and "t_tags s' = t_tags s"
  shows "token_inv s'"
  using assms by (auto simp: token_inv_def)

lemma token_freed:
  assumes "token_inv s" and "t \<in> holders s" and "holders s' = holders s - {t}"
    and "t_idle s'" and "t_tags s' = t_tags s"
  shows "token_inv s'"
  using assms by (auto simp: token_inv_def)

lemma token_queued:
  assumes "token_inv s" and "t \<in> holders s" and "holders s' = holders s - {t}"
    and "t_idle s' = t_idle s" and "t_tags s' = t_tags s @ [tag]"
  shows "token_inv s'"
  using assms by (auto simp: token_inv_def)

lemma token_dequeued:
  assumes "token_inv s" and "t_tags s = us @ tag # vs" and "holders s' = insert t (holders s)"
    and "t_idle s' = t_idle s" and "t_tags s' = us @ vs"
  shows "token_inv s'"
  using assms by (auto simp: token_inv_def Cons_eq_append_conv append_eq_Cons_conv)

lemma token_dropped:
  assumes "token_inv s" and "t \<in> holders s" and "holders s' = holders s - {t}"
    and "t_idle s' = t_idle s" and "t_tags s' = t_tags s" and "t_reset s'"
  shows "token_inv s'"
  using assms by (auto simp: token_inv_def)

lemma token_step:
  assumes "tstep n md s s'" and "token_inv s"
  shows "token_inv s'"
  using assms(1)
proof (cases rule: tstep.cases)
  case (cas_won t)
  show ?thesis
    by (rule token_taken [OF assms(2), of _ t]) (use cas_won in simp_all)
next
  case (mark_idle t)
  show ?thesis
    by (rule token_freed [OF assms(2), of t]) (use mark_idle in \<open>simp_all add: holder_iff\<close>)
next
  case (start_write t m)
  show ?thesis
    by (rule token_queued [OF assms(2), of t]) (use start_write in \<open>simp_all add: holder_iff\<close>)
next
  case (next_event us tag vs ok)
  show ?thesis
    by (rule token_dequeued [OF assms(2), of us tag vs _ 0]) (use next_event in simp_all)
next
  case mark_event
  show ?thesis
    by (rule token_freed [OF assms(2), of 0]) (use mark_event in \<open>simp_all add: holder_iff\<close>)
next
  case event_reset
  show ?thesis
    by (rule token_dropped [OF assms(2), of 0]) (use event_reset in \<open>simp_all add: holder_iff\<close>)
next
  case (create_stream t)
  show ?thesis
    by (rule token_queued [OF assms(2), of t]) (use create_stream in \<open>simp_all add: holder_iff\<close>)
qed (rule token_same [OF assms(2)];
    use assms(1) in \<open>simp add: insert_absorb holder_iff\<close>)+

lemma holders_start: "holders (constructed md) = {}" "holders constructing = {1}"
  by (auto simp: holders_def constructed_def constructing_def)

lemma token_start: "token_inv (constructed md)" "token_inv constructing"
  by (simp_all add: token_inv_def holders_start) (simp_all add: constructed_def constructing_def)

lemma token_reachable: "reachable n md s s' \<Longrightarrow> token_inv s \<Longrightarrow> token_inv s'"
  by (induction rule: reachable.induct) (auto intro: token_step)

lemma holder_unique:
  assumes "token_inv s" and "holds (pcs s t)" and "holds (pcs s u)"
  shows "t = u"
proof -
  have "t \<in> holders s" "u \<in> holders s" using assms(2,3) by (simp_all add: holders_def)
  with assms(1) show ?thesis by (auto simp: token_inv_def)
qed

lemma holder_excludes:
  assumes "token_inv s" and "holds (pcs s t)"
  shows "\<not> t_idle s" and "t_tags s = []"
  using assms by (auto simp: token_inv_def holders_def)

text \<open>C9. All operations on the stream are done one by one under every interleaving, during the
  construction as well: there is at most one operation outstanding, at most one thread between
  winning the idle flag and giving it up, and not both; so the stream is never written while an
  earlier operation is unfinished.\<close>

theorem stream_operations_exclusive:
  assumes "reachable n md s0 s" and "s0 = constructing \<or> s0 = constructed md"
  shows "length (t_tags s) \<le> 1
    \<and> (\<forall>t u. holds (pcs s t) \<and> holds (pcs s u) \<longrightarrow> t = u)
    \<and> (\<forall>t. holds (pcs s t) \<longrightarrow> t_tags s = [] \<and> \<not> t_idle s)
    \<and> (t_idle s \<longrightarrow> t_tags s = [])"
proof -
  have inv: "token_inv s" using token_reachable [OF assms(1)] assms(2) token_start by blast
  then show ?thesis
    using holder_unique [OF inv] holder_excludes [OF inv] by (auto simp: token_inv_def)
qed

section \<open>Order of the messages\<close>

text \<open>
  Messages leave the buffer at the front, and a reset takes out all there are. So what was pushed is
  an older part, from which resets have taken messages, and a newer part that nothing has been taken
  from by a reset, and the messages in the buffer, \<open>k\<close> of them, are of the newer part.
\<close>

lemma shuffles_snoc:
  "zs \<in> shuffles xs ys \<Longrightarrow> zs @ us \<in> shuffles (xs @ us) ys"
proof (induction zs arbitrary: xs ys)
  case Nil
  then show ?case by (cases us) simp_all
next
  case (Cons z zs)
  from Cons.prems consider xs' where "xs = z # xs'" "zs \<in> shuffles xs' ys"
    | ys' where "ys = z # ys'" "zs \<in> shuffles xs ys'"
    by (cases xs; cases ys) (auto simp: Cons_in_shuffles_iff)
  then show ?case
    by cases (auto dest: Cons.IH intro: Cons_in_shuffles_leftI Cons_in_shuffles_rightI)
qed

lemma shuffles_snoc_right: "zs \<in> shuffles xs ys \<Longrightarrow> zs @ us \<in> shuffles xs (ys @ us)"
  using shuffles_snoc shuffles_commutes by blast

definition kept_order :: "'m list \<Rightarrow> 'm list \<Rightarrow> nat \<Rightarrow> 'm list \<Rightarrow> bool" where
  "kept_order ps gone k kept \<longleftrightarrow> (\<exists>old new left. ps = old @ new \<and> old \<in> shuffles left gone
     \<and> kept = left @ new \<and> k \<le> length new)"

lemma kept_order_push: "kept_order ps gone k kept \<Longrightarrow> kept_order (ps @ [m]) gone (Suc k) (kept @ [m])"
  unfolding kept_order_def by (metis append_assoc length_append_singleton Suc_le_mono)

lemma kept_order_mono: "kept_order ps gone k kept \<Longrightarrow> j \<le> k \<Longrightarrow> kept_order ps gone j kept"
  unfolding kept_order_def using le_trans by blast

lemma kept_order_clear:
  assumes "kept_order ps gone (length b) (kept @ b)"
  shows "kept_order ps (gone @ b) 0 kept"
proof -
  obtain old new left where o: "ps = old @ new" "old \<in> shuffles left gone"
    "kept @ b = left @ new" "length b \<le> length new"
    using assms by (auto simp: kept_order_def)
  then obtain mid where mid: "new = mid @ b" "kept = left @ mid"
    by (auto simp: append_eq_append_conv2)
  then have "ps \<in> shuffles kept (gone @ b)"
    using shuffles_snoc_right [OF shuffles_snoc [OF o(2), of mid], of b] o(1) by simp
  then show ?thesis
    unfolding kept_order_def by (intro exI [of _ ps] exI [of _ "[]"] exI [of _ kept]) simp
qed

lemma kept_order_shuffle: "kept_order ps gone k kept \<Longrightarrow> ps \<in> shuffles kept gone"
  by (auto simp: kept_order_def intro: shuffles_snoc)

definition order_inv :: "'m threads \<Rightarrow> bool" where
  "order_inv s \<longleftrightarrow> (\<exists>hand. (\<forall>t m. pcs s t = Found m \<longrightarrow> hand = [m])
     \<and> ((\<forall>t m. pcs s t \<noteq> Found m) \<longrightarrow> hand = [])
     \<and> kept_order (t_pushed s) (t_discarded s) (length (buf (t_buffer s)))
         (writes (t_wire s) @ hand @ buf (t_buffer s)))"

lemma order_same:
  assumes "order_inv s" and "\<And>t m. pcs s' t = Found m \<longleftrightarrow> pcs s t = Found m"
    and "writes (t_wire s') = writes (t_wire s)" and "buf (t_buffer s') = buf (t_buffer s)"
    and "t_pushed s' = t_pushed s" and "t_discarded s' = t_discarded s"
  shows "order_inv s'"
  using assms by (simp add: order_inv_def)

lemma order_step:
  assumes "tstep n md s s'" and "order_inv s" and "token_inv s"
  shows "order_inv s'"
proof -
  obtain hand where hand: "\<And>t m. pcs s t = Found m \<Longrightarrow> hand = [m]"
    "(\<And>t m. pcs s t \<noteq> Found m) \<Longrightarrow> hand = []"
    and kept: "kept_order (t_pushed s) (t_discarded s) (length (buf (t_buffer s)))
         (writes (t_wire s) @ hand @ buf (t_buffer s))"
    using assms(2) by (auto simp: order_inv_def)
  from assms(1) show ?thesis
  proof (cases rule: tstep.cases)
    case (push t m)
    then have "pcs s' u = Found m' \<longleftrightarrow> pcs s u = Found m'" for u m' by auto
    with push(1) hand kept_order_push [OF kept, of m] show ?thesis
      by (auto simp: order_inv_def vb.contents_push)
  next
    case (pop_none t b)
    have "buf (t_buffer s) = []"
      using vb.pop_nonempty [of "t_buffer s"] pop_none(3) by (cases "buf (t_buffer s)") auto
    with vb.pop_empty [of "t_buffer s"] pop_none(3) have "buf b = buf (t_buffer s)" by simp
    then show ?thesis
      by (intro order_same [OF assms(2)]) (use pop_none in \<open>auto split: if_splits\<close>)
  next
    case (pop_some t m b)
    have b: "buf (t_buffer s) = m # buf b"
      using vb.pop_nonempty [of "t_buffer s"] vb.pop_empty [of "t_buffer s"] pop_some(3)
      by (cases "buf (t_buffer s)") auto
    have none: "pcs s u \<noteq> Found m'" for u m'
      using holder_unique [OF assms(3), of t u] pop_some(2) by auto
    then have "hand = []" by (rule hand(2))
    then have "kept_order (t_pushed s) (t_discarded s) (length (buf b)) (writes (t_wire s) @ [m] @ buf b)"
      using kept_order_mono [OF kept, of "length (buf b)"] b by simp
    with none show ?thesis
      unfolding order_inv_def by (intro exI [of _ "[m]"]) (use pop_some in \<open>auto split: if_splits\<close>)
  next
    case (clear t)
    then have "pcs s' u = Found m' \<longleftrightarrow> pcs s u = Found m'" for u m' by auto
    moreover have "kept_order (t_pushed s) (t_discarded s @ buf (t_buffer s)) 0 (writes (t_wire s) @ hand)"
      by (rule kept_order_clear) (use kept in simp)
    ultimately show ?thesis
      unfolding order_inv_def
      by (intro exI [of _ hand]) (use clear hand in \<open>auto simp: vb.contents_discard\<close>)
  next
    case (start_write t m)
    have none: "u \<noteq> t \<Longrightarrow> pcs s u \<noteq> Found m'" for u m'
      using holder_unique [OF assms(3), of t u] start_write(2) by auto
    have "hand = [m]" by (rule hand(1) [OF start_write(2)])
    with kept none start_write show ?thesis
      unfolding order_inv_def by (intro exI [of _ "[]"]) (auto split: if_splits)
  qed (rule order_same [OF assms(2)]; auto split: if_splits)+
qed

lemma order_reachable:
  "reachable n md s s' \<Longrightarrow> token_inv s \<Longrightarrow> order_inv s \<Longrightarrow> order_inv s'"
proof (induction rule: reachable.induct)
  case (more s' s'')
  then show ?case using order_step token_reachable by blast
qed

lemma order_start: "order_inv (constructed md)"
  by (auto simp: order_inv_def kept_order_def constructed_def constructing_def empty_buffer_def)

definition in_hand :: "'m threads \<Rightarrow> 'm list \<Rightarrow> bool" where
  "in_hand s hand \<longleftrightarrow> (\<forall>t m. pcs s t = Found m \<longrightarrow> hand = [m]) \<and> (hand \<noteq> [] \<longrightarrow> (\<exists>t m. pcs s t = Found m))"

lemma pushed_in_order:
  assumes "reachable n md (constructed md) s"
  shows "\<exists>hand. in_hand s hand \<and> length hand \<le> 1
    \<and> t_pushed s \<in> shuffles (writes (t_wire s) @ hand @ buf (t_buffer s)) (t_discarded s)"
proof -
  have "order_inv s" using order_reachable [OF assms token_start(1) order_start] .
  then obtain hand where hand: "\<forall>t m. pcs s t = Found m \<longrightarrow> hand = [m]"
    "(\<forall>t m. pcs s t \<noteq> Found m) \<longrightarrow> hand = []"
    and "kept_order (t_pushed s) (t_discarded s) (length (buf (t_buffer s)))
         (writes (t_wire s) @ hand @ buf (t_buffer s))"
    unfolding order_inv_def by blast
  from kept_order_shuffle [OF this(3)] hand show ?thesis
    by (intro exI [of _ hand]) (auto simp: in_hand_def)
qed

section \<open>Assertions\<close>

definition resetting :: "'m pc \<Rightarrow> bool" where
  "resetting p \<longleftrightarrow> p \<in> {Reset_Flagged, Reset_Cleared, Exit_Tested, Exit_Flagged,
    Reset_Joining, Reset_Joined}"

definition loop_only :: "'m pc \<Rightarrow> bool" where
  "loop_only p = (case p of Got _ _ \<Rightarrow> True | Callback _ \<Rightarrow> True | Marking \<Rightarrow> True | Failing \<Rightarrow> True
     | Replacing \<Rightarrow> True | Dropping \<Rightarrow> True | Opening_Stream \<Rightarrow> True | Opened \<Rightarrow> True
     | Loop_Ended \<Rightarrow> True | _ \<Rightarrow> False)"

definition stream_inv :: "'m threads \<Rightarrow> bool" where
  "stream_inv s \<longleftrightarrow> t_reset s \<or> \<not> t_failed s \<and> \<not> t_shutdown s
     \<and> (\<forall>t. \<not> resetting (pcs s t))
     \<and> (\<forall>t. loop_only (pcs s t) \<longrightarrow> t = 0)
     \<and> (t_stream s \<or> pcs s 0 = Opening_Stream \<or> pcs s 0 = Opened)
     \<and> (pcs s 0 = Opened \<longrightarrow> t_tags s \<noteq> [])
     \<and> t_discarded s = []"

lemma resetting_simps [simp]:
  "\<not> resetting At_Rest" "\<not> resetting (Counted m)" "\<not> resetting (Admitted m)" "\<not> resetting Try_Idle"
  "\<not> resetting Won" "\<not> resetting Found_Empty" "\<not> resetting (Found m)" "\<not> resetting (Got tag ok)"
  "\<not> resetting (Callback ok)" "\<not> resetting Opening_Stream" "\<not> resetting Opened"
  "\<not> resetting Loop_Ended" "resetting Reset_Flagged" "resetting Reset_Cleared"
  "resetting Exit_Tested" "resetting Exit_Flagged"
  "resetting Reset_Joining" "resetting Reset_Joined" "\<not> resetting Overflowed"
  "\<not> resetting Popping" "\<not> resetting Marking" "\<not> resetting Failing" "\<not> resetting Replacing"
  "\<not> resetting Dropping"
  by (simp_all add: resetting_def)

lemma loop_only_simps [simp]:
  "\<not> loop_only At_Rest" "\<not> loop_only (Counted m)" "\<not> loop_only Overflowed" "\<not> loop_only (Admitted m)"
  "\<not> loop_only Try_Idle" "\<not> loop_only Won" "\<not> loop_only Popping" "\<not> loop_only Found_Empty"
  "\<not> loop_only (Found m)" "loop_only (Got tag ok)" "loop_only (Callback ok)" "loop_only Marking"
  "loop_only Failing" "loop_only Replacing" "loop_only Dropping" "loop_only Opening_Stream"
  "loop_only Opened" "loop_only Loop_Ended" "\<not> loop_only Reset_Flagged" "\<not> loop_only Reset_Cleared"
  "\<not> loop_only Exit_Tested" "\<not> loop_only Exit_Flagged" "\<not> loop_only Reset_Joining"
  "\<not> loop_only Reset_Joined"
  by (simp_all add: loop_only_def)

lemma operator_has_stream:
  assumes "token_inv s" and "stream_inv s" and "\<not> t_reset s" and "pcs s t = p"
    and "holds p" and "p \<noteq> Opening_Stream"
  shows "t_stream s"
proof (rule ccontr)
  assume "\<not> t_stream s"
  with assms(2,3) consider "pcs s 0 = Opening_Stream" | "pcs s 0 = Opened" "t_tags s \<noteq> []"
    by (auto simp: stream_inv_def)
  then show False
  proof cases
    case 1
    with holder_unique [OF assms(1), of t 0] assms(4-6) show False by auto
  next
    case 2
    with holder_excludes(2) [OF assms(1), of t] assms(4,5) show False by simp
  qed
qed

lemma stream_step:
  assumes "tstep n md s s'" and "stream_inv s" and "token_inv s"
  shows "stream_inv s'"
proof (cases "t_reset s")
  case True
  with assms(1) have "t_reset s'" by (cases rule: tstep.cases) simp_all
  then show ?thesis by (simp add: stream_inv_def)
next
  case False
  with assms(2) have inv: "\<not> t_failed s" "\<not> t_shutdown s" "\<And>t. \<not> resetting (pcs s t)"
    "\<And>t. loop_only (pcs s t) \<Longrightarrow> t = 0"
    "t_stream s \<or> pcs s 0 = Opening_Stream \<or> pcs s 0 = Opened"
    "pcs s 0 = Opened \<Longrightarrow> t_tags s \<noteq> []" "t_discarded s = []"
    unfolding stream_inv_def by blast+
  from assms(1) show ?thesis
  proof (cases rule: tstep.cases)
    case (no_stream t)
    have "t_stream s"
      by (rule operator_has_stream [OF assms(3,2) False no_stream(2)]) simp_all
    with no_stream show ?thesis by simp
  next
    case (bad_write t m)
    have "t_stream s"
      by (rule operator_has_stream [OF assms(3,2) False bad_write(2)]) simp_all
    with bad_write inv(2) show ?thesis by simp
  next
    case event_assert
    with holder_excludes(1) [OF assms(3), of 0] show ?thesis by simp
  next
    case (old_stream t)
    with inv(4) [of t] inv show ?thesis by (auto simp: stream_inv_def)
  next
    case (no_old_stream t)
    with inv(4) [of t] inv show ?thesis by (auto simp: stream_inv_def)
  next
    case (drop_stream t)
    with inv(4) [of t] inv show ?thesis by (auto simp: stream_inv_def)
  next
    case (bad_create t)
    with inv show ?thesis by simp
  next
    case (create_stream t)
    with inv(4) [of t] have "t = 0" by simp
    with create_stream inv show ?thesis by (auto simp: stream_inv_def)
  next
    case (set_stream t)
    with inv(4) [of t] have "t = 0" by simp
    with set_stream inv show ?thesis by (auto simp: stream_inv_def)
  next
    case (reset t)
    then show ?thesis by (simp add: stream_inv_def)
  next
    case (clear t)
    with inv(3) [of t] show ?thesis by simp
  next
    case (shutdown t)
    with inv(3) [of t] show ?thesis by simp
  next
    case (already_exited t)
    with inv(3) [of t] show ?thesis by simp
  next
    case (not_exited t)
    with inv(3) [of t] show ?thesis by simp
  next
    case (set_exited t)
    with inv(3) [of t] show ?thesis by simp
  next
    case (bad_join t)
    with inv(3) [of t] show ?thesis by simp
  next
    case (join t)
    with inv(3) [of t] show ?thesis by simp
  next
    case (reset_stream t)
    with inv(3) [of t] show ?thesis by simp
  next
    case next_drained
    with inv show ?thesis by simp
  next
    case (next_event us tag vs ok)
    with inv show ?thesis by (auto simp: stream_inv_def)
  qed (use inv in \<open>fastforce simp: stream_inv_def split: if_splits\<close>)+
qed

lemma stream_reachable:
  "reachable n md s s' \<Longrightarrow> token_inv s \<Longrightarrow> stream_inv s \<Longrightarrow> stream_inv s'"
proof (induction rule: reachable.induct)
  case (more s' s'')
  then show ?case using stream_step token_reachable by blast
qed

lemma stream_start: "stream_inv (constructed md)"
  by (simp add: stream_inv_def constructed_def constructing_def)

text \<open>C22. Under every interleaving messages are written in the order in which they entered the
  buffer, and none is lost or duplicated in between: what has been pushed is, in this order, what
  has been written, the message in the hands of the thread that is about to write one, and what is
  in the buffer, merged with the messages that resets have discarded, in their order. Before a
  reset there are none of these, so that what was pushed is exactly the others.\<close>

theorem writes_in_push_order:
  assumes "reachable n md (constructed md) s"
  shows "\<exists>hand. length hand \<le> 1 \<and> (hand \<noteq> [] \<longleftrightarrow> (\<exists>t m. pcs s t = Found m))
    \<and> t_pushed s \<in> shuffles (writes (t_wire s) @ hand @ buf (t_buffer s)) (t_discarded s)
    \<and> (\<not> t_reset s \<longrightarrow> t_pushed s = writes (t_wire s) @ hand @ buf (t_buffer s))"
proof -
  obtain hand where hand: "in_hand s hand" "length hand \<le> 1"
    and order: "t_pushed s \<in> shuffles (writes (t_wire s) @ hand @ buf (t_buffer s)) (t_discarded s)"
    using pushed_in_order [OF assms] by blast
  have "\<not> t_reset s \<Longrightarrow> t_discarded s = []"
    using stream_reachable [OF assms token_start(1) stream_start] by (simp add: stream_inv_def)
  with order have "\<not> t_reset s \<Longrightarrow> t_pushed s = writes (t_wire s) @ hand @ buf (t_buffer s)" by simp
  with hand order show ?thesis by (intro exI [of _ hand]) (auto simp: in_hand_def)
qed

text \<open>C26. Once the constructor has returned, with the first completion still on the queue, no
  interleaving makes the client fail before a reset has begun: whoever wins the idle flag finds a
  stream, and keeps it until it has written, a failed completion is always handled while the flag
  is not set, and nothing is started on a queue that has been shut down.\<close>

theorem no_assertion_fails:
  assumes "reachable n md (constructed md) s" and "\<not> t_reset s"
  shows "\<not> t_failed s"
  using stream_reachable [OF assms(1) token_start(1) stream_start] assms(2)
  by (simp add: stream_inv_def)

section \<open>Schedules that go wrong\<close>

text \<open>The event loop handles a successful completion up to the assertion, the buffer being as it is.\<close>

lemma handles_success:
  assumes "reachable n md s0 s" and "pcs s 0 = At_Rest" and "t_tags s = [Basic_Event]"
    and "\<not> t_reset s" and "t_stream s"
  shows "reachable n md s0 (goto 0 Popping (s\<lparr>t_tags := [], t_idle := False\<rparr>))"
proof -
  let ?s1 = "goto 0 (Got Basic_Event True) (s\<lparr>t_tags := [] @ []\<rparr>)"
  let ?s2 = "goto 0 (Callback True) ?s1"
  let ?s3 = "goto 0 Marking ?s2"
  let ?s4 = "goto 0 Try_Idle (?s3\<lparr>t_idle := True\<rparr>)"
  let ?s5 = "goto 0 Won (?s4\<lparr>t_idle := False\<rparr>)"
  let ?r = "reachable n md s0"
  have "?r ?s1" by (rule more [OF assms(1) tstep.next_event]) (simp_all add: assms)
  then have "?r ?s2" by (rule more [OF _ tstep.basic_event]) simp
  then have "?r ?s3" by (rule more [OF _ tstep.event_ok]) (simp_all add: assms)
  then have "?r ?s4" by (rule more [OF _ tstep.mark_event]) simp
  then have "?r ?s5" by (rule more [OF _ tstep.cas_won]) simp_all
  then have "?r (goto 0 Popping ?s5)" by (rule more [OF _ tstep.has_stream]) (simp_all add: assms)
  then show ?thesis by (simp add: goto_def)
qed

text \<open>A state in which the event loop has found the buffer empty, with nothing pushed so far.\<close>

definition found_empty :: "metadata \<Rightarrow> 'm threads" where
  "found_empty md = goto 0 Found_Empty ((constructed md)\<lparr>t_tags := []\<rparr>)"

lemma found_empty_run: "reachable n md (constructed md) (found_empty md)"
proof -
  note defs = constructed_def constructing_def value_buffer_defs
  let ?s5 = "goto 0 Popping ((constructed md :: 'a threads)\<lparr>t_tags := [], t_idle := False\<rparr>)"
  have r5: "reachable n md (constructed md) ?s5"
    by (rule handles_success [OF start]) (simp_all add: defs)
  have "reachable n md (constructed md) (goto 0 Found_Empty (?s5\<lparr>t_buffer := empty_buffer\<rparr>))"
    by (rule more [OF r5 tstep.pop_none]) (simp_all add: defs)
  then show ?thesis by (simp add: found_empty_def goto_def defs)
qed

lemma stranded_run:
  "\<exists>s. reachable (Suc n) md (constructed md) s \<and> (\<forall>t. pcs s t = At_Rest) \<and> t_tags s = []
    \<and> t_idle s \<and> buf (t_buffer s) = [m] \<and> writes (t_wire s) = [] \<and> \<not> t_reset s
    \<and> (\<forall>s'. tstep (Suc n) md s s' \<longrightarrow> (\<exists>t m'. s' = goto t (Counted m') (s\<lparr>t_total := t_total s + 1\<rparr>)
      \<or> s' = goto t Reset_Flagged (s\<lparr>t_reset := True\<rparr>)))"
proof -
  let ?r = "reachable (Suc n) md (constructed md)"
  let ?s5 = "found_empty md :: 'a threads"
  let ?s6 = "goto 1 (Counted m) (?s5\<lparr>t_total := t_total ?s5 + 1\<rparr>)"
  let ?s7 = "goto 1 (Admitted m) ?s6"
  let ?s8 = "goto 1 Try_Idle (?s7\<lparr>t_buffer := push_back m (t_buffer ?s7),
      t_pushed := t_pushed ?s7 @ [m]\<rparr>)"
  let ?s9 = "goto 1 At_Rest ?s8"
  let ?s10 = "goto 0 At_Rest (?s9\<lparr>t_idle := True\<rparr>)"
  note defs = found_empty_def constructed_def constructing_def value_buffer_defs
  have r6: "?r ?s6" by (rule more [OF found_empty_run tstep.call]) (simp_all add: defs)
  have r7: "?r ?s7" by (rule more [OF r6 tstep.room]) (simp_all add: defs MaxPendingMessagesSize_def)
  have r8: "?r ?s8" by (rule more [OF r7 tstep.push]) simp
  have r9: "?r ?s9" by (rule more [OF r8 tstep.cas_lost]) (simp_all add: defs)
  have r10: "?r ?s10" by (rule more [OF r9 tstep.mark_idle]) (simp add: defs)
  have rest: "\<forall>t. pcs ?s10 t = At_Rest" "t_tags ?s10 = []" "\<not> t_shutdown ?s10" by (simp_all add: defs)
  have "\<exists>t m'. s' = goto t (Counted m') (?s10\<lparr>t_total := t_total ?s10 + 1\<rparr>)
      \<or> s' = goto t Reset_Flagged (?s10\<lparr>t_reset := True\<rparr>)"
    if "tstep (Suc n) md ?s10 s'" for s'
    using that by (rule tstepE) (use rest in auto)
  with r10 rest(1,2) show ?thesis
    by (intro exI [of _ ?s10]) (simp add: defs)
qed

text \<open>C24. A message can be stranded. The event loop finds the buffer empty; before it sets the idle
  flag again, \<open>sendMessage\<close> adds a message and fails to win the flag; then the flag is set. Every
  thread is at rest, no completion is outstanding and the message stays in the buffer: only
  another call of \<open>sendMessage\<close> would take it out, and a reset would discard it.\<close>

theorem message_can_be_stranded:
  "\<exists>s. reachable (Suc n) md (constructed md) s \<and> (\<forall>t. pcs s t = At_Rest) \<and> t_tags s = []
    \<and> t_idle s \<and> buf (t_buffer s) = [m] \<and> writes (t_wire s) = [] \<and> \<not> t_reset s
    \<and> (\<forall>s'. tstep (Suc n) md s s' \<longrightarrow> (\<exists>t m'. s' = goto t (Counted m') (s\<lparr>t_total := t_total s + 1\<rparr>)
      \<or> s' = goto t Reset_Flagged (s\<lparr>t_reset := True\<rparr>)))"
  by (rule stranded_run)

text \<open>C40. The constructor races with the event loop it has started: the completion of the first
  call can be handled before the new stream is stored, and then the assertion on the stream
  fails, with no application thread involved.\<close>

theorem constructor_race:
  "\<exists>s :: 'a threads. reachable n md constructing s \<and> t_failed s"
proof -
  let ?r = "reachable n md constructing"
  let ?s0 = "goto 1 Opening_Stream (constructing :: 'a threads)"
  let ?s1 = "goto 1 Opened (?s0\<lparr>t_wire := t_wire ?s0 @ [Start_Call TraceCollectMethod md],
      t_tags := t_tags ?s0 @ [Basic_Event]\<rparr>)"
  let ?s2 = "goto 0 (Got Basic_Event True) (?s1\<lparr>t_tags := [] @ []\<rparr>)"
  let ?s3 = "goto 0 (Callback True) ?s2"
  let ?s3' = "goto 0 Marking ?s3"
  let ?s4 = "goto 0 Try_Idle (?s3'\<lparr>t_idle := True\<rparr>)"
  let ?s5 = "goto 0 Won (?s4\<lparr>t_idle := False\<rparr>)"
  have r0: "?r ?s0" by (rule more [OF start tstep.no_old_stream]) (simp_all add: constructing_def)
  have r1: "?r ?s1" by (rule more [OF r0 tstep.create_stream]) (simp_all add: constructing_def)
  have r2: "?r ?s2" by (rule more [OF r1 tstep.next_event]) (simp_all add: constructing_def)
  have r3: "?r ?s3" by (rule more [OF r2 tstep.basic_event]) simp
  have r3': "?r ?s3'" by (rule more [OF r3 tstep.event_ok]) (simp_all add: constructing_def)
  have r4: "?r ?s4" by (rule more [OF r3' tstep.mark_event]) simp
  have r5: "?r ?s5" by (rule more [OF r4 tstep.cas_won]) simp_all
  have "?r (?s5\<lparr>t_failed := True\<rparr>)"
    by (rule more [OF r5 tstep.no_stream [of _ 0]]) (simp_all add: constructing_def)
  then show ?thesis by (intro exI [of _ "?s5\<lparr>t_failed := True\<rparr>"]) simp
qed

section \<open>Witnesses\<close>

theorem stream_operations_exclusive_witness:
  "\<exists>s :: nat threads. reachable 1 [] (constructed []) s \<and> t_idle s \<and> length (t_tags s) \<le> 1"
proof -
  obtain s :: "nat threads" where s: "reachable 1 [] (constructed []) s" "t_idle s"
    using stranded_run [of 0 "[]" "7 :: nat"] by auto
  from stream_operations_exclusive [OF s(1)] s show ?thesis by blast
qed

theorem writes_in_push_order_witness:
  "\<exists>s :: nat threads. reachable 1 [] (constructed []) s \<and> \<not> t_reset s
    \<and> (\<exists>hand. length hand \<le> 1 \<and> t_pushed s = writes (t_wire s) @ hand @ [7])"
proof -
  obtain s :: "nat threads" where s: "reachable 1 [] (constructed []) s" "buf (t_buffer s) = [7]"
    "\<not> t_reset s"
    using stranded_run [of 0 "[]" "7 :: nat"] by auto
  from writes_in_push_order [OF s(1)] s show ?thesis by auto
qed

theorem no_assertion_fails_witness:
  "\<exists>s :: nat threads. reachable 1 [] (constructed []) s \<and> buf (t_buffer s) = [7] \<and> \<not> t_failed s"
proof -
  obtain s :: "nat threads" where s: "reachable 1 [] (constructed []) s" "buf (t_buffer s) = [7]"
    "\<not> t_reset s"
    using stranded_run [of 0 "[]" "7 :: nat"] by auto
  from no_assertion_fails [OF s(1,3)] s show ?thesis by blast
qed

theorem message_can_be_stranded_witness:
  "\<exists>s :: nat threads. reachable 1 [] (constructed []) s \<and> (\<forall>t. pcs s t = At_Rest)
    \<and> t_tags s = [] \<and> buf (t_buffer s) = [7]"
  using message_can_be_stranded [of 0 "[]" "7 :: nat"] by auto

end
