(* ===== verification/Async_Client_Accounting.thy ===== *)
theory Async_Client_Accounting
  imports Async_Client_Threads
begin

text \<open>
  Every message that a thread hands to \<open>sendMessage\<close> is accounted for at every moment of every
  interleaving: the three counters of \<^verbatim>\<open>source/grpc_async_client_impl.h\<close> against the messages that
  are in the hands of a thread, in the buffer, on their way to the collector, or were discarded by
  a reset.
\<close>

section \<open>Messages that are neither counted as sent nor as dropped\<close>

text \<open>Whether a thread holds a message, or the completion of the write of one.\<close>

definition carries :: "'m pc \<Rightarrow> nat" where
  "carries p = (case p of Counted _ \<Rightarrow> 1 | Overflowed \<Rightarrow> 1 | Admitted _ \<Rightarrow> 1 | Found _ \<Rightarrow> 1
     | Got Write_Event _ \<Rightarrow> 1 | _ \<Rightarrow> 0)"

definition carried :: "nat \<Rightarrow> 'm threads \<Rightarrow> nat" where
  "carried n s = (\<Sum>t \<le> n. carries (pcs s t))"

definition waiting :: "'m threads \<Rightarrow> nat" where
  "waiting s = buffer_size (t_buffer s) + count_list (t_tags s) Write_Event + length (t_discarded s)"

definition account_inv :: "nat \<Rightarrow> 'm threads \<Rightarrow> bool" where
  "account_inv n s \<longleftrightarrow> (\<forall>t > n. pcs s t = At_Rest)
     \<and> t_total s = t_sent s + t_dropped s + of_nat (carried n s) + of_nat (waiting s)"

lemma carries_simps [simp]:
  "carries At_Rest = 0" "carries (Counted m) = 1" "carries (Admitted m) = 1" "carries Try_Idle = 0"
  "carries Won = 0" "carries Found_Empty = 0" "carries (Found m) = 1"
  "carries (Got Write_Event ok) = 1" "carries (Got Basic_Event ok) = 0" "carries (Callback ok) = 0"
  "carries Opening_Stream = 0" "carries Opened = 0" "carries Loop_Ended = 0"
  "carries Reset_Flagged = 0" "carries Reset_Cleared = 0" "carries Exit_Tested = 0"
  "carries Exit_Flagged = 0" "carries Reset_Joining = 0" "carries Reset_Joined = 0"
  "carries Overflowed = 1" "carries Popping = 0" "carries Marking = 0" "carries Failing = 0"
  "carries Replacing = 0" "carries Dropping = 0"
  by (simp_all add: carries_def)

lemma carries_got: "carries (Got tag ok) = (if tag = Write_Event then 1 else 0)"
  by (cases tag) simp_all

lemma carried_update:
  assumes "t \<le> n" and "pcs s' = (pcs s)(t := p)"
  shows "carried n s' + carries (pcs s t) = carried n s + carries p"
proof -
  have t: "t \<in> {..n}" using assms(1) by simp
  have "(\<Sum>u \<in> {..n} - {t}. carries (pcs s' u)) = (\<Sum>u \<in> {..n} - {t}. carries (pcs s u))"
    by (rule sum.cong) (simp_all add: assms(2))
  moreover have "carried n s' = carries (pcs s' t) + (\<Sum>u \<in> {..n} - {t}. carries (pcs s' u))"
    "carried n s = carries (pcs s t) + (\<Sum>u \<in> {..n} - {t}. carries (pcs s u))"
    unfolding carried_def by (rule sum.remove [OF _ t]; simp)+
  ultimately show ?thesis by (simp add: assms(2))
qed

text \<open>A step moves a message from one place to another, or finishes it.\<close>

lemma account_moved:
  assumes "account_inv n s" and "t \<le> n" and "pcs s' = (pcs s)(t := p)"
    and "t_total s' + of_nat (carries (pcs s t)) + t_sent s + t_dropped s + of_nat (waiting s)
      = t_total s + of_nat (carries p) + t_sent s' + t_dropped s' + of_nat (waiting s')"
  shows "account_inv n s'"
proof -
  have "of_nat (carried n s') + of_nat (carries (pcs s t)) = (of_nat (carried n s) + of_nat (carries p) :: uint64)"
    using carried_update [OF assms(2,3)] by (metis of_nat_add)
  then have "of_nat (carried n s') = (of_nat (carried n s) + of_nat (carries p) - of_nat (carries (pcs s t)) :: uint64)"
    by (simp add: eq_diff_eq)
  moreover from assms(1) have "t_total s = t_sent s + t_dropped s + of_nat (carried n s) + of_nat (waiting s)"
    by (simp add: account_inv_def)
  moreover from assms(4) have "t_total s' = t_total s + of_nat (carries p) + t_sent s' + t_dropped s'
      + of_nat (waiting s') - of_nat (carries (pcs s t)) - t_sent s - t_dropped s - of_nat (waiting s)"
    by (simp add: algebra_simps)
  ultimately show ?thesis
    using assms(1-3) by (simp add: account_inv_def)
qed

lemma account_same:
  assumes "account_inv n s" and "pcs s' = pcs s" and "t_total s' = t_total s" and "t_sent s' = t_sent s"
    and "t_dropped s' = t_dropped s" and "waiting s' = waiting s"
  shows "account_inv n s'"
  using assms by (simp add: account_inv_def carried_def)


lemma started_within: "account_inv n s \<Longrightarrow> pcs s t = p \<Longrightarrow> p \<noteq> At_Rest \<Longrightarrow> t \<le> n"
  by (metis account_inv_def not_le)

lemma account_shift:
  assumes "account_inv n s" and "s' = goto t p u" and "pcs s t = q" and "pcs u = pcs s" and "t \<le> n"
    and "carries p = carries q" and "t_total u = t_total s" and "t_sent u = t_sent s"
    and "t_dropped u = t_dropped s" and "waiting u = waiting s"
  shows "account_inv n s'"
  by (rule account_moved [OF assms(1,5), of _ p]) (use assms in \<open>simp_all add: waiting_def\<close>)

lemma waiting_fields [simp]:
  "waiting (goto t p s) = waiting s"
  "waiting (s\<lparr>t_total := u\<rparr>) = waiting s" "waiting (s\<lparr>t_dropped := u\<rparr>) = waiting s"
  "waiting (s\<lparr>t_sent := u\<rparr>) = waiting s" "waiting (s\<lparr>t_idle := i\<rparr>) = waiting s"
  "waiting (s\<lparr>t_stream := st\<rparr>) = waiting s" "waiting (s\<lparr>t_wire := w\<rparr>) = waiting s"
  "waiting (s\<lparr>t_failed := f\<rparr>) = waiting s" "waiting (s\<lparr>t_pushed := ps\<rparr>) = waiting s"
  "waiting (s\<lparr>t_exited := f\<rparr>) = waiting s" "waiting (s\<lparr>t_shutdown := f\<rparr>) = waiting s"
  "waiting (s\<lparr>t_joined := f\<rparr>) = waiting s" "waiting (s\<lparr>t_reset := f\<rparr>) = waiting s"
  by (simp_all add: waiting_def)

lemma account_step:
  assumes "tstep n md s s'" and "account_inv n s"
  shows "account_inv n s'"
  using assms(1)
proof (cases rule: tstep.cases)
  case (call t m)
  show ?thesis
    by (rule account_moved [OF assms(2), of t _ "Counted m"]) (use call in simp_all)
next
  case (full t m)
  show ?thesis
    by (rule account_moved [OF assms(2), of t _ Overflowed]) (use full started_within [OF assms(2), of t] in simp_all)
next
  case (overflow t)
  show ?thesis
    by (rule account_moved [OF assms(2), of t _ At_Rest]) (use overflow started_within [OF assms(2), of t] in simp_all)
next
  case (room t m)
  show ?thesis
    by (rule account_moved [OF assms(2), of t _ "Admitted m"]) (use room started_within [OF assms(2), of t] in simp_all)
next
  case (push t m)
  show ?thesis
    by (rule account_moved [OF assms(2), of t _ Try_Idle])
      (use push started_within [OF assms(2), of t] in \<open>simp_all add: waiting_def vb.size_contents vb.contents_push\<close>)
next
  case (pop_none t b)
  have "buffer_size b = buffer_size (t_buffer s)"
    using vb.pop_nonempty [of "t_buffer s"] vb.pop_empty [of "t_buffer s"] pop_none(3)
    by (cases "buf (t_buffer s)") (auto simp: vb.size_contents)
  then show ?thesis
    by (intro account_moved [OF assms(2), of t _ Found_Empty])
      (use pop_none started_within [OF assms(2), of t] in \<open>simp_all add: waiting_def\<close>)
next
  case (pop_some t m b)
  have "buf (t_buffer s) = m # buf b"
    using vb.pop_nonempty [of "t_buffer s"] vb.pop_empty [of "t_buffer s"] pop_some(3)
    by (cases "buf (t_buffer s)") auto
  then show ?thesis
    by (intro account_moved [OF assms(2), of t _ "Found m"])
      (use pop_some started_within [OF assms(2), of t] in \<open>simp_all add: waiting_def vb.size_contents\<close>)
next
  case (start_write t m)
  show ?thesis
    by (rule account_moved [OF assms(2), of t _ At_Rest])
      (use start_write started_within [OF assms(2), of t] in \<open>simp_all add: waiting_def\<close>)
next
  case (next_event us tag vs ok)
  show ?thesis
    by (rule account_moved [OF assms(2), of 0 _ "Got tag ok"])
      (use next_event in \<open>simp_all add: waiting_def carries_got\<close>)
next
  case (write_event ok)
  show ?thesis
    by (rule account_moved [OF assms(2), of 0 _ "Callback ok"])
      (use write_event in \<open>simp_all add: algebra_simps\<close>)
next
  case (create_stream t)
  show ?thesis
    by (rule account_moved [OF assms(2), of t _ Opened])
      (use create_stream started_within [OF assms(2), of t] in \<open>simp_all add: waiting_def\<close>)
next
  case (clear t)
  show ?thesis
    by (rule account_moved [OF assms(2), of t _ Reset_Cleared])
      (use clear started_within [OF assms(2), of t] in
        \<open>simp_all add: waiting_def vb.size_contents vb.contents_discard\<close>)
next
  case (no_stream t)
  show ?thesis by (rule account_same [OF assms(2)]) (use no_stream in simp_all)
next
  case (bad_write t m)
  show ?thesis by (rule account_same [OF assms(2)]) (use bad_write in simp_all)
next
  case event_assert
  show ?thesis by (rule account_same [OF assms(2)]) (use event_assert in simp_all)
next
  case (bad_create t)
  show ?thesis by (rule account_same [OF assms(2)]) (use bad_create in simp_all)
next
  case (bad_join t)
  show ?thesis by (rule account_same [OF assms(2)]) (use bad_join in simp_all)
qed (erule (1) account_shift [OF assms(2)];
    auto dest: started_within [OF assms(2)] simp: waiting_def)+

lemma account_reachable: "reachable n md s s' \<Longrightarrow> account_inv n s \<Longrightarrow> account_inv n s'"
  by (induction rule: reachable.induct) (auto intro: account_step)

lemma account_start: "account_inv n (constructed md)"
  by (simp add: account_inv_def carried_def waiting_def constructed_def constructing_def
      value_buffer_defs)

lemma nothing_discarded:
  "reachable n md (constructed md) s \<Longrightarrow> \<not> t_reset s \<Longrightarrow> t_discarded s = []"
  using stream_reachable [OF _ token_start(1) stream_start] by (fastforce simp: stream_inv_def)

text \<open>C23. Under every interleaving and at every moment no message is lost sight of: the total is the
  number sent and the number dropped, together with the messages in the hands of a thread, in the
  buffer and on the stream, and those that a reset threw away, of which there are none before a
  reset. The counters wrap around, and the equation holds as they do.\<close>

theorem messages_accounted_for_concurrently:
  assumes "reachable n md (constructed md) s"
  shows "t_total s = t_sent s + t_dropped s + of_nat (carried n s + buffer_size (t_buffer s)
      + count_list (t_tags s) Write_Event + length (t_discarded s))
    \<and> (t_reset s \<or> t_discarded s = [])"
  using account_reachable [OF assms account_start] nothing_discarded [OF assms]
  by (cases "t_reset s") (simp_all add: account_inv_def waiting_def algebra_simps)

theorem messages_accounted_for_concurrently_witness:
  "\<exists>s :: nat threads. reachable 1 [] (constructed []) s \<and> buf (t_buffer s) = [7]
    \<and> t_total s = t_sent s + t_dropped s + 1"
proof -
  obtain s :: "nat threads" where s: "reachable 1 [] (constructed []) s" "buf (t_buffer s) = [7]"
    "\<forall>t. pcs s t = At_Rest" "t_tags s = []" "\<not> t_reset s"
    using stranded_run [of 0 "[]" "7 :: nat"] by auto
  from messages_accounted_for_concurrently [OF s(1)] s show ?thesis
    by (intro exI [of _ s]) (simp add: carried_def vb.size_contents)
qed

end
