(* ===== verification/Async_Client_Bounds.thy ===== *)
theory Async_Client_Bounds
  imports Async_Client_Threads
begin

text \<open>
  How full the buffer gets: \<open>sendMessage\<close> of \<^verbatim>\<open>source/grpc_async_client_impl.cc\<close> tests the size of
  the buffer before it adds a message, and the two are separate steps.
\<close>

section \<open>The bound on the buffer\<close>

definition admitted :: "'m threads \<Rightarrow> nat set" where
  "admitted s = {t. \<exists>m. pcs s t = Admitted m}"

definition bound_inv :: "nat \<Rightarrow> 'm threads \<Rightarrow> bool" where
  "bound_inv n s \<longleftrightarrow> (\<forall>t m. pcs s t = Counted m \<longrightarrow> t \<in> {1..n}) \<and> admitted s \<subseteq> {1..n}
     \<and> length (buf (t_buffer s)) + card (admitted s) \<le> MaxPendingMessagesSize + n"

lemma admitted_goto:
  "admitted (goto t p s) = (if \<exists>m. p = Admitted m then insert t (admitted s) else admitted s - {t})"
  by (auto simp: admitted_def)

lemma admitted_fields [simp]:
  "admitted (s\<lparr>t_total := u\<rparr>) = admitted s" "admitted (s\<lparr>t_dropped := u\<rparr>) = admitted s"
  "admitted (s\<lparr>t_sent := u\<rparr>) = admitted s" "admitted (s\<lparr>t_idle := i\<rparr>) = admitted s"
  "admitted (s\<lparr>t_stream := st\<rparr>) = admitted s" "admitted (s\<lparr>t_wire := w\<rparr>) = admitted s"
  "admitted (s\<lparr>t_tags := ts\<rparr>) = admitted s" "admitted (s\<lparr>t_failed := f\<rparr>) = admitted s"
  "admitted (s\<lparr>t_exited := f\<rparr>) = admitted s" "admitted (s\<lparr>t_reset := f\<rparr>) = admitted s"
  "admitted (s\<lparr>t_shutdown := f\<rparr>) = admitted s" "admitted (s\<lparr>t_joined := f\<rparr>) = admitted s"
  by (simp_all add: admitted_def)

lemma not_admitted: "pcs s t = p \<Longrightarrow> \<forall>m. p \<noteq> Admitted m \<Longrightarrow> admitted s - {t} = admitted s"
  by (auto simp: admitted_def)

lemma bound_same:
  assumes "bound_inv n s" and "admitted s' = admitted s"
    and "length (buf (t_buffer s')) \<le> length (buf (t_buffer s))"
    and "\<And>t m. pcs s' t = Counted m \<Longrightarrow> pcs s t \<noteq> Counted m \<Longrightarrow> t \<in> {1..n}"
  shows "bound_inv n s'"
  using assms unfolding bound_inv_def by (metis add_le_mono1 le_trans)

lemma bound_step:
  assumes "tstep n md s s'" and "bound_inv n s"
  shows "bound_inv n s'"
  using assms(1)
proof (cases rule: tstep.cases)
  case (room t m)
  have adm: "admitted s' = insert t (admitted s)" using room by (auto simp: admitted_def)
  moreover have t: "t \<in> {1..n}" using room assms(2) by (auto simp: bound_inv_def)
  ultimately have "admitted s' \<subseteq> {1..n}" using assms(2) by (auto simp: bound_inv_def)
  from card_mono [OF _ this] have "card (admitted s') \<le> n" by simp
  with room adm t assms(2) show ?thesis
    by (auto simp: bound_inv_def vb.size_contents split: if_splits)
next
  case (push t m)
  then have adm: "admitted s = insert t (admitted s')" "t \<notin> admitted s'" by (auto simp: admitted_def)
  moreover have "finite (admitted s)" using assms(2) finite_subset by (auto simp: bound_inv_def)
  ultimately have "card (admitted s) = Suc (card (admitted s'))" by simp
  with push adm assms(2) show ?thesis
    by (auto simp: bound_inv_def vb.contents_push split: if_splits)
next
  case (clear t)
  then have "admitted s' = admitted s" by (auto simp: admitted_def)
  then show ?thesis
    by (rule bound_same [OF assms(2)])
      (use clear in \<open>auto simp: vb.contents_discard split: if_splits\<close>)
next
  case (pop_some t m b)
  then have "admitted s' = admitted s" by (auto simp: admitted_def)
  moreover have "length (buf (t_buffer s')) \<le> length (buf (t_buffer s))"
    using vb.size_pop [of "t_buffer s"] pop_some by (simp add: vb.size_contents)
  ultimately show ?thesis
    by (rule bound_same [OF assms(2)]) (use pop_some in \<open>auto split: if_splits\<close>)
next
  case (pop_none t b)
  then have "admitted s' = admitted s" by (auto simp: admitted_def)
  moreover have "length (buf (t_buffer s')) \<le> length (buf (t_buffer s))"
    using vb.size_pop [of "t_buffer s"] pop_none by (simp add: vb.size_contents)
  ultimately show ?thesis
    by (rule bound_same [OF assms(2)]) (use pop_none in \<open>auto split: if_splits\<close>)
qed (rule bound_same [OF assms(2)];
    auto simp: admitted_goto not_admitted split: if_splits)+

lemma bound_reachable: "reachable n md s s' \<Longrightarrow> bound_inv n s \<Longrightarrow> bound_inv n s'"
  by (induction rule: reachable.induct) (auto intro: bound_step)

lemma bound_start: "bound_inv n (constructed md)"
  by (simp add: bound_inv_def constructed_def constructing_def admitted_def empty_buffer_def)

section \<open>Filling the buffer\<close>

text \<open>As long as the first completion stays on the queue, nobody takes a message out.\<close>

definition filling :: "nat \<Rightarrow> metadata \<Rightarrow> nat \<Rightarrow> 'm threads \<Rightarrow> bool" where
  "filling n md k s \<longleftrightarrow> reachable n md (constructed md) s \<and> \<not> t_idle s \<and> buffer_size (t_buffer s) = k"

lemma filling_start: "filling n md 0 (constructed md)" "pcs (constructed md) t = At_Rest"
  by (simp_all add: filling_def reachable.start constructed_def constructing_def value_buffer_defs)

lemma filling_step:
  assumes "filling n md k s" and "tstep n md s s'" and "\<not> t_idle s'"
    and "buffer_size (t_buffer s') = k'"
  shows "filling n md k' s'"
  using assms by (auto simp: filling_def intro: reachable.more)

lemma admit:
  assumes "filling n md k s" and "k \<le> MaxPendingMessagesSize" and "1 \<le> t" "t \<le> n"
    and "pcs s t = At_Rest"
  shows "\<exists>s'. filling n md k s' \<and> pcs s' = (pcs s)(t := Admitted m)"
proof -
  let ?s1 = "goto t (Counted m) (s\<lparr>t_total := t_total s + 1\<rparr>)"
  have "filling n md k ?s1"
    by (rule filling_step [OF assms(1) tstep.call]) (use assms in \<open>simp_all add: filling_def\<close>)
  then have "filling n md k (goto t (Admitted m) ?s1)"
    by (rule filling_step [OF _ tstep.room]) (use assms in \<open>simp_all add: filling_def\<close>)
  then show ?thesis by (rule exI [of _ "goto t (Admitted m) ?s1", OF conjI]) simp
qed

lemma add_message:
  assumes "filling n md k s" and "pcs s t = Admitted m"
  shows "\<exists>s'. filling n md (Suc k) s' \<and> pcs s' = (pcs s)(t := Try_Idle)"
proof -
  let ?s1 = "goto t Try_Idle (s\<lparr>t_buffer := push_back m (t_buffer s), t_pushed := t_pushed s @ [m]\<rparr>)"
  have "filling n md (Suc k) ?s1"
    by (rule filling_step [OF assms(1) tstep.push [OF assms(2)]])
      (use assms in \<open>simp_all add: filling_def vb.size_contents vb.contents_push\<close>)
  then show ?thesis by (rule exI [of _ ?s1, OF conjI]) simp
qed

lemma lose_flag:
  assumes "filling n md k s" and "pcs s t = Try_Idle"
  shows "\<exists>s'. filling n md k s' \<and> pcs s' = (pcs s)(t := At_Rest)"
proof -
  have "filling n md k (goto t At_Rest s)"
    by (rule filling_step [OF assms(1) tstep.cas_lost [OF assms(2)]])
      (use assms in \<open>simp_all add: filling_def\<close>)
  then show ?thesis by (rule exI [of _ "goto t At_Rest s", OF conjI]) simp
qed

text \<open>One thread alone fills the buffer up to the maximum.\<close>

lemma one_thread_fills:
  assumes "1 \<le> n" and "k \<le> MaxPendingMessagesSize"
  shows "\<exists>s :: 'm threads. filling n md k s \<and> (\<forall>t. pcs s t = At_Rest)"
  using assms(2)
proof (induction k)
  case 0
  show ?case using filling_start by blast
next
  case (Suc k)
  then obtain s :: "'m threads" where s: "filling n md k s" "\<forall>t. pcs s t = At_Rest" by auto
  from Suc.prems have "k \<le> MaxPendingMessagesSize" by simp
  from admit [OF s(1) this _ assms(1), of undefined] s(2) obtain s1 where
    s1: "filling n md k s1" "pcs s1 = (pcs s)(1 := Admitted undefined)" by auto
  from add_message [OF s1(1), of 1 undefined] s1(2) obtain s2 where
    s2: "filling n md (Suc k) s2" "pcs s2 = (pcs s)(1 := Try_Idle)" by auto
  from lose_flag [OF s2(1), of 1] s2(2) obtain s3 where
    "filling n md (Suc k) s3" "pcs s3 = (pcs s)(1 := At_Rest)" by auto
  with s(2) show ?case by (intro exI [of _ s3]) simp
qed

text \<open>Then all threads pass the test, and after that each of them adds its message.\<close>

lemma all_threads_admitted:
  assumes "filling n md k (s :: 'm threads)" and "k \<le> MaxPendingMessagesSize"
    and "\<forall>t. pcs s t = At_Rest" and "j \<le> n"
  shows "\<exists>s' :: 'm threads. filling n md k s' \<and> (\<forall>t. pcs s' t = (if t \<in> {1..j} then Admitted m else At_Rest))"
  using assms(4)
proof (induction j)
  case 0
  show ?case using assms(1,3) by (intro exI [of _ s]) simp
next
  case (Suc j)
  then obtain s' :: "'m threads" where s': "filling n md k s'"
    "\<forall>t. pcs s' t = (if t \<in> {1..j} then Admitted m else At_Rest)" by auto
  from admit [OF s'(1) assms(2), of "Suc j" m] s'(2) Suc.prems obtain s'' where
    "filling n md k s''" "pcs s'' = (pcs s')(Suc j := Admitted m)" by auto
  with s'(2) show ?case by (intro exI [of _ s'']) auto
qed

lemma all_threads_add:
  assumes "filling n md k s" and "\<forall>t \<in> {1..n}. pcs s t = Admitted m" and "j \<le> n"
  shows "\<exists>s'. filling n md (k + j) s' \<and> (\<forall>t \<in> {j<..n}. pcs s' t = Admitted m)"
  using assms(3)
proof (induction j)
  case 0
  show ?case using assms(1,2) by (intro exI [of _ s]) simp
next
  case (Suc j)
  then obtain s' where s': "filling n md (k + j) s'" "\<forall>t \<in> {j<..n}. pcs s' t = Admitted m" by auto
  with Suc.prems have "pcs s' (Suc j) = Admitted m" by simp
  from add_message [OF s'(1) this] obtain s'' where
    "filling n md (Suc (k + j)) s''" "pcs s'' = (pcs s')(Suc j := Try_Idle)" by auto
  with s'(2) show ?case by (intro exI [of _ s'']) simp
qed

lemma buffer_size_reached:
  assumes "1 \<le> n" and "k \<le> MaxPendingMessagesSize + n"
  shows "\<exists>s :: 'm threads. reachable n md (constructed md) s \<and> buffer_size (t_buffer s) = k"
proof (cases "k \<le> MaxPendingMessagesSize")
  case True
  with one_thread_fills [OF assms(1) True, of md] show ?thesis by (auto simp: filling_def)
next
  case False
  from one_thread_fills [OF assms(1) order_refl, of md] obtain s :: "'m threads" where
    "filling n md MaxPendingMessagesSize s" "\<forall>t. pcs s t = At_Rest" by blast
  from all_threads_admitted [OF this(1) order_refl this(2) order_refl, of undefined] obtain
    s1 :: "'m threads" where s1: "filling n md MaxPendingMessagesSize s1"
      "\<forall>t. pcs s1 t = (if t \<in> {1..n} then Admitted undefined else At_Rest)" by blast
  from s1(2) have admitted: "\<forall>t \<in> {1..n}. pcs s1 t = Admitted undefined" by simp
  from False assms(2) have "k - MaxPendingMessagesSize \<le> n" by simp
  from all_threads_add [OF s1(1) admitted this] False show ?thesis by (auto simp: filling_def)
qed

text \<open>C39. With \<open>n\<close> application threads the sizes the buffer can have are exactly those up to
  \<open>1024 + n\<close>: each thread may add one message after a test that the others passed as well, and
  one thread alone already takes the buffer beyond the maximum its name states.\<close>

theorem concurrent_buffer_bound:
  assumes "1 \<le> n"
  shows "{k. \<exists>s :: 'm threads. reachable n md (constructed md) s \<and> buffer_size (t_buffer s) = k}
    = {0..MaxPendingMessagesSize + n}"
proof -
  have "buffer_size (t_buffer s) \<le> MaxPendingMessagesSize + n"
    if "reachable n md (constructed md) s" for s :: "'m threads"
    using bound_reachable [OF that bound_start] by (simp add: bound_inv_def vb.size_contents)
  then show ?thesis using buffer_size_reached [OF assms, of _ md] by fastforce
qed

theorem concurrent_buffer_bound_witness:
  "{k. \<exists>s :: nat threads. reachable 3 [] (constructed []) s \<and> buffer_size (t_buffer s) = k} = {0..1027}"
  using concurrent_buffer_bound [of 3 "[]", where 'm = nat] by (simp add: MaxPendingMessagesSize_def)

end
