(* ===== verification/Async_Client_Schedules.thy ===== *)
theory Async_Client_Schedules
  imports Async_Client_Threads
begin

text \<open>
  The two models of the reporter client against each other: every run of \<^theory_text>\<open>Async_Client\<close>, in
  which a call, a completion and a reset are one step each, is a schedule of
  \<^theory_text>\<open>Async_Client_Threads\<close>. And how a client at rest goes on.
\<close>

section \<open>Runs without interleaving are schedules\<close>

text \<open>The threads when thread \<open>t\<close> is at \<open>p\<close>, the others where \<open>r\<close> has them, and the client is \<open>c\<close>;
  \<open>kept\<close> holds the messages that entered the buffer and those that a reset discarded.\<close>

definition only :: "(nat \<Rightarrow> 'm pc) \<Rightarrow> nat \<Rightarrow> 'm pc \<Rightarrow> 'm async_client \<Rightarrow> 'm list \<times> 'm list \<Rightarrow> 'm threads" where
  "only r t p c kept = \<lparr>pcs = r(t := p), t_total = messages_total c,
     t_dropped = messages_dropped c, t_sent = messages_sent c, t_exited = loop_exited c,
     t_shutdown = loop_exited c, t_joined = False,
     t_reset = client_reset c, t_idle = event_loop_idle c, t_buffer = message_buffer c,
     t_stream = (active_stream c \<noteq> None), t_wire = wire c, t_tags = cq_tags c, t_failed = False,
     t_pushed = fst kept, t_discarded = snd kept\<rparr>"

lemma only_simps [simp]:
  "pcs (only r t p c kept) = r(t := p)" "t_exited (only r t p c kept) = loop_exited c"
  "t_reset (only r t p c kept) = client_reset c" "t_idle (only r t p c kept) = event_loop_idle c"
  "t_buffer (only r t p c kept) = message_buffer c" "t_tags (only r t p c kept) = cq_tags c"
  "t_stream (only r t p c kept) = (active_stream c \<noteq> None)" "t_wire (only r t p c kept) = wire c"
  "t_pushed (only r t p c kept) = fst kept" "t_total (only r t p c kept) = messages_total c"
  "t_dropped (only r t p c kept) = messages_dropped c" "t_sent (only r t p c kept) = messages_sent c"
  "t_failed (only r t p c kept) = False"
  "t_shutdown (only r t p c kept) = loop_exited c" "t_joined (only r t p c kept) = False"
  "t_discarded (only r t p c kept) = snd kept"
  by (simp_all add: only_def)

lemma only_move: "r t = At_Rest \<Longrightarrow> r u = At_Rest \<Longrightarrow> only r t At_Rest c kept = only r u At_Rest c kept"
  by (simp add: only_def fun_upd_def fun_eq_iff)

lemma reachable_trans: "reachable n md s' s'' \<Longrightarrow> reachable n md s s' \<Longrightarrow> reachable n md s s''"
  by (induction rule: reachable.induct) (auto intro: reachable.more)

lemma one_step: "tstep n md s s1 \<Longrightarrow> s1 = s' \<Longrightarrow> reachable n md s s'"
  using reachable.more reachable.start by metis

lemma once_run:
  assumes "sendMessageOnce c = Inr c'" and "\<not> loop_exited c"
  shows "reachable n md (only r t Try_Idle c kept) (only r t At_Rest c' kept)"
proof (cases "event_loop_idle c")
  case False
  with assms(1) have "c' = c" by (simp add: sendMessageOnce_def)
  with False show ?thesis
    by (intro one_step [OF tstep.cas_lost [where t = t]])
      (simp_all add: only_def goto_def)
next
  case idle: True
  let ?c1 = "c\<lparr>event_loop_idle := False\<rparr>"
  have won: "reachable n md (only r t Try_Idle c kept) (only r t Won ?c1 kept)"
    using idle by (intro one_step [OF tstep.cas_won [where t = t]])
      (simp_all add: only_def goto_def)
  have stream: "active_stream c \<noteq> None" using assms(1) idle
    by (auto simp: sendMessageOnce_def Let_def outcome_eqs)
  then have "reachable n md (only r t Won ?c1 kept) (only r t Popping ?c1 kept)"
    by (intro one_step [OF tstep.has_stream [where t = t]]) (simp_all add: only_def goto_def)
  with won have asserted: "reachable n md (only r t Try_Idle c kept) (only r t Popping ?c1 kept)"
    by (blast intro: reachable_trans)
  obtain front b where pop: "pop_front (message_buffer c) = (front, b)" by fastforce
  show ?thesis
  proof (cases front)
    case None
    have b: "b = message_buffer c"
      using pop None by (auto simp: pop_front_def split: if_splits list.splits)
    have "c' = c\<lparr>event_loop_idle := True\<rparr>"
      using assms(1) idle stream pop None by (simp add: sendMessageOnce_def markEventLoopIdle_def)
    then have "reachable n md (only r t Found_Empty ?c1 kept) (only r t At_Rest c' kept)"
      by (intro one_step [OF tstep.mark_idle [where t = t]]) (simp_all add: only_def goto_def)
    moreover have "reachable n md (only r t Popping ?c1 kept) (only r t Found_Empty ?c1 kept)"
      using pop None b
      by (intro one_step [OF tstep.pop_none [where t = t and b = b]]) (simp_all add: only_def goto_def)
    ultimately show ?thesis using asserted by (blast intro: reachable_trans)
  next
    case (Some m)
    let ?c2 = "?c1\<lparr>message_buffer := b\<rparr>"
    have "c' = stream_sendMessage m ?c2"
      using assms(1) idle stream pop Some by (simp add: sendMessageOnce_def)
    then have "reachable n md (only r t (Found m) ?c2 kept) (only r t At_Rest c' kept)"
      using stream assms(2) by (intro one_step [OF tstep.start_write [where t = t and m = m]])
        (simp_all add: only_def goto_def stream_sendMessage_def)
    moreover have "reachable n md (only r t Popping ?c1 kept) (only r t (Found m) ?c2 kept)"
      using pop Some
      by (intro one_step [OF tstep.pop_some [where t = t and m = m and b = b]])
        (simp_all add: only_def goto_def)
    ultimately show ?thesis using asserted by (blast intro: reachable_trans)
  qed
qed

lemma send_run:
  assumes "sendMessage m c = Inr c'" and "\<not> loop_exited c" and "1 \<le> t" "t \<le> n"
  shows "\<exists>kept'. reachable n md (only r t At_Rest c kept) (only r t At_Rest c' kept')"
proof -
  let ?c1 = "c\<lparr>messages_total := messages_total c + 1\<rparr>"
  have call: "reachable n md (only r t At_Rest c kept) (only r t (Counted m) ?c1 kept)"
    using assms(3,4) by (intro one_step [OF tstep.call [where t = t and m = m]])
      (simp_all add: only_def goto_def)
  show ?thesis
  proof (cases "buffer_size (message_buffer c) > MaxPendingMessagesSize")
    case True
    with assms(1) have "c' = ?c1\<lparr>messages_dropped := messages_dropped ?c1 + 1\<rparr>"
      by (simp add: sendMessage_def Let_def)
    then have "reachable n md (only r t Overflowed ?c1 kept) (only r t At_Rest c' kept)"
      by (intro one_step [OF tstep.overflow [where t = t]]) (simp_all add: only_def goto_def)
    moreover have "reachable n md (only r t (Counted m) ?c1 kept) (only r t Overflowed ?c1 kept)"
      using True by (intro one_step [OF tstep.full [where t = t and m = m]])
        (simp_all add: only_def goto_def)
    ultimately show ?thesis using call by (blast intro: reachable_trans)
  next
    case False
    let ?c2 = "?c1\<lparr>message_buffer := push_back m (message_buffer c)\<rparr>"
    have "reachable n md (only r t (Counted m) ?c1 kept) (only r t (Admitted m) ?c1 kept)"
      using False by (intro one_step [OF tstep.room [where t = t and m = m]])
        (simp_all add: only_def goto_def)
    moreover have "reachable n md (only r t (Admitted m) ?c1 kept) (only r t Try_Idle ?c2 (fst kept @ [m], snd kept))"
      by (intro one_step [OF tstep.push [where t = t and m = m]]) (simp_all add: only_def goto_def)
    moreover have "sendMessageOnce ?c2 = Inr c'"
      using assms(1) False by (simp add: sendMessage_def Let_def)
    then have "reachable n md (only r t Try_Idle ?c2 (fst kept @ [m], snd kept)) (only r t At_Rest c' (fst kept @ [m], snd kept))"
      by (rule once_run) (simp add: assms(2))
    ultimately show ?thesis using call by (blast intro: reachable_trans)
  qed
qed


lemma start_run:
  assumes "\<not> loop_exited c" and "md = call_metadata (token c)"
  shows "reachable n md (only r t Replacing c kept) (only r t At_Rest (startStream c) kept)"
proof -
  let ?c0 = "c\<lparr>active_stream := None\<rparr>"
  let ?c1 = "?c0\<lparr>wire := wire c @ [Start_Call TraceCollectMethod md], cq_tags := cq_tags c @ [Basic_Event]\<rparr>"
  have replace: "reachable n md (only r t Replacing c kept) (only r t Opening_Stream ?c0 kept)"
  proof (cases "active_stream c")
    case None
    then show ?thesis
      by (intro one_step [OF tstep.no_old_stream [where t = t]]) (simp_all add: only_def goto_def)
  next
    case (Some st)
    then have "reachable n md (only r t Replacing c kept) (only r t Dropping c kept)"
      by (intro one_step [OF tstep.old_stream [where t = t]]) (simp_all add: only_def goto_def)
    moreover have "reachable n md (only r t Dropping c kept) (only r t Opening_Stream ?c0 kept)"
      by (intro one_step [OF tstep.drop_stream [where t = t]]) (simp_all add: only_def goto_def)
    ultimately show ?thesis by (blast intro: reachable_trans)
  qed
  have "startStream c = ?c1\<lparr>active_stream := Some \<lparr>stream_context = md\<rparr>\<rparr>"
    by (cases c) (auto simp: startStream_def createStream_def TraceAsyncStreamImpl_def resetStream_def
        call_metadata_def assms(2) Let_def)
  then have "reachable n md (only r t Opened ?c1 kept) (only r t At_Rest (startStream c) kept)"
    by (intro one_step [OF tstep.set_stream [where t = t]]) (simp_all add: only_def goto_def)
  moreover have "reachable n md (only r t Opening_Stream ?c0 kept) (only r t Opened ?c1 kept)"
    using assms(1) by (intro one_step [OF tstep.create_stream [where t = t]])
      (simp_all add: only_def goto_def)
  ultimately show ?thesis using replace by (blast intro: reachable_trans)
qed

lemma callback_run:
  assumes "basic_event_callback ok c = Inr c'" and "\<not> loop_exited c \<or> client_reset c"
    and "md = call_metadata (token c)"
  shows "reachable n md (only r 0 (Callback ok) c kept) (only r 0 At_Rest c' kept)"
proof -
  consider "client_reset c" | "\<not> client_reset c" "ok" | "\<not> client_reset c" "\<not> ok" by blast
  then show ?thesis
  proof cases
    case 1
    with assms(1) have "c' = c" by (simp add: basic_event_callback_def)
    with 1 show ?thesis
      by (intro one_step [OF tstep.event_reset]) (simp_all add: only_def goto_def)
  next
    case 2
    let ?c1 = "c\<lparr>event_loop_idle := True\<rparr>"
    have "reachable n md (only r 0 (Callback ok) c kept) (only r 0 Marking c kept)"
      using 2 by (intro one_step [OF tstep.event_ok]) (simp_all add: only_def goto_def)
    moreover have "reachable n md (only r 0 Marking c kept) (only r 0 Try_Idle ?c1 kept)"
      by (intro one_step [OF tstep.mark_event]) (simp_all add: only_def goto_def)
    moreover have "sendMessageOnce ?c1 = Inr c'"
      using assms(1) 2 by (simp add: basic_event_callback_def markEventLoopIdle_def)
    then have "reachable n md (only r 0 Try_Idle ?c1 kept) (only r 0 At_Rest c' kept)"
      by (rule once_run) (use assms(2) 2 in simp)
    ultimately show ?thesis by (blast intro: reachable_trans)
  next
    case 3
    have idle: "\<not> event_loop_idle c" and c': "c' = startStream c"
      using assms(1) 3 by (simp_all add: basic_event_callback_def outcome_eqs)
    have "reachable n md (only r 0 (Callback ok) c kept) (only r 0 Failing c kept)"
      using 3 by (intro one_step [OF tstep.event_failed]) (simp_all add: only_def goto_def)
    moreover have "reachable n md (only r 0 Failing c kept) (only r 0 Replacing c kept)"
      using idle by (intro one_step [OF tstep.not_idle]) (simp_all add: only_def goto_def)
    moreover have "reachable n md (only r 0 Replacing c kept) (only r 0 At_Rest c' kept)"
      unfolding c' by (rule start_run) (use assms(2,3) 3 in simp_all)
    ultimately show ?thesis by (blast intro: reachable_trans)
  qed
qed

lemma event_run:
  assumes "event_turn i ok c = Inr c'" and "\<not> loop_exited c \<or> client_reset c"
    and "md = call_metadata (token c)"
  shows "reachable n md (only r 0 At_Rest c kept) (only r 0 At_Rest c' kept)"
proof -
  let ?c1 = "c\<lparr>cq_tags := take i (cq_tags c) @ drop (Suc i) (cq_tags c)\<rparr>"
  obtain tag where i: "i < length (cq_tags c)" "tag = cq_tags c ! i"
    using assms(1) by (auto simp: event_turn_def outcome_eqs read_at_def)
  then have "cq_tags c = take i (cq_tags c) @ tag # drop (Suc i) (cq_tags c)"
    by (simp add: id_take_nth_drop)
  then have got: "reachable n md (only r 0 At_Rest c kept) (only r 0 (Got tag ok) ?c1 kept)"
    by (intro one_step [OF tstep.next_event [where ok = ok and tag = tag]])
      (simp_all add: only_def goto_def)
  show ?thesis
  proof (cases tag)
    case Basic_Event
    have "reachable n md (only r 0 (Got tag ok) ?c1 kept) (only r 0 (Callback ok) ?c1 kept)"
      unfolding Basic_Event
      by (intro one_step [OF tstep.basic_event [where ok = ok]]) (simp_all add: only_def goto_def)
    moreover have "basic_event_callback ok ?c1 = Inr c'"
      using assms(1) i Basic_Event by (simp add: event_turn_def)
    then have "reachable n md (only r 0 (Callback ok) ?c1 kept) (only r 0 At_Rest c' kept)"
      by (rule callback_run) (use assms(2,3) in simp_all)
    ultimately show ?thesis using got by (blast intro: reachable_trans)
  next
    case Write_Event
    let ?c2 = "if ok then ?c1\<lparr>messages_sent := messages_sent ?c1 + 1\<rparr>
      else ?c1\<lparr>messages_dropped := messages_dropped ?c1 + 1\<rparr>"
    have "reachable n md (only r 0 (Got tag ok) ?c1 kept) (only r 0 (Callback ok) ?c2 kept)"
      unfolding Write_Event
      by (intro one_step [OF tstep.write_event [where ok = ok]]) (simp_all add: only_def goto_def)
    moreover have "basic_event_callback ok ?c2 = Inr c'"
      using assms(1) i Write_Event by (simp add: event_turn_def write_event_callback_def)
    then have "reachable n md (only r 0 (Callback ok) ?c2 kept) (only r 0 At_Rest c' kept)"
      by (rule callback_run) (use assms(2,3) in auto)
    ultimately show ?thesis using got by (blast intro: reachable_trans)
  qed
qed


lemma steps_run:
  assumes r: "\<And>t. r t = At_Rest" and "client_steps ss c = Inr c'" and "\<not> loop_exited c" and "md = call_metadata (token c)"
  shows "\<exists>kept'. reachable (Suc n) md (only r 0 At_Rest c kept) (only r 0 At_Rest c' kept')
    \<and> extends c c'"
  using assms(2-)
proof (induction ss arbitrary: c kept rule: sends.induct)
  case 1
  then show ?case by (auto simp: extends_def intro!: exI [of _ kept] reachable.start simp del: split_paired_Ex)
next
  case (2 m ss)
  then obtain c1 where c1: "sendMessage m c = Inr c1" "client_steps ss c1 = Inr c'"
    by (auto simp: outcome_eqs)
  obtain kept1 where 1: "reachable (Suc n) md (only r 0 At_Rest c kept) (only r 0 At_Rest c1 kept1)"
    using send_run [OF c1(1) "2.prems"(2), of 1 "Suc n" md r kept]
    unfolding only_move [where t = 0 and u = 1, OF r r] by force
  have life: "extends c c1" by (rule send_extends [OF c1(1)])
  with "2.IH" [OF c1(2), of kept1] "2.prems"(2,3) show ?case
    using 1 by (auto simp: extends_def intro: reachable_trans)
next
  case (3 ok ss)
  show ?case
  proof (cases "cq_tags c = []")
    case True
    with 3 show ?thesis by simp
  next
    case False
    with "3.prems" obtain c1 where c1: "event_turn 0 ok c = Inr c1" "client_steps ss c1 = Inr c'"
      by (auto simp: outcome_eqs)
    have 1: "reachable (Suc n) md (only r 0 At_Rest c kept) (only r 0 At_Rest c1 kept)"
      by (rule event_run [OF c1(1)]) (use "3.prems" in simp_all)
    have life: "extends c c1" by (rule event_turn_extends [OF c1(1)])
    with "3.IH" [OF c1(2), of kept] "3.prems"(2,3) show ?thesis
      using 1 by (auto simp: extends_def intro: reachable_trans)
  qed
qed

lemma only_constructed: "only (\<lambda>_. At_Rest) t At_Rest (createClient tok) ([], []) = constructed (call_metadata tok)"
  by (simp add: only_def constructed_def constructing_def createClient_def TraceAsyncClientImpl_def
      startStream_def createStream_def TraceAsyncStreamImpl_def call_metadata_def Let_def fun_upd_def)


section \<open>Resets\<close>

lemma drain_run:
  assumes "gogo_drain oks c = Inr c'" and "client_reset c" and "md = call_metadata (token c)"
  shows "reachable n md (only r 0 At_Rest c kept) (only r 0 At_Rest c' kept)"
  using assms
proof (induction oks c rule: gogo_drain.induct)
  case (1 c)
  then show ?case by (simp add: reachable.start)
next
  case (2 ok oks c)
  show ?case
  proof (cases "cq_tags c = []")
    case True
    with 2 show ?thesis by (simp add: reachable.start)
  next
    case False
    with "2.prems" obtain c1 where c1: "event_turn 0 ok c = Inr c1" "gogo_drain oks c1 = Inr c'"
      by (auto simp: outcome_eqs)
    have "reachable n md (only r 0 At_Rest c kept) (only r 0 At_Rest c1 kept)"
      by (rule event_run [OF c1(1)]) (use "2.prems" in simp_all)
    moreover have "extends c c1" by (rule event_turn_extends [OF c1(1)])
    with "2.IH" [OF False c1(2)] "2.prems" have
      "reachable n md (only r 0 At_Rest c1 kept) (only r 0 At_Rest c' kept)"
      by (simp add: extends_def)
    ultimately show ?thesis by (rule reachable_trans [rotated])
  qed
qed

lemma drain_extends: "gogo_drain oks c = Inr c' \<Longrightarrow> extends c c'"
proof (induction oks c rule: gogo_drain.induct)
  case (2 ok oks c)
  show ?case
  proof (cases "cq_tags c = []")
    case True
    with 2 show ?thesis by (simp add: extends_def)
  next
    case False
    with "2.prems" obtain c1 where c1: "event_turn 0 ok c = Inr c1" "gogo_drain oks c1 = Inr c'"
      by (auto simp: outcome_eqs)
    with "2.IH" [OF False c1(2)] event_turn_extends [OF c1(1)] show ?thesis by (auto simp: extends_def)
  qed
qed (simp add: extends_def)

text \<open>\<open>resetClient\<close> up to the test of \<open>exited_\<close>, and \<open>exit\<close> up to the join.\<close>

definition discard :: "'m threads \<Rightarrow> 'm threads" where
  "discard s = s\<lparr>t_reset := True, t_buffer := buffer_clear (t_buffer s),
     t_discarded := t_discarded s @ buf (t_buffer s)\<rparr>"

lemma discard_simps [simp]:
  "pcs (discard s) = pcs s" "t_reset (discard s)" "t_exited (discard s) = t_exited s"
  "t_shutdown (discard s) = t_shutdown s" "t_joined (discard s) = t_joined s"
  "t_tags (discard s) = t_tags s" "t_wire (discard s) = t_wire s" "t_stream (discard s) = t_stream s"
  "t_idle (discard s) = t_idle s"
  by (simp_all add: discard_def)

lemma reset_begins:
  assumes "pcs s t = At_Rest" and "1 \<le> t" "t \<le> n" and "\<not> t_exited s"
  shows "reachable n md s (goto t Exit_Tested (discard s))"
proof -
  let ?s1 = "goto t Reset_Flagged (s\<lparr>t_reset := True\<rparr>)"
  let ?s2 = "goto t Reset_Cleared (discard s)"
  have "tstep n md s ?s1" by (rule tstep.reset) (use assms in simp_all)
  moreover have "tstep n md ?s1 ?s2"
    using tstep.clear [of ?s1 t n md] by (simp add: goto_def discard_def)
  moreover have "tstep n md ?s2 (goto t Exit_Tested (discard s))"
    using tstep.not_exited [of ?s2 t n md] assms(4) by (simp add: goto_def)
  ultimately show ?thesis by (blast intro: reachable.intros)
qed

lemma exit_shuts_down:
  assumes "pcs s t = Exit_Tested"
  shows "reachable n md s (goto t Reset_Joining (s\<lparr>t_exited := True, t_shutdown := True\<rparr>))"
proof -
  let ?s1 = "goto t Exit_Flagged (s\<lparr>t_exited := True\<rparr>)"
  have "tstep n md s ?s1" by (rule tstep.set_exited [OF assms])
  moreover have "tstep n md ?s1 (goto t Reset_Joining (s\<lparr>t_exited := True, t_shutdown := True\<rparr>))"
    using tstep.shutdown [of ?s1 t n md] by (simp add: goto_def)
  ultimately show ?thesis by (blast intro: reachable.intros)
qed

lemma reset_run:
  assumes "resetClient oks c = Inr c'" and "\<not> loop_exited c" and "cq_tags c' = []"
    and "md = call_metadata (token c)"
  shows "\<exists>kept'. reachable (Suc n) md (only (\<lambda>_. At_Rest) 1 At_Rest c kept)
    (only (\<lambda>_. At_Rest) 0 Loop_Ended c' kept'\<lparr>t_joined := True\<rparr>)"
proof -
  let ?c1 = "c\<lparr>client_reset := True\<rparr>"
  let ?c2 = "?c1\<lparr>message_buffer := buffer_clear (message_buffer c)\<rparr>"
  let ?c3 = "?c2\<lparr>loop_exited := True\<rparr>"
  let ?kept = "(fst kept, snd kept @ buf (message_buffer c))"
  let ?r = "(\<lambda>_. At_Rest)(1 := Reset_Joining)"
  obtain c4 where c4: "gogo_drain oks ?c3 = Inr c4" "c' = resetStream c4"
    using assms(1,2) by (auto simp: resetClient_def exit_loop_def outcome_eqs)
  let ?s = "only (\<lambda>_. At_Rest) 1 At_Rest c kept" and ?s3 = "only (\<lambda>_. At_Rest) 1 Reset_Joining ?c3 ?kept"
  have "reachable (Suc n) md ?s (goto 1 Exit_Tested (discard ?s))" (is "reachable _ _ _ ?s1")
    by (rule reset_begins) (use assms(2) in simp_all)
  moreover have "reachable (Suc n) md ?s1 ?s3"
    using exit_shuts_down [of ?s1 1 "Suc n" md]
    by (simp add: only_def goto_def discard_def)
  ultimately have 1: "reachable (Suc n) md ?s ?s3" by (rule reachable_trans [rotated])
  have 2: "?s3 = only ?r 0 At_Rest ?c3 ?kept"
    by (simp add: only_def fun_eq_iff)
  have 3: "reachable (Suc n) md (only ?r 0 At_Rest ?c3 ?kept) (only ?r 0 At_Rest c4 ?kept)"
    by (rule drain_run [OF c4(1)]) (use assms(4) in simp_all)
  have drained: "cq_tags c4 = []" "loop_exited c4"
    using c4 assms(3) drain_extends [OF c4(1)] by (simp_all add: resetStream_def extends_def)
  have "tstep (Suc n) md (only ?r 0 At_Rest c4 ?kept) (only ?r 0 Loop_Ended c4 ?kept)"
    (is "tstep _ _ ?t ?t1")
    using tstep.next_drained [where s = ?t and n = "Suc n" and md = md] drained
    by (simp add: only_def goto_def)
  moreover have "tstep (Suc n) md ?t1 (goto 1 Reset_Joined (?t1\<lparr>t_joined := True\<rparr>))"
    (is "tstep _ _ _ ?t2")
    by (rule tstep.join) simp_all
  moreover have "tstep (Suc n) md ?t2 (only (\<lambda>_. At_Rest) 0 Loop_Ended c' ?kept\<lparr>t_joined := True\<rparr>)"
    using tstep.reset_stream [where t = 1 and s = ?t2 and n = "Suc n" and md = md]
    by (simp add: only_def goto_def c4(2) resetStream_def fun_upd_twist fun_upd_idem)
  ultimately have "reachable (Suc n) md ?t
      (only (\<lambda>_. At_Rest) 0 Loop_Ended c' ?kept\<lparr>t_joined := True\<rparr>)"
    by (meson reachable.intros)
  from reachable_trans [OF reachable_trans [OF this 3] 1 [unfolded 2]] show ?thesis
    by (rule exI [of _ ?kept])
qed


text \<open>C10. What the client does call by call is a special case of what its threads do: every run of
  calls and completions is a schedule that ends with all threads at rest and with the same
  counters, buffer, flags, stream, operations and outstanding completions; and a reset that has
  drained the queue is a schedule that ends with the event loop ended.\<close>

theorem atomic_runs_are_schedules:
  assumes "client_steps ss (createClient tok) = Inr c"
  shows "(\<exists>kept. reachable (Suc n) (call_metadata tok) (constructed (call_metadata tok))
        (only (\<lambda>_. At_Rest) 0 At_Rest c kept))
    \<and> (resetClient oks c = Inr c' \<and> cq_tags c' = [] \<longrightarrow>
        (\<exists>kept. reachable (Suc n) (call_metadata tok) (constructed (call_metadata tok))
          (only (\<lambda>_. At_Rest) 0 Loop_Ended c' kept\<lparr>t_joined := True\<rparr>)))"
proof -
  let ?md = "call_metadata tok" and ?r = "\<lambda>_ :: nat. At_Rest :: 'a pc"
  have new: "\<not> loop_exited (createClient tok :: 'a async_client)"
    by (simp add: createClient_def TraceAsyncClientImpl_def startStream_def createStream_def
        TraceAsyncStreamImpl_def Let_def)
  from steps_run [of ?r, OF refl assms new, of ?md n "([], [])"] obtain kept where
    run: "reachable (Suc n) ?md (constructed ?md) (only ?r 0 At_Rest c kept)"
    and life: "extends (createClient tok) c"
    by (auto simp: only_constructed createClient_state)
  have "only ?r 0 At_Rest c kept = only ?r 1 At_Rest c kept" by (rule only_move) simp_all
  then have "\<exists>kept. reachable (Suc n) ?md (constructed ?md) (only ?r 0 Loop_Ended c' kept\<lparr>t_joined := True\<rparr>)"
    if "resetClient oks c = Inr c'" "cq_tags c' = []"
    using reset_run [OF that(1) _ that(2), of ?md n kept] run life new
    by (auto simp: extends_def createClient_state intro: reachable_trans)
  with run show ?thesis by blast
qed

lemma example_reset:
  "\<exists>c c'. client_steps example_history (createClient ''key'') = Inr c \<and> cq_tags c = [Write_Event]
    \<and> resetClient [False] c = Inr c' \<and> cq_tags c' = []"
  by (simp add: example_history_def createClient_def TraceAsyncClientImpl_def startStream_def
      createStream_def TraceAsyncStreamImpl_def sendMessage_def sendMessageOnce_def
      stream_sendMessage_def event_turn_def basic_event_callback_def write_event_callback_def
      markEventLoopIdle_def value_buffer_defs MaxPendingMessagesSize_def resetClient_def
      exit_loop_def resetStream_def Let_def)

theorem atomic_runs_are_schedules_witness:
  "\<exists>c c' kept kept'. client_steps example_history (createClient ''key'') = Inr c
    \<and> cq_tags c = [Write_Event] \<and> resetClient [False] c = Inr c'
    \<and> reachable 1 [(''authentication'', ''key'')] (constructed [(''authentication'', ''key'')])
        (only (\<lambda>_. At_Rest) 0 At_Rest c kept)
    \<and> reachable 1 [(''authentication'', ''key'')] (constructed [(''authentication'', ''key'')])
        (only (\<lambda>_. At_Rest) 0 Loop_Ended c' kept'\<lparr>t_joined := True\<rparr>)"
proof -
  obtain c c' where "client_steps example_history (createClient ''key'') = Inr c"
    "cq_tags c = [Write_Event]" "resetClient [False] c = Inr c'" "cq_tags c' = []"
    using example_reset by blast
  with atomic_runs_are_schedules [of example_history "''key''" c 0 "[False]" c'] show ?thesis
    by (fastforce simp: call_metadata_def AuthenticationKey_def)
qed

section \<open>Recovery\<close>

text \<open>When nothing is under way the client can go on: whoever calls next wins the flag.\<close>

lemma at_rest_ready:
  assumes "token_inv s" and "stream_inv s" and "\<not> t_reset s" and "\<And>t. pcs s t = At_Rest"
    and "t_tags s = []"
  shows "t_idle s" and "t_stream s" and "\<not> t_shutdown s"
proof -
  have "holders s = {}" using assms(4) by (simp add: holders_def)
  with assms(1,3,5) show "t_idle s" by (auto simp: token_inv_def)
  show "t_stream s" "\<not> t_shutdown s" using assms(2-4) by (auto simp: stream_inv_def)
qed

text \<open>C25. The client can go on: in every state that interleavings lead to before a reset, if no thread
  is in the middle of a call, no completion is outstanding and no more than 1024 messages wait, then
  a call of \<open>sendMessage\<close> that nobody interferes with writes the oldest message that is waiting, be it
  the new one or one that was stranded, and keeps the others for the completion that follows. (With
  more messages than that it is stuck, \<open>overfull_client_is_stuck\<close>.)\<close>

theorem client_at_rest_recovers:
  assumes "reachable (Suc n) md (constructed md) s" and "\<not> t_reset s"
    and "\<forall>t. pcs s t = At_Rest" and "t_tags s = []"
    and "buffer_size (t_buffer s) \<le> MaxPendingMessagesSize"
  shows "\<exists>s'. reachable (Suc n) md s s' \<and> (\<forall>t. pcs s' t = At_Rest) \<and> t_tags s' = [Write_Event]
    \<and> writes (t_wire s') @ buf (t_buffer s') = writes (t_wire s) @ buf (t_buffer s) @ [m]
    \<and> length (writes (t_wire s')) = Suc (length (writes (t_wire s)))"
proof -
  note ready = at_rest_ready [OF token_reachable [OF assms(1) token_start(1)]
      stream_reachable [OF assms(1) token_start(1) stream_start] assms(2) spec [OF assms(3)] assms(4)]
  let ?s1 = "goto 1 (Counted m) (s\<lparr>t_total := t_total s + 1\<rparr>)"
  let ?s2 = "goto 1 (Admitted m) ?s1"
  let ?s3 = "goto 1 Try_Idle (?s2\<lparr>t_buffer := push_back m (t_buffer ?s2),
    t_pushed := t_pushed ?s2 @ [m]\<rparr>)"
  let ?s4 = "goto 1 Won (?s3\<lparr>t_idle := False\<rparr>)"
  obtain x b where pop: "pop_front (push_back m (t_buffer s)) = (Some x, b)"
    and rest: "x # buf b = buf (t_buffer s) @ [m]"
    using vb.pop_nonempty [of "push_back m (t_buffer s)"] vb.contents_push [of m "t_buffer s"]
    by (cases "pop_front (push_back m (t_buffer s))"; cases "buf (t_buffer s)") auto
  let ?s4' = "goto 1 Popping ?s4"
  let ?s5 = "goto 1 (Found x) (?s4'\<lparr>t_buffer := b\<rparr>)"
  let ?s6 = "goto 1 At_Rest (?s5\<lparr>t_wire := t_wire ?s5 @ [Write x], t_tags := t_tags ?s5 @ [Write_Event]\<rparr>)"
  let ?r = "reachable (Suc n) md s"
  have r1: "?r ?s1" by (rule more [OF start tstep.call]) (simp_all add: assms(3))
  have r2: "?r ?s2" using assms(5) by (intro more [OF r1 tstep.room]) simp_all
  have r3: "?r ?s3" by (rule more [OF r2 tstep.push]) simp
  have r4: "?r ?s4" by (rule more [OF r3 tstep.cas_won]) (simp_all add: ready)
  have r4': "?r ?s4'" by (rule more [OF r4 tstep.has_stream]) (simp_all add: ready)
  have r5: "?r ?s5" by (rule more [OF r4' tstep.pop_some]) (simp_all add: pop)
  have "?r ?s6" by (rule more [OF r5 tstep.start_write]) (simp_all add: ready)
  moreover have "writes (t_wire ?s6) @ buf (t_buffer ?s6)
      = writes (t_wire s) @ buf (t_buffer s) @ [m]" using rest by simp
  ultimately show ?thesis using assms(3,4) by (intro exI [of _ ?s6]) simp
qed

theorem client_at_rest_recovers_witness:
  "\<exists>s s' :: nat threads. reachable 1 [] (constructed []) s \<and> buf (t_buffer s) = [7]
    \<and> reachable 1 [] s s' \<and> writes (t_wire s') @ buf (t_buffer s') = [7, 8]
    \<and> length (writes (t_wire s')) = 1"
proof -
  obtain s :: "nat threads" where s: "reachable (Suc 0) [] (constructed []) s" "buf (t_buffer s) = [7]"
    "\<forall>t. pcs s t = At_Rest" "t_tags s = []" "writes (t_wire s) = []" "\<not> t_reset s"
    using stranded_run [of 0 "[]" "7 :: nat"] by auto
  have "buffer_size (t_buffer s) \<le> MaxPendingMessagesSize"
    by (simp add: s(2) vb.size_contents MaxPendingMessagesSize_def)
  from client_at_rest_recovers [OF s(1,6,3,4) this, of 8] s show ?thesis by fastforce
qed

end
