(* ===== verification/Async_Client_Progress.thy ===== *)
theory Async_Client_Progress
  imports Async_Client_Schedules
begin

text \<open>
  No thread of the reporter client waits for another for ever: once the completion queue has been
  shut down the event loop ends within a few moves, or fails when it was about to start an
  operation, and before a reset \<open>sendMessage\<close> returns within a few moves of its own, whatever the
  other threads do in between.
\<close>

section \<open>Runs\<close>

text \<open>
  A run of the threads in which thread \<open>t\<close> makes \<open>k\<close> moves, none after it has got to \<open>dest\<close>.
\<close>

inductive runs :: "nat \<Rightarrow> metadata \<Rightarrow> nat \<Rightarrow> 'm pc \<Rightarrow> 'm threads \<Rightarrow> nat \<Rightarrow> 'm threads \<Rightarrow> bool"
  for n md t dest s
where
  no_step: "runs n md t dest s 0 s"
| own_move: "runs n md t dest s k s' \<Longrightarrow> tstep n md s' s'' \<Longrightarrow> pcs s' t \<noteq> dest \<Longrightarrow>
    pcs s'' t \<noteq> pcs s' t \<Longrightarrow> runs n md t dest s (Suc k) s''"
| other_move: "runs n md t dest s k s' \<Longrightarrow> tstep n md s' s'' \<Longrightarrow> pcs s'' t = pcs s' t \<Longrightarrow>
    runs n md t dest s k s''"

lemma runs_reachable: "runs n md t dest s k s' \<Longrightarrow> reachable n md s s'"
  by (induction rule: runs.induct) (auto intro: reachable.intros)

lemma reset_stays: "tstep n md s s' \<Longrightarrow> t_reset s \<Longrightarrow> t_reset s'"
  by (erule tstepE) simp_all

section \<open>The event loop ends\<close>

text \<open>The places the event loop thread visits; it never calls \<open>sendMessage\<close> or \<open>resetClient\<close>.\<close>

definition in_loop :: "'m pc \<Rightarrow> bool" where
  "in_loop p = (case p of Counted _ \<Rightarrow> False | Overflowed \<Rightarrow> False | Admitted _ \<Rightarrow> False
     | _ \<Rightarrow> \<not> resetting p)"

lemma in_loop_simps [simp]:
  "in_loop At_Rest" "\<not> in_loop (Counted m)" "\<not> in_loop (Admitted m)" "in_loop Try_Idle" "in_loop Won"
  "in_loop Found_Empty" "in_loop (Found m)" "in_loop (Got tag ok)" "in_loop (Callback ok)"
  "in_loop Opening_Stream" "in_loop Opened" "in_loop Loop_Ended" "\<not> in_loop Reset_Flagged"
  "\<not> in_loop Reset_Cleared" "\<not> in_loop Exit_Tested" "\<not> in_loop Exit_Flagged"
  "\<not> in_loop Reset_Joining" "\<not> in_loop Reset_Joined" "\<not> in_loop Overflowed" "in_loop Popping"
  "in_loop Marking" "in_loop Failing" "in_loop Replacing" "in_loop Dropping"
  by (simp_all add: in_loop_def)

lemma in_loop_step: "tstep n md s s' \<Longrightarrow> in_loop (pcs s 0) \<Longrightarrow> in_loop (pcs s' 0)"
  by (cases rule: tstep.cases) (auto intro!: gr0I split: if_splits)

lemma in_loop_reachable: "reachable n md (constructed md) s \<Longrightarrow> in_loop (pcs s 0)"
  by (induction rule: reachable.induct) (simp add: constructed_def, rule in_loop_step)

text \<open>Before a reset the thread has not ended.\<close>

lemma not_reset_clean:
  "reachable n md (constructed md) s \<Longrightarrow> \<not> t_reset s \<Longrightarrow>
    \<not> t_exited s \<and> \<not> t_joined s \<and> pcs s 0 \<noteq> Loop_Ended"
proof (induction rule: reachable.induct)
  case start
  then show ?case by (simp add: constructed_def constructing_def)
next
  case (more s s')
  have "stream_inv s" by (rule stream_reachable [OF more.hyps(1) token_start(1) stream_start])
  then have "t_reset s \<or> \<not> t_shutdown s \<and> (\<forall>t. pcs s t \<noteq> Exit_Tested \<and> pcs s t \<noteq> Reset_Joining)"
    unfolding stream_inv_def by (metis resetting_simps(15,17))
  with more.hyps(2) more.IH more.prems show ?case
    by (cases rule: tstep.cases) (simp_all split: if_splits)
qed

text \<open>The thread has passed its test of \<open>client_reset_\<close> and not given up the stream since.\<close>

definition past_test :: "'m pc \<Rightarrow> bool" where
  "past_test p \<longleftrightarrow> p = Try_Idle \<or> holds p \<and> (\<forall>tag ok. p \<noteq> Got tag ok) \<and> (\<forall>ok. p \<noteq> Callback ok)"

lemma past_test_simps [simp]:
  "\<not> past_test At_Rest" "\<not> past_test (Counted m)" "\<not> past_test Overflowed" "\<not> past_test (Admitted m)"
  "past_test Try_Idle" "past_test Won" "past_test Popping" "past_test Found_Empty"
  "past_test (Found m)" "\<not> past_test (Got tag ok)" "\<not> past_test (Callback ok)" "past_test Marking"
  "past_test Failing" "past_test Replacing" "past_test Dropping" "past_test Opening_Stream"
  "\<not> past_test Opened" "\<not> past_test Loop_Ended"
  by (simp_all add: past_test_def)

text \<open>How many more moves the thread can make once the queue has been shut down.\<close>

definition loop_left :: "event_tag list \<Rightarrow> 'm pc \<Rightarrow> nat" where
  "loop_left tags p = 3 * length tags + (case p of
     At_Rest \<Rightarrow> 1 | Marking \<Rightarrow> 6 | Try_Idle \<Rightarrow> (if tags = [] then 5 else 2) | Won \<Rightarrow> 4 | Popping \<Rightarrow> 3
   | Found_Empty \<Rightarrow> 2 | Found _ \<Rightarrow> 2 | Got _ _ \<Rightarrow> 3 | Callback _ \<Rightarrow> 2 | Failing \<Rightarrow> 5 | Replacing \<Rightarrow> 4
   | Dropping \<Rightarrow> 3 | Opening_Stream \<Rightarrow> 2 | Opened \<Rightarrow> 2 | _ \<Rightarrow> 0)"

definition loop_work :: "'m threads \<Rightarrow> nat" where
  "loop_work s = loop_left (t_tags s) (pcs s 0)"

lemma loop_left_bound:
  assumes "token_inv s" and "pcs s 0 = p"
  shows "loop_left (t_tags s) p \<le> 6"
proof -
  have "t_tags s = [] \<or> (\<exists>tag. t_tags s = [tag]) \<and> \<not> holds p"
    using assms by (auto simp: token_inv_def holders_def)
  then show ?thesis by (cases p) (auto simp: loop_left_def)
qed

lemma shutdown_step:
  assumes "tstep n md s s'" and "t_shutdown s" and "t_reset s" and "in_loop (pcs s 0)" and "token_inv s"
  shows "t_shutdown s'" and "t_wire s' = t_wire s" and "loop_work s' \<le> loop_work s"
    and "pcs s' 0 \<noteq> pcs s 0 \<Longrightarrow> loop_work s' < loop_work s"
    and "past_test (pcs s' 0) \<Longrightarrow> past_test (pcs s 0)"
proof -
  have won: "pcs s 0 = Try_Idle \<Longrightarrow> t_idle s \<Longrightarrow> t_tags s = []"
    using assms(5) by (auto simp: token_inv_def)
  show "t_shutdown s'" "t_wire s' = t_wire s" using assms(1-4)
    by (cases rule: tstep.cases; simp)+
  show "past_test (pcs s' 0) \<Longrightarrow> past_test (pcs s 0)" using assms(1-4)
    by (cases rule: tstep.cases) (simp_all split: if_splits)
  show "loop_work s' \<le> loop_work s" "pcs s' 0 \<noteq> pcs s 0 \<Longrightarrow> loop_work s' < loop_work s"
    using assms(1-4) won by (cases rule: tstep.cases; auto simp: loop_work_def loop_left_def split: if_splits)+
qed

lemma shutdown_runs:
  assumes "runs n md 0 Loop_Ended s k s'" and "t_shutdown s" and "t_reset s" and "in_loop (pcs s 0)" and "token_inv s"
  shows "t_shutdown s' \<and> t_reset s' \<and> in_loop (pcs s' 0) \<and> token_inv s' \<and> t_wire s' = t_wire s
    \<and> k + loop_work s' \<le> loop_work s \<and> (past_test (pcs s' 0) \<longrightarrow> past_test (pcs s 0))"
  using assms
proof (induction rule: runs.induct)
  case (own_move k s' s'')
  then have "t_shutdown s'" "t_reset s'" "in_loop (pcs s' 0)" "token_inv s'" by simp_all
  note next_step = shutdown_step [OF own_move.hyps(2) this]
    in_loop_step [OF own_move.hyps(2) this(3)] token_step [OF own_move.hyps(2) this(4)]
    reset_stays [OF own_move.hyps(2) this(2)]
  with own_move show ?case by simp
next
  case (other_move k s' s'')
  then have "t_shutdown s'" "t_reset s'" "in_loop (pcs s' 0)" "token_inv s'" by simp_all
  note next_step = shutdown_step [OF other_move.hyps(2) this]
    in_loop_step [OF other_move.hyps(2) this(3)] token_step [OF other_move.hyps(2) this(4)]
    reset_stays [OF other_move.hyps(2) this(2)]
  with other_move show ?case by simp
qed simp

text \<open>
  Until it has ended the thread can always move, unless it is past its test of the flag, and then it
  can move or has the step that makes the program fail.
\<close>

lemma loop_can_move:
  assumes "in_loop (pcs s 0)" and "pcs s 0 \<noteq> Loop_Ended" and "t_shutdown s"
  shows "(\<exists>s'. tstep n md s s' \<and> pcs s' 0 \<noteq> pcs s 0)
    \<or> past_test (pcs s 0) \<and> (\<exists>s'. tstep n md s s' \<and> t_failed s')"
proof (cases "pcs s 0")
  case At_Rest
  show ?thesis
  proof (cases "t_tags s")
    case Nil
    with tstep.next_drained [OF At_Rest assms(3)] At_Rest show ?thesis by force
  next
    case (Cons tag vs)
    then have "t_tags s = [] @ tag # vs" by simp
    from tstep.next_event [OF At_Rest this] At_Rest show ?thesis by force
  qed
next
  case Try_Idle
  with tstep.cas_won [of s 0] tstep.cas_lost [of s 0] show ?thesis by (cases "t_idle s") force+
next
  case Won
  with tstep.no_stream [of s 0] tstep.has_stream [of s 0] show ?thesis by (cases "t_stream s") force+
next
  case Popping
  obtain front b where "pop_front (t_buffer s) = (front, b)" by fastforce
  with Popping tstep.pop_none [of s 0 b] tstep.pop_some [of s 0 _ b] show ?thesis
    by (cases front) force+
next
  case (Got tag ok)
  with tstep.basic_event [of s ok] tstep.write_event [of s ok] show ?thesis by (cases tag) force+
next
  case (Callback ok)
  with tstep.event_reset [of s ok] tstep.event_ok [of s] tstep.event_failed [of s]
  show ?thesis by (cases "t_reset s"; cases ok) force+
next
  case Marking
  with tstep.mark_event [of s] show ?thesis by force
next
  case Failing
  with tstep.event_assert [of s] tstep.not_idle [of s] show ?thesis by (cases "t_idle s") force+
next
  case Replacing
  with tstep.old_stream [of s 0] tstep.no_old_stream [of s 0] show ?thesis
    by (cases "t_stream s") force+
next
  case Dropping
  with tstep.drop_stream [of s 0] show ?thesis by force
next
  case Opened
  with tstep.set_stream [of s 0] show ?thesis by force
next
  case Opening_Stream
  with tstep.bad_create [of s 0] assms(3) show ?thesis by force
next
  case (Found m)
  with tstep.bad_write [of s 0 m] assms(3) show ?thesis by force
next
  case Found_Empty
  with tstep.mark_idle [of s 0] show ?thesis by force
qed (use assms in simp_all)

text \<open>C12. Once \<open>exit\<close> has shut the completion queue down, the event loop thread makes at most six
  more moves, whatever the other threads do in between, and puts nothing more on the wire. Until it
  has ended its next move can always be made, so that the join returns, with one exception: a
  thread that was past its test of the flag when the queue was shut down may come to a step that
  fails: the start of an operation on that queue, or the assertion on the stream when another
  thread's reset has already let go of it. A thread that was not never comes to such a step.\<close>

theorem event_loop_ends_after_shutdown:
  assumes "reachable n md (constructed md) s" and "t_shutdown s" and "runs n md 0 Loop_Ended s k s'"
  shows "k \<le> 6 \<and> t_wire s' = t_wire s
    \<and> (past_test (pcs s' 0) \<longrightarrow> past_test (pcs s 0))
    \<and> (pcs s' 0 = Loop_Ended \<or> (\<exists>s''. tstep n md s' s'' \<and> pcs s'' 0 \<noteq> pcs s' 0)
      \<or> past_test (pcs s' 0) \<and> (\<exists>s''. tstep n md s' s'' \<and> t_failed s''))"
proof -
  have inv: "token_inv s" "stream_inv s" "in_loop (pcs s 0)"
    using token_reachable stream_reachable token_start(1) stream_start in_loop_reachable assms(1)
    by blast+
  with assms(2) have "t_reset s" by (auto simp: stream_inv_def)
  note end_of_run = shutdown_runs [OF assms(3,2) this inv(3,1)]
  moreover have "k + loop_work s' \<le> 6"
    using end_of_run loop_left_bound [OF inv(1) refl] by (simp add: loop_work_def)
  ultimately show ?thesis using loop_can_move [of s' n md] by auto
qed

section \<open>sendMessage returns\<close>

definition call_work :: "'m pc \<Rightarrow> nat" where
  "call_work p = (case p of Counted _ \<Rightarrow> 6 | Overflowed \<Rightarrow> 1 | Admitted _ \<Rightarrow> 5 | Try_Idle \<Rightarrow> 4 | Won \<Rightarrow> 3
     | Popping \<Rightarrow> 2 | Found_Empty \<Rightarrow> 1 | Found _ \<Rightarrow> 1 | _ \<Rightarrow> 0)"

lemma call_move:
  assumes "tstep n md s s'" and "0 < call_work (pcs s t)" and "pcs s' t \<noteq> pcs s t"
  shows "call_work (pcs s' t) < call_work (pcs s t)"
  using assms by (cases rule: tstep.cases) (auto simp: call_work_def split: if_splits)

lemma call_work_bound: "call_work p \<le> 6"
  by (cases p) (simp_all add: call_work_def)

text \<open>Before a reset an application thread that is not at rest is in the middle of \<open>sendMessage\<close>.\<close>

lemma application_pc:
  assumes "reachable n md (constructed md) s" and "\<not> t_reset s" and "1 \<le> t"
    and "pcs s t \<noteq> At_Rest"
  shows "0 < call_work (pcs s t)"
proof -
  have inv: "stream_inv s" by (rule stream_reachable [OF assms(1) token_start(1) stream_start])
  then have "\<not> resetting (pcs s t)" "\<not> loop_only (pcs s t)"
    using assms(2,3) unfolding stream_inv_def by (metis not_one_le_zero)+
  then show ?thesis using assms(4) by (cases "pcs s t") (auto simp: call_work_def)
qed

lemma call_can_move:
  assumes "reachable n md (constructed md) s" and "\<not> t_reset s" and "0 < call_work (pcs s t)"
  shows "\<exists>s'. tstep n md s s' \<and> pcs s' t \<noteq> pcs s t \<and> \<not> t_failed s'"
proof -
  have inv: "token_inv s" "stream_inv s"
    using token_reachable stream_reachable token_start(1) stream_start assms(1) by blast+
  then have ok: "\<not> t_failed s" "\<not> t_shutdown s" using assms(2) by (auto simp: stream_inv_def)
  have stream: "pcs s t = p \<Longrightarrow> holds p \<Longrightarrow> p \<noteq> Opening_Stream \<Longrightarrow> t_stream s" for p
    by (rule operator_has_stream [OF inv assms(2)])
  show ?thesis
  proof (cases "pcs s t")
    case (Counted m)
    with tstep.full [of s t m] tstep.room [of s t m] ok(1) show ?thesis
      by (cases "buffer_size (t_buffer s) > MaxPendingMessagesSize") force+
  next
    case (Admitted m)
    with tstep.push [of s t m] ok(1) show ?thesis by force
  next
    case Try_Idle
    with tstep.cas_won [of s t] tstep.cas_lost [of s t] ok(1) show ?thesis
      by (cases "t_idle s") force+
  next
    case Overflowed
    with tstep.overflow [of s t] ok(1) show ?thesis by force
  next
    case Won
    with tstep.has_stream [of s t] ok(1) stream [OF Won] show ?thesis by force
  next
    case Popping
    obtain front b where "pop_front (t_buffer s) = (front, b)" by fastforce
    with Popping tstep.pop_none [of s t b] tstep.pop_some [of s t _ b] ok(1)
    show ?thesis by (cases front) force+
  next
    case Found_Empty
    with tstep.mark_idle [of s t] ok(1) show ?thesis by force
  next
    case (Found m)
    with tstep.start_write [of s t m] ok stream [OF Found] show ?thesis by force
  qed (use assms(3) in \<open>simp_all add: call_work_def\<close>)
qed

lemma call_runs:
  assumes "runs n md t At_Rest s k s'" and "reachable n md (constructed md) s" and "\<not> t_reset s'"
    and "1 \<le> t" and "pcs s t \<noteq> At_Rest"
  shows "k + call_work (pcs s' t) \<le> 6"
  using assms(1,3)
proof (induction rule: runs.induct)
  case no_step
  show ?case by (simp add: call_work_bound)
next
  case (own_move k s' s'')
  then have "\<not> t_reset s'" using reset_stays by blast
  moreover from this have "0 < call_work (pcs s' t)"
    using application_pc [OF reachable_trans [OF runs_reachable [OF own_move.hyps(1)] assms(2)]]
      own_move.hyps(3) assms(4) by blast
  ultimately show ?case using call_move [OF own_move.hyps(2)] own_move.hyps(4) own_move.IH by force
next
  case (other_move k s' s'')
  then have "\<not> t_reset s'" using reset_stays by blast
  with other_move show ?case by simp
qed

text \<open>C13. No caller waits for another thread: a thread in the middle of \<open>sendMessage\<close> makes at most six
  more moves before it has returned, however the other threads move in between, as long as none of
  them begins a reset, and until then its next move can always be made and does not fail.\<close>

theorem sendMessage_is_wait_free:
  assumes "reachable n md (constructed md) s" and "1 \<le> t" and "pcs s t \<noteq> At_Rest"
    and "runs n md t At_Rest s k s'" and "\<not> t_reset s'"
  shows "k \<le> 6 \<and> (pcs s' t = At_Rest
    \<or> (\<exists>s''. tstep n md s' s'' \<and> pcs s'' t \<noteq> pcs s' t \<and> \<not> t_failed s''))"
proof -
  have r: "reachable n md (constructed md) s'"
    by (rule reachable_trans [OF runs_reachable [OF assms(4)] assms(1)])
  from call_runs [OF assms(4,1,5,2,3)] have "k \<le> 6" by simp
  moreover have "\<exists>s''. tstep n md s' s'' \<and> pcs s'' t \<noteq> pcs s' t \<and> \<not> t_failed s''"
    if "pcs s' t \<noteq> At_Rest"
    by (rule call_can_move [OF r assms(5) application_pc [OF r assms(5,2) that]])
  ultimately show ?thesis by blast
qed

section \<open>Witnesses\<close>

theorem event_loop_ends_after_shutdown_witness:
  "\<exists>s s' :: nat threads. reachable 2 [] (constructed []) s \<and> t_shutdown s
    \<and> runs 2 [] 0 Loop_Ended s 4 s' \<and> pcs s' 0 = Loop_Ended \<and> t_wire s' = [Start_Call TraceCollectMethod []] \<and> (4 :: nat) \<le> 6"
proof -
  let ?s1 = "goto 1 Exit_Tested (discard (constructed [] :: nat threads))"
  let ?s2 = "goto 1 Reset_Joining (?s1\<lparr>t_exited := True, t_shutdown := True\<rparr>)"
  let ?s3 = "goto 0 (Got Basic_Event True) (?s2\<lparr>t_tags := [] @ []\<rparr>)"
  let ?s4 = "goto 0 (Callback True) ?s3"
  let ?s5 = "goto 0 At_Rest ?s4"
  let ?s6 = "goto 0 Loop_Ended ?s5"
  note defs = constructed_def constructing_def
  have "reachable 2 [] (constructed []) ?s1" by (rule reset_begins) (simp_all add: defs)
  moreover have "reachable 2 [] ?s1 ?s2" by (rule exit_shuts_down) simp
  ultimately have s: "reachable 2 [] (constructed []) ?s2" by (rule reachable_trans [rotated])
  have "runs 2 [] 0 Loop_Ended ?s2 (Suc 0) ?s3"
    by (rule own_move [OF runs.no_step tstep.next_event]) (simp_all add: defs)
  then have "runs 2 [] 0 Loop_Ended ?s2 (Suc (Suc 0)) ?s4"
    by (rule own_move [OF _ tstep.basic_event]) simp_all
  then have "runs 2 [] 0 Loop_Ended ?s2 (Suc (Suc (Suc 0))) ?s5"
    by (rule own_move [OF _ tstep.event_reset]) simp_all
  then have "runs 2 [] 0 Loop_Ended ?s2 (Suc (Suc (Suc (Suc 0)))) ?s6"
    by (rule own_move [OF _ tstep.next_drained]) simp_all
  moreover have "Suc (Suc (Suc (Suc 0))) = 4" by simp
  ultimately have run: "runs 2 [] 0 Loop_Ended ?s2 4 ?s6" by (rule back_subst [where P = "\<lambda>k. runs 2 [] 0 Loop_Ended ?s2 k ?s6"])
  from event_loop_ends_after_shutdown [OF s _ run] s run show ?thesis
    by (intro exI [of _ ?s2] exI [of _ ?s6]) (simp add: defs)
qed

theorem sendMessage_is_wait_free_witness:
  "\<exists>s s' :: nat threads. reachable 1 [] (constructed []) s \<and> pcs s 1 = Counted 7
    \<and> runs 1 [] 1 At_Rest s 1 s' \<and> pcs s' 1 = Admitted 7 \<and> (1 :: nat) \<le> 6
    \<and> (\<exists>s''. tstep 1 [] s' s'' \<and> pcs s'' 1 \<noteq> Admitted 7 \<and> \<not> t_failed s'')"
proof -
  let ?s1 = "goto 1 (Counted 7) ((constructed [] :: nat threads)\<lparr>t_total := t_total (constructed [] :: nat threads) + 1\<rparr>)"
  let ?s2 = "goto 1 (Admitted 7) ?s1"
  note defs = constructed_def constructing_def
  have s: "reachable 1 [] (constructed []) ?s1"
    by (rule reachable.more [OF reachable.start tstep.call]) (simp_all add: defs)
  have "runs 1 [] 1 At_Rest ?s1 (Suc 0) ?s2"
    by (rule own_move [OF no_step tstep.room]) (simp_all add: defs value_buffer_defs MaxPendingMessagesSize_def)
  then have run: "runs 1 [] 1 At_Rest ?s1 1 ?s2" by simp
  have "\<not> t_reset ?s2" by (simp add: defs)
  from sendMessage_is_wait_free [OF s _ _ run this] s run show ?thesis
    by (intro exI [of _ ?s1] exI [of _ ?s2]) simp
qed

end
