(* ===== verification/Async_Client_Resets.thy ===== *)
theory Async_Client_Resets
  imports Async_Client_Progress Async_Client_Accounting
begin

text \<open>
  \<open>resetClient\<close> and \<open>EventLoopThread::exit\<close> of \<^verbatim>\<open>source/grpc_async_client_impl.h\<close> while other threads
  run: exactly when a reset by the only application thread is safe, and two ways a reset goes wrong,
  against the event loop and against another reset.
\<close>

section \<open>When a reset is safe\<close>

text \<open>A run of all the threads, of \<open>k\<close> steps, in which thread 1 has not returned before the last.\<close>

inductive until_returned :: "nat \<Rightarrow> metadata \<Rightarrow> 'm threads \<Rightarrow> nat \<Rightarrow> 'm threads \<Rightarrow> bool" for n md s where
  no_step: "until_returned n md s 0 s"
| one_more: "until_returned n md s k s' \<Longrightarrow> pcs s' 1 \<noteq> At_Rest \<Longrightarrow> tstep n md s' s'' \<Longrightarrow>
    until_returned n md s (Suc k) s''"

text \<open>
  The event loop is past its test of the flag and about to start an operation: the call of a new
  stream, after it has let go of the old one, or the write of a message that it holds or can still
  get.
\<close>

definition about_to_start :: "'m threads \<Rightarrow> bool" where
  "about_to_start s \<longleftrightarrow> (case pcs s 0 of Failing \<Rightarrow> True | Replacing \<Rightarrow> True
     | Dropping \<Rightarrow> True | Opening_Stream \<Rightarrow> True | Found _ \<Rightarrow> True | Marking \<Rightarrow> buf (t_buffer s) \<noteq> []
     | Won \<Rightarrow> buf (t_buffer s) \<noteq> [] | Popping \<Rightarrow> buf (t_buffer s) \<noteq> []
     | Try_Idle \<Rightarrow> t_idle s \<and> buf (t_buffer s) \<noteq> [] | _ \<Rightarrow> False)"

lemma about_to_start_simps [simp]:
  "pcs s 0 = At_Rest \<Longrightarrow> \<not> about_to_start s" "pcs s 0 = Got tag ok \<Longrightarrow> \<not> about_to_start s"
  "pcs s 0 = Callback ok \<Longrightarrow> \<not> about_to_start s" "pcs s 0 = Loop_Ended \<Longrightarrow> \<not> about_to_start s"
  "pcs s 0 = Opened \<Longrightarrow> \<not> about_to_start s" "pcs s 0 = Found_Empty \<Longrightarrow> \<not> about_to_start s"
  "pcs s 0 = Failing \<Longrightarrow> about_to_start s" "pcs s 0 = Replacing \<Longrightarrow> about_to_start s"
  "pcs s 0 = Dropping \<Longrightarrow> about_to_start s"
  "pcs s 0 = Marking \<Longrightarrow> about_to_start s \<longleftrightarrow> buf (t_buffer s) \<noteq> []"
  "pcs s 0 = Popping \<Longrightarrow> about_to_start s \<longleftrightarrow> buf (t_buffer s) \<noteq> []"
  "pcs s 0 = Opening_Stream \<Longrightarrow> about_to_start s" "pcs s 0 = Found m \<Longrightarrow> about_to_start s"
  "pcs s 0 = Won \<Longrightarrow> about_to_start s \<longleftrightarrow> buf (t_buffer s) \<noteq> []"
  "pcs s 0 = Try_Idle \<Longrightarrow> about_to_start s \<longleftrightarrow> t_idle s \<and> buf (t_buffer s) \<noteq> []"
  by (simp_all add: about_to_start_def)

text \<open>
  What holds while thread 1 is in \<open>resetClient\<close> and the loop was not about to start anything when
  it began: the loop finds the flag set or the buffer empty, and how far \<open>exit\<close> has got tells what
  it has done.
\<close>

definition exit_done :: "'m pc \<Rightarrow> bool \<times> bool \<times> bool" where
  "exit_done p = (case p of Exit_Flagged \<Rightarrow> (True, False, False) | Reset_Joining \<Rightarrow> (True, True, False)
     | Reset_Joined \<Rightarrow> (True, True, True) | At_Rest \<Rightarrow> (True, True, True) | _ \<Rightarrow> (False, False, False))"

definition reset_alone :: "'m operation list \<Rightarrow> 'm threads \<Rightarrow> bool" where
  "reset_alone ops s \<longleftrightarrow> t_reset s \<and> \<not> t_failed s \<and> t_wire s = ops \<and> token_inv s
     \<and> (\<forall>t. pcs s t = At_Rest \<or> t = 0 \<and> in_loop (pcs s t) \<or> t = 1 \<and> resetting (pcs s t))
     \<and> \<not> about_to_start s
     \<and> exit_done (pcs s 1) = (t_exited s, t_shutdown s, t_joined s)
     \<and> (t_joined s \<longrightarrow> pcs s 0 = Loop_Ended) \<and> (pcs s 0 = Loop_Ended \<longrightarrow> t_tags s = [])
     \<and> (t_stream s \<or> pcs s 0 = Opened \<or> t_joined s) \<and> (pcs s 1 = At_Rest \<longrightarrow> \<not> t_stream s)
     \<and> (pcs s 1 \<noteq> Reset_Flagged \<longrightarrow> buf (t_buffer s) = [])"

definition reset_left :: "'m pc \<Rightarrow> nat" where
  "reset_left p = (case p of Reset_Flagged \<Rightarrow> 6 | Reset_Cleared \<Rightarrow> 5 | Exit_Tested \<Rightarrow> 4
     | Exit_Flagged \<Rightarrow> 3 | Reset_Joining \<Rightarrow> 2 | Reset_Joined \<Rightarrow> 1 | _ \<Rightarrow> 0)"

definition reset_work :: "'m threads \<Rightarrow> nat" where
  "reset_work s = loop_left (t_tags s) (pcs s 0) + reset_left (pcs s 1)"

lemma exit_done_simps [simp]:
  "exit_done Reset_Flagged = (False, False, False)" "exit_done Reset_Cleared = (False, False, False)"
  "exit_done Exit_Tested = (False, False, False)" "exit_done Exit_Flagged = (True, False, False)"
  "exit_done Reset_Joining = (True, True, False)" "exit_done Reset_Joined = (True, True, True)"
  "exit_done At_Rest = (True, True, True)"
  by (simp_all add: exit_done_def)

lemma resetting_not_in_loop: "resetting p \<Longrightarrow> \<not> in_loop p"
  by (auto simp: in_loop_def resetting_def)

text \<open>The steps there are in such a state.\<close>

lemma alone_place:
  "reset_alone ops s \<Longrightarrow> pcs s t = At_Rest \<or> t = 0 \<and> in_loop (pcs s t) \<or> t = 1 \<and> resetting (pcs s t)"
  by (simp add: reset_alone_def)

lemma alone_resetting:
  assumes "reset_alone ops s" and "pcs s t = p" and "resetting p"
  shows "t = 1"
  using alone_place [OF assms(1), of t] assms(2,3) resetting_not_in_loop by auto

lemma alone_loop:
  assumes "reset_alone ops s" and "pcs s t = p" and "p \<noteq> At_Rest" and "\<not> resetting p"
  shows "t = 0"
  using alone_place [OF assms(1), of t] assms(2-) by auto

lemma alone_update:
  assumes "reset_alone ops s" and "pcs s' = (pcs s)(t := p)"
    and "p = At_Rest \<or> t = 0 \<and> in_loop p \<or> t = 1 \<and> resetting p"
  shows "pcs s' u = At_Rest \<or> u = 0 \<and> in_loop (pcs s' u) \<or> u = 1 \<and> resetting (pcs s' u)"
  using alone_place [OF assms(1), of u] assms(2,3) by simp

lemma alone_loop_moves:
  assumes "reset_alone ops s" and "pcs s' = (pcs s)(0 := p)" and "in_loop p" and "token_inv s'"
    and "t_reset s'" "\<not> t_failed s'" "t_wire s' = t_wire s" "t_exited s' = t_exited s"
    and "t_shutdown s' = t_shutdown s" "t_joined s' = t_joined s" "pcs s 0 \<noteq> Loop_Ended"
    and "\<not> about_to_start s'" "buf (t_buffer s') = buf (t_buffer s)"
    and "t_stream s' = t_stream s \<and> pcs s 0 \<noteq> Opened \<or> t_stream s'" "p = Loop_Ended \<Longrightarrow> t_tags s' = []"
    and "loop_left (t_tags s') p < loop_left (t_tags s) (pcs s 0)"
  shows "reset_alone ops s' \<and> reset_work s' < reset_work s"
proof -
  have "\<forall>u. pcs s' u = At_Rest \<or> u = 0 \<and> in_loop (pcs s' u) \<or> u = 1 \<and> resetting (pcs s' u)"
    using alone_update [OF assms(1,2)] assms(3) by simp
  moreover have "pcs s' 1 = pcs s 1" "pcs s' 0 = p" using assms(2) by simp_all
  moreover have "\<not> t_joined s" "pcs s 1 \<noteq> At_Rest" using assms(1,11) by (auto simp: reset_alone_def)
  ultimately show ?thesis using assms(1,4-) by (auto simp: reset_alone_def reset_work_def)
qed

lemma alone_reset_moves:
  assumes "reset_alone ops s" and "pcs s' = (pcs s)(1 := p)" and "p = At_Rest \<or> resetting p"
    and "token_inv s'" and "t_reset s'" "\<not> t_failed s'" "t_wire s' = t_wire s" "t_tags s' = t_tags s"
    and "exit_done p = (t_exited s', t_shutdown s', t_joined s')"
    and "t_joined s' \<Longrightarrow> pcs s 0 = Loop_Ended" and "p = At_Rest \<Longrightarrow> \<not> t_stream s'"
    and "t_joined s \<Longrightarrow> t_joined s'" "t_stream s' = t_stream s \<or> t_joined s'" "t_idle s' = t_idle s"
    and "buf (t_buffer s') = []" and "reset_left p < reset_left (pcs s 1)"
  shows "reset_alone ops s' \<and> reset_work s' < reset_work s"
proof -
  have "\<forall>u. pcs s' u = At_Rest \<or> u = 0 \<and> in_loop (pcs s' u) \<or> u = 1 \<and> resetting (pcs s' u)"
    using alone_update [OF assms(1,2)] assms(3) by blast
  moreover have at: "pcs s' 0 = pcs s 0" "pcs s' 1 = p" using assms(2) by simp_all
  moreover have "\<not> about_to_start s'"
    using assms(1,15) at(1) by (cases "pcs s 0") (auto simp: reset_alone_def about_to_start_def)
  moreover have "t_stream s' \<or> pcs s 0 = Opened \<or> t_joined s'"
    using assms(1,12,13) by (auto simp: reset_alone_def)
  ultimately show ?thesis using assms(1,4-) by (simp add: reset_alone_def reset_work_def)
qed


lemma reset_alone_step:
  assumes "reset_alone ops s" and "pcs s 1 \<noteq> At_Rest" and "tstep 1 md s s'"
  shows "reset_alone ops s' \<and> reset_work s' < reset_work s"
proof -
  have inv: "t_reset s" "\<not> t_failed s" "exit_done (pcs s 1) = (t_exited s, t_shutdown s, t_joined s)"
    "t_joined s \<Longrightarrow> pcs s 0 = Loop_Ended" "\<not> about_to_start s"
    "t_stream s \<or> pcs s 0 = Opened \<or> t_joined s"
    "pcs s 1 \<noteq> Reset_Flagged \<Longrightarrow> buf (t_buffer s) = []"
    using assms(1) by (simp_all add: reset_alone_def)
  have token: "token_inv s" using assms(1) by (simp add: reset_alone_def)
  note token' = token_step [OF assms(3) token]
  note one = alone_resetting [OF assms(1)] and zero = alone_loop [OF assms(1)]
  note loop_moves = alone_loop_moves [OF assms(1) _ _ token'] and reset_moves = alone_reset_moves [OF assms(1) _ _ token']
  from assms(3) show ?thesis
  proof (cases rule: tstep.cases)
    case (cas_won t)
    have "t = 0" by (rule zero [OF cas_won(2)]) simp_all
    moreover have "t_tags s = []" using token cas_won(3) by (auto simp: token_inv_def)
    ultimately show ?thesis
      by (intro loop_moves [of Won]) (use cas_won inv in \<open>simp_all add: loop_left_def\<close>)
  next
    case (cas_lost t)
    have "t = 0" by (rule zero [OF cas_lost(2)]) simp_all
    then show ?thesis
      by (intro loop_moves [of At_Rest]) (use cas_lost inv in \<open>simp_all add: loop_left_def\<close>)
  next
    case (has_stream t)
    have "t = 0" by (rule zero [OF has_stream(2)]) simp_all
    then show ?thesis
      by (intro loop_moves [of Popping]) (use has_stream inv in \<open>simp_all add: loop_left_def\<close>)
  next
    case (no_stream t)
    have "t = 0" by (rule zero [OF no_stream(2)]) simp_all
    with no_stream inv show ?thesis by simp
  next
    case mark_event
    have "t_tags s = []" by (rule holder_excludes(2) [OF token, of 0]) (simp add: mark_event)
    then show ?thesis
      by (intro loop_moves [of Try_Idle]) (use mark_event inv in \<open>simp_all add: loop_left_def\<close>)
  next
    case event_assert
    with inv(5) show ?thesis by simp
  next
    case not_idle
    with inv(5) show ?thesis by simp
  next
    case (old_stream t)
    have "t = 0" by (rule zero [OF old_stream(2)]) simp_all
    with old_stream inv(5) show ?thesis by simp
  next
    case (no_old_stream t)
    have "t = 0" by (rule zero [OF no_old_stream(2)]) simp_all
    with no_old_stream inv(5) show ?thesis by simp
  next
    case (drop_stream t)
    have "t = 0" by (rule zero [OF drop_stream(2)]) simp_all
    with drop_stream inv(5) show ?thesis by simp
  next
    case (pop_none t b)
    have "t = 0" by (rule zero [OF pop_none(2)]) simp_all
    moreover have "buf b = buf (t_buffer s)"
      using vb.pop_nonempty [of "t_buffer s"] vb.pop_empty [of "t_buffer s"] pop_none(3)
      by (cases "buf (t_buffer s)") auto
    ultimately show ?thesis
      by (intro loop_moves [of Found_Empty]) (use pop_none inv in \<open>simp_all add: loop_left_def\<close>)
  next
    case (pop_some t m b)
    have "t = 0" by (rule zero [OF pop_some(2)]) simp_all
    with pop_some inv(5) have "buf (t_buffer s) = []" by simp
    with vb.pop_empty [of "t_buffer s"] pop_some(3) show ?thesis by simp
  next
    case (mark_idle t)
    have "t = 0" by (rule zero [OF mark_idle(2)]) simp_all
    then show ?thesis
      by (intro loop_moves [of At_Rest]) (use mark_idle inv in \<open>simp_all add: loop_left_def\<close>)
  next
    case (set_stream t)
    have "t = 0" by (rule zero [OF set_stream(2)]) simp_all
    then show ?thesis
      by (intro loop_moves [of At_Rest]) (use set_stream inv in \<open>simp_all add: loop_left_def\<close>)
  next
    case (start_write t m)
    have "t = 0" by (rule zero [OF start_write(2)]) simp_all
    with start_write inv(5) show ?thesis by simp
  next
    case (bad_write t m)
    have "t = 0" by (rule zero [OF bad_write(2)]) simp_all
    with bad_write inv(5) show ?thesis by simp
  next
    case (create_stream t)
    have "t = 0" by (rule zero [OF create_stream(2)]) simp_all
    with create_stream inv(5) show ?thesis by simp
  next
    case (bad_create t)
    have "t = 0" by (rule zero [OF bad_create(2)]) simp_all
    with bad_create inv(5) show ?thesis by simp
  next
    case (next_event us tag vs ok)
    show ?thesis
      by (rule loop_moves [of "Got tag ok"]) (use next_event inv in \<open>simp_all add: loop_left_def\<close>)
  next
    case next_drained
    show ?thesis
      by (rule loop_moves [of Loop_Ended]) (use next_drained inv in \<open>simp_all add: loop_left_def\<close>)
  next
    case (basic_event ok)
    show ?thesis
      by (rule loop_moves [of "Callback ok"]) (use basic_event inv in \<open>simp_all add: loop_left_def\<close>)
  next
    case (write_event ok)
    show ?thesis
      by (rule loop_moves [of "Callback ok"]) (use write_event inv in \<open>simp_all add: loop_left_def\<close>)
  next
    case (event_reset ok)
    show ?thesis
      by (rule loop_moves [of At_Rest]) (use event_reset inv in \<open>simp_all add: loop_left_def\<close>)
  next
    case (clear t)
    show ?thesis
      by (rule reset_moves [of Reset_Cleared])
        (use clear one [OF clear(2)] inv in \<open>simp_all add: reset_left_def vb.contents_discard\<close>)
  next
    case (not_exited t)
    show ?thesis
      by (rule reset_moves [of Exit_Tested])
        (use not_exited one [OF not_exited(2)] inv in \<open>simp_all add: reset_left_def\<close>)
  next
    case (set_exited t)
    show ?thesis
      by (rule reset_moves [of Exit_Flagged])
        (use set_exited one [OF set_exited(2)] inv in \<open>simp_all add: reset_left_def\<close>)
  next
    case (shutdown t)
    show ?thesis
      by (rule reset_moves [of Reset_Joining])
        (use shutdown one [OF shutdown(2)] inv in \<open>simp_all add: reset_left_def\<close>)
  next
    case (join t)
    show ?thesis
      by (rule reset_moves [of Reset_Joined])
        (use join one [OF join(2)] inv in \<open>simp_all add: reset_left_def\<close>)
  next
    case (reset_stream t)
    show ?thesis
      by (rule reset_moves [of At_Rest])
        (use reset_stream one [OF reset_stream(2)] inv in \<open>simp_all add: reset_left_def\<close>)
  next
    case (already_exited t)
    with one [OF already_exited(2)] inv show ?thesis by simp
  next
    case (bad_join t)
    with one [OF bad_join(2)] inv show ?thesis by simp
  next
    case (full t m)
    from zero [OF full(2)] full(2) alone_place [OF assms(1), of 0] show ?thesis by simp
  next
    case (room t m)
    from zero [OF room(2)] room(2) alone_place [OF assms(1), of 0] show ?thesis by simp
  next
    case (overflow t)
    from zero [OF overflow(2)] overflow(2) alone_place [OF assms(1), of 0] show ?thesis by simp
  next
    case (push t m)
    from zero [OF push(2)] push(2) alone_place [OF assms(1), of 0] show ?thesis by simp
  qed (use assms(2) inv(1) in simp_all)
qed

text \<open>Somebody can move until thread 1 has returned.\<close>

lemma reset_alone_moves:
  assumes "reset_alone ops s" and "pcs s 1 \<noteq> At_Rest"
  shows "\<exists>s'. tstep 1 md s s'"
proof -
  have exit: "exit_done (pcs s 1) = (t_exited s, t_shutdown s, t_joined s)"
    using assms(1) by (simp add: reset_alone_def)
  have "in_loop (pcs s 0)" using alone_place [OF assms(1), of 0] by auto
  with loop_can_move [of s 1 md]
  have loop: "pcs s 0 \<noteq> Loop_Ended \<Longrightarrow> t_shutdown s \<Longrightarrow> \<exists>s'. tstep 1 md s s'" by blast
  have one: "resetting (pcs s 1)" using alone_place [OF assms(1), of 1] assms(2) by simp
  show ?thesis
  proof (cases "pcs s 1")
    case Reset_Flagged
    with tstep.clear show ?thesis by blast
  next
    case Reset_Cleared
    with exit tstep.not_exited [of s 1] show ?thesis by force
  next
    case Exit_Tested
    with tstep.set_exited show ?thesis by blast
  next
    case Exit_Flagged
    with tstep.shutdown show ?thesis by blast
  next
    case Reset_Joining
    with exit loop tstep.join [of s 1 1 md] show ?thesis by (cases "pcs s 0 = Loop_Ended") auto
  next
    case Reset_Joined
    with tstep.reset_stream show ?thesis by blast
  qed (use one in simp_all)
qed

lemma reset_alone_run:
  assumes "until_returned 1 md s k s'" and "reset_alone ops s"
  shows "reset_alone ops s' \<and> k + reset_work s' \<le> reset_work s"
  using assms
proof (induction rule: until_returned.induct)
  case (one_more k s' s'')
  with reset_alone_step [of ops s' md s''] show ?case by simp
qed simp

lemma reset_alone_returns:
  assumes "until_returned 1 md s0 k s" and "reset_alone ops s"
  shows "\<exists>k s'. until_returned 1 md s0 k s' \<and> pcs s' 1 = At_Rest"
  using assms
proof (induction "reset_work s" arbitrary: k s rule: less_induct)
  case less
  show ?case
  proof (cases "pcs s 1 = At_Rest")
    case True
    with less.prems(1) show ?thesis by blast
  next
    case False
    from reset_alone_moves [OF less.prems(2) False] obtain s' where s': "tstep 1 md s s'" by blast
    from reset_alone_step [OF less.prems(2) False s'] less.hyps [OF _ one_more [OF less.prems(1) False s']]
    show ?thesis by blast
  qed
qed

text \<open>The state in which a reset begins.\<close>

lemma reset_begun:
  assumes "tstep n md s s'" and "pcs s 1 = At_Rest" and "pcs s' 1 = Reset_Flagged"
  shows "s' = goto 1 Reset_Flagged (s\<lparr>t_reset := True\<rparr>)"
  using assms by (cases rule: tstep.cases) (simp_all split: if_splits)

lemma alone_start:
  assumes "reachable 1 md (constructed md) s" and "pcs s 1 = At_Rest" and "\<not> t_reset s"
    and "\<not> about_to_start s"
  shows "reset_alone (t_wire s) (goto 1 Reset_Flagged (s\<lparr>t_reset := True\<rparr>))" (is "reset_alone _ ?s1")
    and "reset_work (goto 1 Reset_Flagged (s\<lparr>t_reset := True\<rparr>)) \<le> 12"
proof -
  have inv: "token_inv s" "stream_inv s" "in_loop (pcs s 0)" "account_inv 1 s"
    using token_reachable stream_reachable token_start(1) stream_start in_loop_reachable
      account_reachable account_start assms(1) by blast+
  have rest: "pcs s t = At_Rest \<or> t = 0" for t
    using inv(4) assms(2) by (cases "t = 1") (auto simp: account_inv_def)
  have live: "\<not> t_failed s" "\<not> t_shutdown s" "t_stream s \<or> pcs s 0 = Opened"
    using inv(2) assms(3,4) by (auto simp: stream_inv_def)
  have "\<not> about_to_start ?s1"
    using assms(4) by (cases "pcs s 0") (simp_all add: about_to_start_def)
  moreover have "token_inv ?s1"
    by (rule token_step [OF tstep.reset [of s 1 1 md] inv(1)]) (use assms(2) in simp_all)
  ultimately show "reset_alone (t_wire s) ?s1"
    using live not_reset_clean [OF assms(1,3)] rest inv(3) by (auto simp: reset_alone_def)
  show "reset_work ?s1 \<le> 12"
    using loop_left_bound [OF inv(1) refl] by (simp add: reset_work_def reset_left_def)
qed

text \<open>When the loop is about to start an operation, the other thread can shut the queue down first.\<close>

lemma shut_down_first:
  assumes "until_returned 1 md s0 k s" and "pcs s 1 = Reset_Flagged" and "\<not> t_exited s"
    and "pcs s 0 = Opening_Stream \<or> pcs s 0 = Found m"
  shows "\<exists>k s'. until_returned 1 md s0 k s' \<and> t_failed s'"
proof -
  let ?s1 = "goto 1 Reset_Cleared (s\<lparr>t_buffer := buffer_clear (t_buffer s),
      t_discarded := t_discarded s @ buf (t_buffer s)\<rparr>)"
  let ?s2 = "goto 1 Exit_Tested ?s1"
  let ?s3 = "goto 1 Exit_Flagged (?s2\<lparr>t_exited := True\<rparr>)"
  let ?s4 = "goto 1 Reset_Joining (?s3\<lparr>t_shutdown := True\<rparr>)"
  have "until_returned 1 md s0 (Suc k) ?s1"
    by (rule one_more [OF assms(1) _ tstep.clear]) (use assms(2) in simp_all)
  then have "until_returned 1 md s0 (Suc (Suc k)) ?s2"
    by (rule one_more [OF _ _ tstep.not_exited]) (use assms(3) in simp_all)
  then have "until_returned 1 md s0 (Suc (Suc (Suc k))) ?s3"
    by (rule one_more [OF _ _ tstep.set_exited]) simp_all
  then have r: "until_returned 1 md s0 (Suc (Suc (Suc (Suc k)))) ?s4"
    by (rule one_more [OF _ _ tstep.shutdown]) simp_all
  from assms(4) have "tstep 1 md ?s4 (?s4\<lparr>t_failed := True\<rparr>)"
    using tstep.bad_create [of ?s4 0 1 md] tstep.bad_write [of ?s4 0 m 1 md] by auto
  from one_more [OF r _ this] have "until_returned 1 md s0 (Suc (Suc (Suc (Suc (Suc k)))))
      (?s4\<lparr>t_failed := True\<rparr>)" by simp
  moreover have "t_failed (?s4\<lparr>t_failed := True\<rparr>)" by simp
  ultimately show ?thesis by blast
qed

text \<open>From every other such place the loop gets to the start of the operation first.\<close>

lemma popping_fails:
  assumes "until_returned 1 md s0 k s" and "pcs s 1 = Reset_Flagged" and "\<not> t_exited s"
    and "pcs s 0 = Popping" and "buf (t_buffer s) \<noteq> []"
  shows "\<exists>k s'. until_returned 1 md s0 k s' \<and> t_failed s'"
proof -
  obtain m b where pop: "pop_front (t_buffer s) = (Some m, b)"
    using vb.pop_nonempty [of "t_buffer s"] assms(5)
    by (cases "pop_front (t_buffer s)"; cases "buf (t_buffer s)") auto
  let ?s1 = "goto 0 (Found m) (s\<lparr>t_buffer := b\<rparr>)"
  have "until_returned 1 md s0 (Suc k) ?s1"
    by (rule one_more [OF assms(1) _ tstep.pop_some]) (use assms(2,4) pop in simp_all)
  from shut_down_first [OF this, of m] show ?thesis using assms(2,3) by simp
qed

lemma won_fails:
  assumes "until_returned 1 md s0 k s" and "pcs s 1 = Reset_Flagged" and "\<not> t_exited s"
    and "pcs s 0 = Won" and "buf (t_buffer s) \<noteq> []"
  shows "\<exists>k s'. until_returned 1 md s0 k s' \<and> t_failed s'"
proof (cases "t_stream s")
  case True
  have "until_returned 1 md s0 (Suc k) (goto 0 Popping s)"
    by (rule one_more [OF assms(1) _ tstep.has_stream]) (use assms(2,4) True in simp_all)
  from popping_fails [OF this] show ?thesis using assms(2,3,5) by simp
next
  case False
  have "until_returned 1 md s0 (Suc k) (s\<lparr>t_failed := True\<rparr>)"
    by (rule one_more [OF assms(1) _ tstep.no_stream [OF assms(4) False]]) (use assms(2) in simp)
  moreover have "t_failed (s\<lparr>t_failed := True\<rparr>)" by simp
  ultimately show ?thesis by blast
qed

lemma trying_fails:
  assumes "until_returned 1 md s0 k s" and "pcs s 1 = Reset_Flagged" and "\<not> t_exited s"
    and "pcs s 0 = Try_Idle" and "t_idle s" and "buf (t_buffer s) \<noteq> []"
  shows "\<exists>k s'. until_returned 1 md s0 k s' \<and> t_failed s'"
proof -
  let ?s1 = "goto 0 Won (s\<lparr>t_idle := False\<rparr>)"
  have "until_returned 1 md s0 (Suc k) ?s1"
    by (rule one_more [OF assms(1) _ tstep.cas_won]) (use assms in simp_all)
  from won_fails [OF this] show ?thesis using assms by simp
qed

lemma dropping_fails:
  assumes "until_returned 1 md s0 k s" and "pcs s 1 = Reset_Flagged" and "\<not> t_exited s"
    and "pcs s 0 = Dropping"
  shows "\<exists>k s'. until_returned 1 md s0 k s' \<and> t_failed s'"
proof -
  have "until_returned 1 md s0 (Suc k) (goto 0 Opening_Stream (s\<lparr>t_stream := False\<rparr>))"
    by (rule one_more [OF assms(1) _ tstep.drop_stream]) (use assms in simp_all)
  from shut_down_first [OF this] show ?thesis using assms by simp
qed

lemma replacing_fails:
  assumes "until_returned 1 md s0 k s" and "pcs s 1 = Reset_Flagged" and "\<not> t_exited s"
    and "pcs s 0 = Replacing"
  shows "\<exists>k s'. until_returned 1 md s0 k s' \<and> t_failed s'"
proof (cases "t_stream s")
  case True
  have "until_returned 1 md s0 (Suc k) (goto 0 Dropping s)"
    by (rule one_more [OF assms(1) _ tstep.old_stream]) (use assms True in simp_all)
  from dropping_fails [OF this] show ?thesis using assms by simp
next
  case False
  have "until_returned 1 md s0 (Suc k) (goto 0 Opening_Stream s)"
    by (rule one_more [OF assms(1) _ tstep.no_old_stream]) (use assms False in simp_all)
  from shut_down_first [OF this] show ?thesis using assms by simp
qed

lemma about_to_start_fails:
  assumes "until_returned 1 md s0 k s" and "pcs s 1 = Reset_Flagged" and "\<not> t_exited s"
    and "about_to_start s"
  shows "\<exists>k s'. until_returned 1 md s0 k s' \<and> t_failed s'"
proof (cases "pcs s 0")
  case Failing
  show ?thesis
  proof (cases "t_idle s")
    case True
    have "until_returned 1 md s0 (Suc k) (s\<lparr>t_failed := True\<rparr>)"
      by (rule one_more [OF assms(1) _ tstep.event_assert [OF Failing True]]) (use assms(2) in simp)
    moreover have "t_failed (s\<lparr>t_failed := True\<rparr>)" by simp
    ultimately show ?thesis by blast
  next
    case False
    have "until_returned 1 md s0 (Suc k) (goto 0 Replacing s)"
      by (rule one_more [OF assms(1) _ tstep.not_idle]) (use assms Failing False in simp_all)
    from replacing_fails [OF this] show ?thesis using assms by simp
  qed
next
  case Marking
  have "until_returned 1 md s0 (Suc k) (goto 0 Try_Idle (s\<lparr>t_idle := True\<rparr>))"
    by (rule one_more [OF assms(1) _ tstep.mark_event]) (use assms Marking in simp_all)
  from trying_fails [OF this] show ?thesis using assms Marking by simp
next
  case (Found m)
  with shut_down_first [OF assms(1-3)] show ?thesis by blast
next
  case Opening_Stream
  with shut_down_first [OF assms(1-3)] show ?thesis by blast
next
  case Won
  with won_fails [OF assms(1-3)] assms(4) show ?thesis by simp
next
  case Popping
  with popping_fails [OF assms(1-3)] assms(4) show ?thesis by simp
next
  case Try_Idle
  with trying_fails [OF assms(1-3)] assms(4) show ?thesis by simp
next
  case Replacing
  with replacing_fails [OF assms(1-3)] show ?thesis by simp
next
  case Dropping
  with dropping_fails [OF assms(1-3)] show ?thesis by simp
qed (use assms(4) in \<open>simp_all add: about_to_start_def\<close>)

text \<open>A state in which the loop is about to start a call: it has let go of a stream that failed.\<close>

lemma reopening_run:
  "\<exists>s :: 'm threads. reachable 1 md (constructed md) s \<and> pcs s 0 = Opening_Stream \<and> pcs s 1 = At_Rest
    \<and> \<not> t_reset s \<and> \<not> t_exited s \<and> t_wire s = [Start_Call TraceCollectMethod md]"
proof -
  let ?r = "reachable 1 md (constructed md)"
  let ?s1 = "goto 0 (Got Basic_Event False) ((constructed md :: 'm threads)\<lparr>t_tags := [] @ []\<rparr>)"
  let ?s2 = "goto 0 (Callback False) ?s1"
  let ?s3 = "goto 0 Failing ?s2"
  let ?s4 = "goto 0 Replacing ?s3"
  let ?s5 = "goto 0 Dropping ?s4"
  let ?s6 = "goto 0 Opening_Stream (?s5\<lparr>t_stream := False\<rparr>)"
  note defs = constructed_def constructing_def
  have r1: "?r ?s1" by (rule more [OF start tstep.next_event]) (simp_all add: defs)
  have r2: "?r ?s2" by (rule more [OF r1 tstep.basic_event]) simp
  have r3: "?r ?s3" by (rule more [OF r2 tstep.event_failed]) (simp_all add: defs)
  have r4: "?r ?s4" by (rule more [OF r3 tstep.not_idle]) (simp_all add: defs)
  have r5: "?r ?s5" by (rule more [OF r4 tstep.old_stream]) (simp_all add: defs)
  have "?r ?s6" by (rule more [OF r5 tstep.drop_stream]) simp
  then show ?thesis by (intro exI [of _ ?s6]) (simp add: defs)
qed

text \<open>C27. When it is safe to reset the client. With one application thread, a reset fails in some
  interleaving exactly when the event loop, at the moment the flag is set, is past its own test of
  the flag and about to start a call, or a write of a message it holds or finds in the buffer. At
  any other moment \<open>resetClient\<close> returns within twelve steps of the two threads, whatever their
  order: nothing fails, nothing more is put on the wire, there is always a next step, and in the
  end the queue is drained, the event loop has ended and has been joined, the buffer is empty and
  the stream is gone.\<close>

theorem reset_safe_unless_about_to_start:
  assumes "reachable 1 md (constructed md) s" and "pcs s 1 = At_Rest" and "\<not> t_reset s"
    and "tstep 1 md s s1" and "pcs s1 1 = Reset_Flagged"
  shows "if about_to_start s then \<exists>k s'. until_returned 1 md s1 k s' \<and> t_failed s'
    else \<forall>k s'. until_returned 1 md s1 k s' \<longrightarrow>
      k \<le> 12 \<and> \<not> t_failed s' \<and> t_wire s' = t_wire s
      \<and> (if pcs s' 1 = At_Rest
         then pcs s' 0 = Loop_Ended \<and> t_tags s' = [] \<and> t_joined s' \<and> buf (t_buffer s') = [] \<and> \<not> t_stream s'
         else \<exists>s''. tstep 1 md s' s'')"
proof (cases "about_to_start s")
  case True
  then have "about_to_start s1"
    unfolding reset_begun [OF assms(4,2,5)]
    by (cases "pcs s 0") (simp_all add: about_to_start_def)
  moreover have "\<not> t_exited s1"
    unfolding reset_begun [OF assms(4,2,5)] using not_reset_clean [OF assms(1,3)] by simp
  ultimately show ?thesis using about_to_start_fails [OF no_step assms(5)] True by simp
next
  case False
  note begun = alone_start [OF assms(1-3) False, folded reset_begun [OF assms(4,2,5)]]
  have "k \<le> 12 \<and> \<not> t_failed s' \<and> t_wire s' = t_wire s
      \<and> (if pcs s' 1 = At_Rest
         then pcs s' 0 = Loop_Ended \<and> t_tags s' = [] \<and> t_joined s' \<and> buf (t_buffer s') = [] \<and> \<not> t_stream s'
         else \<exists>s''. tstep 1 md s' s'')" if "until_returned 1 md s1 k s'" for k s'
  proof -
    from reset_alone_run [OF that begun(1)] begun(2)
    have alone: "reset_alone (t_wire s) s'" and "k \<le> 12" by simp_all
    then show ?thesis using reset_alone_moves [OF alone, of md]
      by (cases "pcs s' 1 = At_Rest") (simp_all add: reset_alone_def)
  qed
  then show ?thesis unfolding if_not_P [OF False] by blast
qed

section \<open>Resets that go wrong\<close>

text \<open>A reset can make the client fail. With a single application thread: the event loop has
  passed its check of the reset flag with a failed completion in hand and has let go of the old
  stream; \<open>resetClient\<close> sets the flag, clears the buffer and shuts the completion queue down; then
  the loop starts a call on that queue.\<close>

lemma reset_race:
  "\<exists>s :: 'm threads. reachable 1 md (constructed md) s \<and> t_failed s \<and> t_wire s = [Start_Call TraceCollectMethod md]"
proof -
  let ?r = "reachable 1 md (constructed md)"
  obtain s :: "'m threads" where s: "?r s" "pcs s 0 = Opening_Stream" "pcs s 1 = At_Rest"
    "\<not> t_reset s" "\<not> t_exited s" "t_wire s = [Start_Call TraceCollectMethod md]"
    using reopening_run [of md] by blast
  let ?s4 = "goto 1 Exit_Tested (discard s)"
  let ?s5 = "goto 1 Reset_Joining (?s4\<lparr>t_exited := True, t_shutdown := True\<rparr>)"
  have r4: "?r ?s4" by (rule reachable_trans [OF reset_begins s(1)]) (use s in simp_all)
  have r5: "?r ?s5" by (rule reachable_trans [OF exit_shuts_down r4]) simp
  have "?r (?s5\<lparr>t_failed := True\<rparr>)"
    by (rule more [OF r5 tstep.bad_create [where t = 0]]) (simp_all add: s)
  then show ?thesis by (intro exI [of _ "?s5\<lparr>t_failed := True\<rparr>"]) (simp add: s)
qed

text \<open>With one application thread \<open>exited_\<close> does what it is for.\<close>

definition single_join :: "'m threads \<Rightarrow> bool" where
  "single_join s \<longleftrightarrow> (\<forall>t. resetting (pcs s t) \<longrightarrow> t = 1)
     \<and> (pcs s 1 \<in> {Exit_Flagged, Reset_Joining} \<longrightarrow> t_exited s)
     \<and> (t_joined s \<longrightarrow> t_exited s \<and> pcs s 1 \<notin> {Exit_Tested, Exit_Flagged, Reset_Joining})"

lemma single_join_step:
  assumes "tstep n md s s'" and "n < 2" and "single_join s"
  shows "single_join s'"
proof -
  have one: "resetting (pcs s t) \<Longrightarrow> t = 1" for t using assms(3) by (simp add: single_join_def)
  have joined: "t_joined s \<Longrightarrow> t_exited s \<and> pcs s 1 \<notin> {Exit_Tested, Exit_Flagged, Reset_Joining}"
    and exited: "pcs s 1 \<in> {Exit_Flagged, Reset_Joining} \<Longrightarrow> t_exited s"
    using assms(3) by (simp_all add: single_join_def)
  from assms(1) have "resetting (pcs s' t) \<Longrightarrow> t = 1" for t
  proof (cases rule: tstep.cases)
    case (reset u)
    then have "u = 1" using assms(2) by simp
    then show "resetting (pcs s' t) \<Longrightarrow> t = 1" using reset one by (simp split: if_splits)
  qed (use one in \<open>fastforce split: if_splits\<close>)+
  moreover from assms(1) have "pcs s' 1 \<in> {Exit_Flagged, Reset_Joining} \<Longrightarrow> t_exited s'"
    by (cases rule: tstep.cases) (use exited in \<open>auto split: if_splits\<close>)
  moreover from assms(1) have "t_joined s' \<Longrightarrow> t_exited s'
      \<and> pcs s' 1 \<notin> {Exit_Tested, Exit_Flagged, Reset_Joining}"
  proof (cases rule: tstep.cases)
    case (join t)
    with one [of t] exited show "t_exited s' \<and> pcs s' 1 \<notin> {Exit_Tested, Exit_Flagged, Reset_Joining}"
      by simp
  qed (use joined in \<open>auto split: if_splits\<close>)
  ultimately show ?thesis by (auto simp: single_join_def)
qed

lemma single_join_reachable:
  "reachable n md (constructed md) s \<Longrightarrow> n < 2 \<Longrightarrow> single_join s"
  by (induction rule: reachable.induct)
    (simp add: single_join_def constructed_def constructing_def, blast intro: single_join_step)

lemma two_resets_run:
  assumes "2 \<le> n"
  shows "\<exists>s :: 'm threads. reachable n md (constructed md) s \<and> t_joined s \<and> pcs s 2 = Reset_Joining"
proof -
  let ?r = "reachable n md (constructed md)"
  let ?s1 = "goto 1 Exit_Tested (discard (constructed md :: 'm threads))"
  let ?s2 = "goto 2 Exit_Tested (discard ?s1)"
  let ?s3 = "goto 1 Reset_Joining (?s2\<lparr>t_exited := True, t_shutdown := True\<rparr>)"
  let ?s4 = "goto 2 Reset_Joining (?s3\<lparr>t_exited := True, t_shutdown := True\<rparr>)"
  let ?s5 = "goto 0 (Got Basic_Event True) (?s4\<lparr>t_tags := [] @ []\<rparr>)"
  let ?s6 = "goto 0 (Callback True) ?s5"
  let ?s7 = "goto 0 At_Rest ?s6"
  let ?s8 = "goto 0 Loop_Ended ?s7"
  let ?s9 = "goto 1 Reset_Joined (?s8\<lparr>t_joined := True\<rparr>)"
  note defs = constructed_def constructing_def
  have r1: "?r ?s1" by (rule reset_begins) (use assms in \<open>simp_all add: defs\<close>)
  have r2: "?r ?s2" by (rule reachable_trans [OF reset_begins r1]) (use assms in \<open>simp_all add: defs\<close>)
  have r3: "?r ?s3" by (rule reachable_trans [OF exit_shuts_down r2]) simp
  have r4: "?r ?s4" by (rule reachable_trans [OF exit_shuts_down r3]) simp
  have r5: "?r ?s5" by (rule more [OF r4 tstep.next_event]) (simp_all add: defs)
  have r6: "?r ?s6" by (rule more [OF r5 tstep.basic_event]) simp
  have r7: "?r ?s7" by (rule more [OF r6 tstep.event_reset]) simp_all
  have r8: "?r ?s8" by (rule more [OF r7 tstep.next_drained]) simp_all
  have "?r ?s9" by (rule more [OF r8 tstep.join]) (simp_all add: defs)
  then show ?thesis by (intro exI [of _ ?s9]) simp
qed

text \<open>C28. The test of \<open>exited_\<close> keeps the event loop from being joined twice exactly when at most one
  application thread uses the client: two threads that reset it at once can both pass the test
  before either sets the flag, and then the second joins a thread that has been joined.\<close>

theorem joined_twice_iff_two_threads:
  "(\<exists>s :: 'm threads. reachable n md (constructed md) s
      \<and> t_joined s \<and> (\<exists>t. pcs s t = Reset_Joining)) \<longleftrightarrow> 2 \<le> n"
proof
  assume "\<exists>s :: 'm threads. reachable n md (constructed md) s \<and> t_joined s \<and> (\<exists>t. pcs s t = Reset_Joining)"
  then obtain s :: "'m threads" and t where s: "reachable n md (constructed md) s" "t_joined s"
    "pcs s t = Reset_Joining" by blast
  show "2 \<le> n"
  proof (rule ccontr)
    assume "\<not> 2 \<le> n"
    with single_join_reachable [OF s(1)] have "single_join s" by simp
    moreover from this s(3) have "pcs s 1 = Reset_Joining"
      by (metis resetting_simps(17) single_join_def)
    ultimately show False using s(2) by (simp add: single_join_def)
  qed
next
  assume "2 \<le> n"
  from two_resets_run [OF this] show "\<exists>s :: 'm threads. reachable n md (constructed md) s
      \<and> t_joined s \<and> (\<exists>t. pcs s t = Reset_Joining)" by blast
qed

section \<open>Witness\<close>

theorem reset_safe_unless_about_to_start_witness:
  "(\<exists>s s1 s' k. reachable 1 [] (constructed []) s \<and> buf (t_buffer s) = [7 :: nat]
      \<and> tstep 1 [] s s1 \<and> until_returned 1 [] s1 k s' \<and> k \<le> 12
      \<and> pcs s' 1 = At_Rest \<and> pcs s' 0 = Loop_Ended \<and> \<not> t_failed s' \<and> buf (t_buffer s') = [])
    \<and> (\<exists>s s1 k s'. reachable 1 [] (constructed []) s \<and> pcs (s :: nat threads) 0 = Opening_Stream
      \<and> tstep 1 [] s s1 \<and> until_returned 1 [] s1 k s' \<and> t_failed s')"
proof
  obtain s :: "nat threads" where s: "reachable 1 [] (constructed []) s" "buf (t_buffer s) = [7]"
    "\<forall>t. pcs s t = At_Rest" "\<not> t_reset s"
    using stranded_run [of 0 "[]" "7 :: nat"] by auto
  then have rest: "pcs s 1 = At_Rest" "\<not> about_to_start s" by simp_all
  let ?s1 = "goto 1 Reset_Flagged (s\<lparr>t_reset := True\<rparr>)"
  have step: "tstep 1 [] s ?s1" "pcs ?s1 1 = Reset_Flagged"
    using tstep.reset [of s 1 1 "[]"] rest(1) by simp_all
  from reset_alone_returns [OF no_step alone_start(1) [OF s(1) rest(1) s(4) rest(2)]] obtain k s' where
    run: "until_returned 1 [] ?s1 k s'" "pcs s' 1 = At_Rest" by blast
  from reset_safe_unless_about_to_start [OF s(1) rest(1) s(4) step, unfolded if_not_P [OF rest(2)]]
    run have "k \<le> 12 \<and> pcs s' 0 = Loop_Ended \<and> \<not> t_failed s' \<and> buf (t_buffer s') = []" by fastforce
  with s(1,2) step(1) run
  show "\<exists>s s1 s' k. reachable 1 [] (constructed []) s \<and> buf (t_buffer s) = [7 :: nat]
      \<and> tstep 1 [] s s1 \<and> until_returned 1 [] s1 k s' \<and> k \<le> 12
      \<and> pcs s' 1 = At_Rest \<and> pcs s' 0 = Loop_Ended \<and> \<not> t_failed s' \<and> buf (t_buffer s') = []"
    by blast
next
  obtain s :: "nat threads" where s: "reachable 1 [] (constructed []) s" "pcs s 0 = Opening_Stream"
    "pcs s 1 = At_Rest" "\<not> t_reset s"
    using reopening_run [of "[]"] by blast
  let ?s1 = "goto 1 Reset_Flagged (s\<lparr>t_reset := True\<rparr>)"
  have step: "tstep 1 [] s ?s1" "pcs ?s1 1 = Reset_Flagged"
    using tstep.reset [of s 1 1 "[]"] s(3) by simp_all
  have "about_to_start s" by (simp add: s(2))
  from reset_safe_unless_about_to_start [OF s(1,3,4) step, unfolded if_P [OF this]] s(1,2) step(1)
  show "\<exists>s s1 k s'. reachable 1 [] (constructed []) s \<and> pcs (s :: nat threads) 0 = Opening_Stream
      \<and> tstep 1 [] s s1 \<and> until_returned 1 [] s1 k s' \<and> t_failed s'"
    by blast
qed

end
