(* ===== verification/Async_Client_Liveness.thy ===== *)
theory Async_Client_Liveness
  imports Async_Client_Progress
begin

text \<open>
  What becomes of the messages in the buffer of the reporter client, at the granularity of
  \<^theory_text>\<open>Async_Client_Threads\<close>: once the application has come to rest, the event loop alone writes
  everything that waits, as long as operations succeed, unless it had already found the buffer empty;
  and a client in which more messages wait than \<open>sendMessage\<close> accepts, with nothing under way, never
  writes again.
\<close>

section \<open>The event loop alone\<close>

text \<open>A step of the event loop; the completions it takes off the queue are successful.\<close>

definition loop_move :: "nat \<Rightarrow> metadata \<Rightarrow> 'm threads \<Rightarrow> 'm threads \<Rightarrow> bool" where
  "loop_move n md s s' \<longleftrightarrow> tstep n md s s' \<and> (\<forall>t \<ge> 1. pcs s' t = pcs s t)
     \<and> (\<forall>tag ok. pcs s 0 = At_Rest \<and> pcs s' 0 = Got tag ok \<longrightarrow> ok)"

inductive loop_moves :: "nat \<Rightarrow> metadata \<Rightarrow> 'm threads \<Rightarrow> nat \<Rightarrow> 'm threads \<Rightarrow> bool" for n md s where
  no_move: "loop_moves n md s 0 s"
| one_more_move: "loop_moves n md s k s' \<Longrightarrow> loop_move n md s' s'' \<Longrightarrow> loop_moves n md s (Suc k) s''"

text \<open>
  The loop will not look into the buffer again unless something new is started: it has found the
  buffer empty, or it is blocked in \<open>Next\<close> with nothing under way.
\<close>

definition gone_idle :: "'m threads \<Rightarrow> bool" where
  "gone_idle s \<longleftrightarrow> pcs s 0 = Found_Empty \<or> pcs s 0 = At_Rest \<and> t_idle s"

text \<open>The moves that are left; every message in the buffer costs eight.\<close>

definition drain_left :: "'m threads \<Rightarrow> nat" where
  "drain_left s = (let waiting = 8 * length (buf (t_buffer s)) in case pcs s 0 of
     At_Rest \<Rightarrow> (if t_idle s then 0 else waiting + 8) | Got _ ok \<Rightarrow> waiting + (if ok then 7 else 15)
   | Callback ok \<Rightarrow> waiting + (if ok then 6 else 14) | Marking \<Rightarrow> waiting + 5
   | Try_Idle \<Rightarrow> waiting + (if t_idle s then 4 else 9) | Won \<Rightarrow> waiting + 3 | Popping \<Rightarrow> waiting + 2
   | Found_Empty \<Rightarrow> 1 | Found _ \<Rightarrow> waiting + 9 | Failing \<Rightarrow> waiting + 13 | Replacing \<Rightarrow> waiting + 12
   | Dropping \<Rightarrow> waiting + 11 | Opening_Stream \<Rightarrow> waiting + 10 | Opened \<Rightarrow> waiting + 9 | _ \<Rightarrow> 0)"

lemma drain_left_bound: "drain_left s \<le> 8 * length (buf (t_buffer s)) + 15"
  by (cases "pcs s 0") (simp_all add: drain_left_def Let_def)

definition quiet :: "nat \<Rightarrow> metadata \<Rightarrow> 'm threads \<Rightarrow> bool" where
  "quiet n md s \<longleftrightarrow> reachable n md (constructed md) s \<and> \<not> t_reset s \<and> (\<forall>t \<ge> 1. pcs s t = At_Rest)"

lemma quiet_facts:
  assumes "quiet n md s"
  shows "token_inv s" "stream_inv s" "in_loop (pcs s 0)" "\<not> t_reset s" "\<not> t_failed s" "\<not> t_shutdown s"
    "t \<ge> 1 \<Longrightarrow> pcs s t = At_Rest" "pcs s 0 \<noteq> Loop_Ended"
    "holds (pcs s 0) \<or> t_idle s \<and> t_tags s = [] \<or> \<not> t_idle s \<and> t_tags s \<noteq> []"
    "pcs s 0 = Opened \<Longrightarrow> \<not> t_idle s"
proof -
  have r: "reachable n md (constructed md) s" and live: "\<not> t_reset s"
    and rest: "t \<ge> 1 \<Longrightarrow> pcs s t = At_Rest" for t
    using assms by (auto simp: quiet_def)
  show token: "token_inv s" and stream: "stream_inv s" and "in_loop (pcs s 0)" "\<not> t_reset s"
    "t \<ge> 1 \<Longrightarrow> pcs s t = At_Rest"
    using token_reachable stream_reachable token_start(1) stream_start in_loop_reachable r live rest
    by blast+
  show "\<not> t_failed s" "\<not> t_shutdown s" using stream live by (simp_all add: stream_inv_def)
  show "pcs s 0 \<noteq> Loop_Ended" using not_reset_clean [OF r live] by simp
  have "t = 0" if "holds (pcs s t)" for t
    using rest [of t] that by (cases "t = 0") auto
  then have "holders s \<subseteq> {0}" by (auto simp: holders_def)
  with token live show "holds (pcs s 0) \<or> t_idle s \<and> t_tags s = [] \<or> \<not> t_idle s \<and> t_tags s \<noteq> []"
    by (auto simp: token_inv_def holders_def)
  show "pcs s 0 = Opened \<Longrightarrow> \<not> t_idle s"
    using stream token live by (auto simp: stream_inv_def token_inv_def)
qed

lemma quiet_step:
  assumes "quiet n md s" and "loop_move n md s s'"
  shows "quiet n md s'"
proof -
  have step: "tstep n md s s'" and same: "\<And>t. t \<ge> 1 \<Longrightarrow> pcs s' t = pcs s t"
    using assms(2) by (simp_all add: loop_move_def)
  have r: "reachable n md (constructed md) s'"
    using assms(1) step by (auto simp: quiet_def intro: reachable.more)
  from step quiet_facts(4) [OF assms(1)] have "\<not> t_reset s'"
  proof (cases rule: tstep.cases)
    case (reset t)
    with same [of t] show ?thesis by simp
  qed simp_all
  with r same assms(1) show ?thesis by (simp add: quiet_def)
qed

lemma drain_step:
  assumes "quiet n md s" and "loop_move n md s s'"
  shows "drain_left s' < drain_left s" and "t_pushed s' = t_pushed s"
    and "gone_idle s \<Longrightarrow> gone_idle s' \<and> buf (t_buffer s') = buf (t_buffer s) \<and> t_wire s' = t_wire s"
    and "gone_idle s' \<Longrightarrow> gone_idle s \<or> buf (t_buffer s') = []"
proof -
  note facts = quiet_facts [OF assms(1)]
  have step: "tstep n md s s'" and succ: "pcs s 0 = At_Rest \<Longrightarrow> pcs s' 0 = Got tag ok \<Longrightarrow> ok"
    and same: "t \<ge> 1 \<Longrightarrow> pcs s' t = pcs s t" for t tag ok
    using assms(2) by (auto simp: loop_move_def)
  have zero: "pcs s t = p \<Longrightarrow> p \<noteq> At_Rest \<Longrightarrow> t = 0" for t p
    using facts(7) by (metis One_nat_def Suc_leI gr0I)
  have "drain_left s' < drain_left s \<and> t_pushed s' = t_pushed s
    \<and> (gone_idle s \<longrightarrow> gone_idle s' \<and> buf (t_buffer s') = buf (t_buffer s) \<and> t_wire s' = t_wire s)
    \<and> (gone_idle s' \<longrightarrow> gone_idle s \<or> buf (t_buffer s') = [])"
    using step
  proof (cases rule: tstep.cases)
    case (call t m)
    with same [of t] show ?thesis by simp
  next
    case (reset t)
    with same [of t] show ?thesis by simp
  next
    case (pop_none t b)
    have "buf (t_buffer s) = []" "buf b = []"
      using vb.pop_nonempty [of "t_buffer s"] vb.pop_empty [of "t_buffer s"] pop_none(3)
      by (cases "buf (t_buffer s)"; auto)+
    with pop_none zero [OF pop_none(2)] show ?thesis by (simp add: drain_left_def gone_idle_def)
  next
    case (pop_some t m b)
    have "buf (t_buffer s) = m # buf b"
      using vb.pop_nonempty [of "t_buffer s"] vb.pop_empty [of "t_buffer s"] pop_some(3)
      by (cases "buf (t_buffer s)") auto
    with pop_some zero [OF pop_some(2)] show ?thesis by (simp add: drain_left_def gone_idle_def)
  next
    case (next_event us tag vs ok)
    then have "ok" "\<not> t_idle s" using succ facts(9) by auto
    with next_event show ?thesis by (simp add: drain_left_def gone_idle_def)
  next
    case (start_write t m)
    with facts(9) zero [OF start_write(2)] show ?thesis
      using holder_excludes(1) [OF facts(1), of 0] by (simp add: drain_left_def gone_idle_def Let_def)
  next
    case (set_stream t)
    with facts(10) zero [OF set_stream(2)] show ?thesis
      by (simp add: drain_left_def gone_idle_def Let_def)
  next
    case next_drained
    with facts(6) show ?thesis by simp
  next
    case (event_reset ok)
    with facts(4) show ?thesis by simp
  next
    case (bad_join t)
    with zero [OF bad_join(2)] facts(3) show ?thesis by simp
  next
    case (bad_create t)
    with facts(6) show ?thesis by simp
  next
    case (no_stream t)
    with operator_has_stream [OF facts(1,2,4) no_stream(2)] show ?thesis by simp
  next
    case (bad_write t m)
    with operator_has_stream [OF facts(1,2,4) bad_write(2)] facts(6) show ?thesis by simp
  next
    case event_assert
    with holder_excludes(1) [OF facts(1), of 0] show ?thesis by simp
  qed (use zero facts(3,9) in \<open>fastforce simp: drain_left_def gone_idle_def Let_def\<close>)+
  then show "drain_left s' < drain_left s" "t_pushed s' = t_pushed s"
    "gone_idle s \<Longrightarrow> gone_idle s' \<and> buf (t_buffer s') = buf (t_buffer s) \<and> t_wire s' = t_wire s"
    "gone_idle s' \<Longrightarrow> gone_idle s \<or> buf (t_buffer s') = []"
    by blast+
qed

lemma loop_moves_on:
  assumes "quiet n md s" and "\<not> (pcs s 0 = At_Rest \<and> t_idle s)"
  shows "\<exists>s'. loop_move n md s s'"
proof -
  note facts = quiet_facts [OF assms(1)]
  have move: "tstep n md s s' \<Longrightarrow> (\<And>t. t \<ge> 1 \<Longrightarrow> pcs s' t = pcs s t) \<Longrightarrow> pcs s 0 \<noteq> At_Rest
      \<Longrightarrow> \<exists>s'. loop_move n md s s'" for s'
    by (auto simp: loop_move_def)
  show ?thesis
  proof (cases "pcs s 0")
    case At_Rest
    then have "\<not> t_idle s" using assms(2) by simp
    with facts(9) At_Rest obtain tag ts where "t_tags s = [] @ tag # ts"
      by (cases "t_tags s") auto
    from tstep.next_event [OF At_Rest this, of n md True] At_Rest show ?thesis
      by (intro exI) (auto simp: loop_move_def)
  next
    case Try_Idle
    then show ?thesis
      using move [OF tstep.cas_won [of s 0]] move [OF tstep.cas_lost [of s 0]] by (cases "t_idle s") auto
  next
    case Won
    have "t_stream s" by (rule operator_has_stream [OF facts(1,2,4) Won]) simp_all
    with Won show ?thesis using move [OF tstep.has_stream [of s 0]] by simp
  next
    case Popping
    obtain front b where "pop_front (t_buffer s) = (front, b)" by fastforce
    with Popping show ?thesis
      using move [OF tstep.pop_none [of s 0 b]] move [OF tstep.pop_some [of s 0 _ b]]
      by (cases front) auto
  next
    case Found_Empty
    then show ?thesis using move [OF tstep.mark_idle [of s 0]] by simp
  next
    case (Found m)
    have "t_stream s" by (rule operator_has_stream [OF facts(1,2,4) Found]) simp_all
    with Found facts(6) show ?thesis using move [OF tstep.start_write [of s 0 m]] by simp
  next
    case (Got tag ok)
    then show ?thesis
      using move [OF tstep.basic_event [of s ok]] move [OF tstep.write_event [of s ok]]
      by (cases tag) auto
  next
    case (Callback ok)
    with facts(4) show ?thesis
      using move [OF tstep.event_ok [of s]] move [OF tstep.event_failed [of s]] by (cases ok) auto
  next
    case Marking
    then show ?thesis using move [OF tstep.mark_event [of s]] by simp
  next
    case Failing
    then have "\<not> t_idle s" using holder_excludes(1) [OF facts(1), of 0] by simp
    with Failing show ?thesis using move [OF tstep.not_idle [of s]] by simp
  next
    case Replacing
    then show ?thesis
      using move [OF tstep.old_stream [of s 0]] move [OF tstep.no_old_stream [of s 0]]
      by (cases "t_stream s") auto
  next
    case Dropping
    then show ?thesis using move [OF tstep.drop_stream [of s 0]] by simp
  next
    case Opening_Stream
    with facts(6) show ?thesis using move [OF tstep.create_stream [of s 0]] by simp
  next
    case Opened
    then show ?thesis using move [OF tstep.set_stream [of s 0]] by simp
  qed (use facts(3,8) in simp_all)
qed

lemma loop_run:
  assumes "loop_moves n md s k s'" and "quiet n md s"
  shows "quiet n md s' \<and> k + drain_left s' \<le> drain_left s \<and> t_pushed s' = t_pushed s
    \<and> (gone_idle s \<longrightarrow> gone_idle s' \<and> buf (t_buffer s') = buf (t_buffer s) \<and> t_wire s' = t_wire s)
    \<and> (gone_idle s' \<longrightarrow> gone_idle s \<or> buf (t_buffer s') = [])"
  using assms
proof (induction rule: loop_moves.induct)
  case (one_more_move k s' s'')
  then have q: "quiet n md s'" by simp
  note step = drain_step [OF q one_more_move.hyps(2)]
  from quiet_step [OF q one_more_move.hyps(2)] one_more_move step(1,2) step(3,4) show ?case
    by (cases "gone_idle s'") auto
qed simp

lemma quiet_pushed:
  assumes "quiet n md s" and "pcs s 0 = At_Rest"
  shows "t_pushed s = writes (t_wire s) @ buf (t_buffer s)"
proof -
  have r: "reachable n md (constructed md) s" using assms(1) by (simp add: quiet_def)
  from pushed_in_order [OF r] obtain hand where hand: "in_hand s hand"
    "t_pushed s \<in> shuffles (writes (t_wire s) @ hand @ buf (t_buffer s)) (t_discarded s)" by blast
  have "pcs s t = At_Rest" for t
    using quiet_facts(7) [OF assms(1), of t] assms(2) by (cases "t = 0") auto
  with hand(1) have "hand = []" by (simp add: in_hand_def)
  moreover have "t_discarded s = []"
    using quiet_facts(2,4) [OF assms(1)] by (simp add: stream_inv_def)
  ultimately show ?thesis using hand(2) by simp
qed

lemma event_loop_done:
  assumes "quiet n md s" and "loop_moves n md s k s'"
  shows "k \<le> 8 * length (buf (t_buffer s)) + 15 \<and> \<not> t_failed s' \<and> t_pushed s' = t_pushed s
    \<and> ((\<exists>s''. loop_move n md s' s'')
      \<or> pcs s' 0 = At_Rest \<and> t_idle s' \<and> t_tags s' = []
        \<and> t_pushed s' = writes (t_wire s') @ buf (t_buffer s')
        \<and> (if gone_idle s then buf (t_buffer s') = buf (t_buffer s) \<and> t_wire s' = t_wire s
          else buf (t_buffer s') = []))"
proof -
  note run = loop_run [OF assms(2,1)]
  then have q: "quiet n md s'" by simp
  have "k \<le> 8 * length (buf (t_buffer s)) + 15" using run drain_left_bound [of s] by linarith
  moreover have "pcs s' 0 = At_Rest \<and> t_idle s' \<and> t_tags s' = []
      \<and> t_pushed s' = writes (t_wire s') @ buf (t_buffer s')
      \<and> (if gone_idle s then buf (t_buffer s') = buf (t_buffer s) \<and> t_wire s' = t_wire s
         else buf (t_buffer s') = [])" if "\<not> (\<exists>s''. loop_move n md s' s'')"
  proof -
    from loop_moves_on [OF q] that have stop: "pcs s' 0 = At_Rest" "t_idle s'" by blast+
    then have "gone_idle s'" by (simp add: gone_idle_def)
    moreover have "t_tags s' = []" using quiet_facts(1) [OF q] stop(2) by (auto simp: token_inv_def)
    ultimately show ?thesis using run stop quiet_pushed [OF q stop(1)] by presburger
  qed
  ultimately show ?thesis using run quiet_facts(5) [OF q] by blast
qed

text \<open>Such a run can be carried on to its end.\<close>

lemma loop_runs_to_the_end:
  assumes "quiet n md s0" and "loop_moves n md s0 j s"
  shows "\<exists>k s'. loop_moves n md s0 k s' \<and> \<not> (\<exists>s''. loop_move n md s' s'')"
  using assms
proof (induction "drain_left s" arbitrary: j s rule: less_induct)
  case less
  show ?case
  proof (cases "\<exists>s''. loop_move n md s s''")
    case True
    then obtain s'' where s'': "loop_move n md s s''" by blast
    have "quiet n md s" using loop_run [OF less.prems(2,1)] by simp
    from less.hyps [OF drain_step(1) [OF this s''] less.prems(1) one_more_move [OF less.prems(2) s'']]
    show ?thesis .
  next
    case False
    with less.prems(2) show ?thesis by blast
  qed
qed

text \<open>C8. Once the application threads have come to rest, with no reset, the event loop alone finishes
  the work, however the threads were interleaved before: if the completions it gets from then on are
  successful, then every run of it is over after eight moves per message in the buffer and at most
  fifteen others, it fails nowhere, and when it is over the loop is idle with nothing outstanding and
  everything that ever entered the buffer has been written, in this order. The one exception is a
  loop that had gone idle or had found the buffer empty before the application came to rest: it
  writes nothing more, and the messages stay where they are.\<close>

theorem event_loop_drains:
  assumes "reachable n md (constructed md) s" and "\<not> t_reset s" and "\<forall>t \<ge> 1. pcs s t = At_Rest"
    and "loop_moves n md s k s'"
  shows "k \<le> 8 * length (buf (t_buffer s)) + 15 \<and> \<not> t_failed s'
    \<and> ((\<exists>s''. loop_move n md s' s'')
      \<or> pcs s' 0 = At_Rest \<and> t_idle s' \<and> t_tags s' = []
        \<and> (if gone_idle s then buf (t_buffer s') = buf (t_buffer s) \<and> t_wire s' = t_wire s
          else buf (t_buffer s') = [] \<and> writes (t_wire s') = t_pushed s))"
proof -
  have "quiet n md s" using assms(1-3) by (simp add: quiet_def)
  from event_loop_done [OF this assms(4)] show ?thesis by auto
qed

text \<open>What this means for one message.\<close>

lemma drained_message:
  assumes "reachable n md (constructed md) s \<and> m \<in> set (t_pushed s)
    \<and> (\<forall>u \<ge> 1. pcs s u = At_Rest) \<and> \<not> t_reset s \<and> loop_moves n md s k s'"
  shows "k \<le> 8 * length (buf (t_buffer s)) + 15
    \<and> ((\<exists>s''. loop_move n md s' s'') \<or> m \<in> set (writes (t_wire s'))
      \<or> gone_idle s \<and> m \<in> set (buf (t_buffer s')))"
proof -
  have "quiet n md s" using assms by (simp add: quiet_def)
  note run = event_loop_done [OF this, of k s']
  have "t_pushed s' = writes (t_wire s') @ buf (t_buffer s') \<Longrightarrow>
      m \<in> set (writes (t_wire s')) \<or> m \<in> set (buf (t_buffer s'))"
    using run assms by (metis Un_iff set_append)
  with run assms show ?thesis by (cases "gone_idle s") auto
qed

section \<open>A client that never writes again\<close>

text \<open>A whole call of \<open>sendMessage\<close> by thread 1 while somebody else holds the flag.\<close>

definition whole_call :: "'m \<Rightarrow> 'm threads \<Rightarrow> 'm threads" where
  "whole_call m s = s\<lparr>t_total := t_total s + 1, t_buffer := push_back m (t_buffer s),
     t_pushed := t_pushed s @ [m]\<rparr>"

lemma whole_call_simps [simp]:
  "pcs (whole_call m s) = pcs s" "t_idle (whole_call m s) = t_idle s"
  "t_tags (whole_call m s) = t_tags s" "t_reset (whole_call m s) = t_reset s"
  "t_wire (whole_call m s) = t_wire s" "buf (t_buffer (whole_call m s)) = buf (t_buffer s) @ [m]"
  by (simp_all add: whole_call_def vb.contents_push)

lemma whole_call_run:
  assumes "pcs s 1 = At_Rest" and "\<not> t_idle s" and "1 \<le> n"
    and "buffer_size (t_buffer s) \<le> MaxPendingMessagesSize"
  shows "reachable n md s (whole_call m s)"
proof -
  let ?s1 = "goto 1 (Counted m) (s\<lparr>t_total := t_total s + 1\<rparr>)"
  let ?s2 = "goto 1 (Admitted m) ?s1"
  let ?s3 = "goto 1 Try_Idle (?s2\<lparr>t_buffer := push_back m (t_buffer ?s2),
    t_pushed := t_pushed ?s2 @ [m]\<rparr>)"
  have r1: "reachable n md s ?s1" by (rule more [OF start tstep.call]) (use assms in simp_all)
  have r2: "reachable n md s ?s2" using assms(4) by (intro more [OF r1 tstep.room]) simp_all
  have r3: "reachable n md s ?s3" by (rule more [OF r2 tstep.push]) simp
  have "reachable n md s (goto 1 At_Rest ?s3)" by (rule more [OF r3 tstep.cas_lost]) (simp_all add: assms)
  moreover have "goto 1 At_Rest ?s3 = whole_call m s"
    using assms(1) by (simp add: goto_def whole_call_def fun_upd_idem)
  ultimately show ?thesis by simp
qed

lemma whole_calls_run:
  assumes "pcs s 1 = At_Rest" and "\<not> t_idle s" and "1 \<le> n"
    and "length (buf (t_buffer s)) + k \<le> Suc MaxPendingMessagesSize"
  shows "reachable n md s ((whole_call m ^^ k) s) \<and> pcs ((whole_call m ^^ k) s) = pcs s
    \<and> t_tags ((whole_call m ^^ k) s) = t_tags s \<and> t_reset ((whole_call m ^^ k) s) = t_reset s
    \<and> t_wire ((whole_call m ^^ k) s) = t_wire s \<and> t_idle ((whole_call m ^^ k) s) = t_idle s
    \<and> buf (t_buffer ((whole_call m ^^ k) s)) = buf (t_buffer s) @ replicate k m"
  using assms(4)
proof (induction k)
  case 0
  show ?case by (simp add: start)
next
  case (Suc k)
  let ?s = "(whole_call m ^^ k) s"
  from Suc have IH: "reachable n md s ?s" "pcs ?s = pcs s" "t_idle ?s = t_idle s"
    "buf (t_buffer ?s) = buf (t_buffer s) @ replicate k m" by simp_all
  then have "buffer_size (t_buffer ?s) \<le> MaxPendingMessagesSize"
    using Suc.prems by (simp add: vb.size_contents)
  with whole_call_run [of ?s n md m] IH assms(1-3) have "reachable n md ?s (whole_call m ?s)"
    by fastforce
  from reachable_trans [OF this IH(1)] Suc show ?case
    by (simp flip: replicate_append_same)
qed

text \<open>The state after the first message, by the client of \<^theory_text>\<open>Async_Client\<close> and by the threads.\<close>

lemma first_message:
  assumes "sendMessage m (createClient tok) = Inr c" and "md = call_metadata tok"
  shows "reachable 1 md (constructed md) (only (\<lambda>_. At_Rest) 0 At_Rest c ([m], []))"
    and "\<not> gone_idle (only (\<lambda>_. At_Rest) 0 At_Rest c ([m], []))"
proof -
  let ?new = "createClient tok :: 'a async_client"
  have new: "\<not> event_loop_idle ?new" "message_buffer ?new = empty_buffer"
    by (simp_all add: createClient_def TraceAsyncClientImpl_def startStream_def createStream_def
        TraceAsyncStreamImpl_def Let_def)
  with assms(1) have c: "c = ?new\<lparr>messages_total := messages_total ?new + 1,
      message_buffer := push_back m (message_buffer ?new)\<rparr>"
    by (simp add: sendMessage_def sendMessageOnce_def value_buffer_defs Let_def)
  have "only (\<lambda>_. At_Rest) 0 At_Rest c ([m], [])
      = whole_call m (only (\<lambda>_. At_Rest) 0 At_Rest ?new ([], []))"
    by (simp add: c only_def whole_call_def)
  then have same: "only (\<lambda>_. At_Rest) 0 At_Rest c ([m], []) = whole_call m (constructed md)"
    by (simp add: only_constructed assms(2))
  show "reachable 1 md (constructed md) (only (\<lambda>_. At_Rest) 0 At_Rest c ([m], []))"
    unfolding same
    by (rule whole_call_run) (simp_all add: constructed_def constructing_def value_buffer_defs)
  show "\<not> gone_idle (only (\<lambda>_. At_Rest) 0 At_Rest c ([m], []))"
    by (simp add: gone_idle_def c new)
qed

lemma overfull_run:
  "\<exists>s. reachable (Suc n) md (constructed md) s \<and> (\<forall>t. pcs s t = At_Rest) \<and> t_tags s = []
    \<and> \<not> t_reset s \<and> writes (t_wire s) = [] \<and> buf (t_buffer s) = replicate (Suc MaxPendingMessagesSize) m"
proof -
  let ?s0 = "found_empty md :: 'a threads"
  define k where "k = Suc MaxPendingMessagesSize"
  let ?s1 = "(whole_call m ^^ k) ?s0"
  note defs = found_empty_def constructed_def constructing_def value_buffer_defs
  have at: "pcs ?s0 1 = At_Rest" "\<not> t_idle ?s0"
    "length (buf (t_buffer ?s0)) + k \<le> Suc MaxPendingMessagesSize"
    by (simp_all add: defs k_def)
  have "1 \<le> Suc n" by simp
  note added = whole_calls_run [OF at(1,2) this at(3), of md m]
  have r1: "reachable (Suc n) md (constructed md) ?s1"
    using added reachable_trans [OF _ found_empty_run] by blast
  moreover have "tstep (Suc n) md ?s1 (goto 0 At_Rest (?s1\<lparr>t_idle := True\<rparr>))"
    by (rule tstep.mark_idle) (use added in \<open>simp add: defs\<close>)
  ultimately have "reachable (Suc n) md (constructed md) (goto 0 At_Rest (?s1\<lparr>t_idle := True\<rparr>))"
    by (rule more)
  then show ?thesis
    using added unfolding k_def [symmetric]
    by (intro exI [of _ "goto 0 At_Rest (?s1\<lparr>t_idle := True\<rparr>)"]) (simp add: defs)
qed

text \<open>Nothing but calls that are turned away happens from then on.\<close>

definition turned_away :: "'m threads \<Rightarrow> 'm threads \<Rightarrow> bool" where
  "turned_away s s' \<longleftrightarrow> t_tags s' = [] \<and> \<not> t_shutdown s' \<and> pcs s' 0 = At_Rest
     \<and> (\<forall>t. pcs s' t = At_Rest \<or> (\<exists>m. pcs s' t = Counted m) \<or> pcs s' t = Overflowed)
     \<and> t_buffer s' = t_buffer s \<and> t_wire s' = t_wire s \<and> t_sent s' = t_sent s"

lemma turned_away_step:
  assumes "tstep n md s' s''" and "turned_away s s'" and "\<not> t_reset s''"
    and "buffer_size (t_buffer s) > MaxPendingMessagesSize"
  shows "turned_away s s''"
proof -
  have at: "p = At_Rest \<or> (\<exists>m. p = Counted m) \<or> p = Overflowed" if "pcs s' t = p" for t p
    using assms(2) that by (auto simp: turned_away_def)
  from assms(1) show ?thesis
  proof (cases rule: tstep.cases)
    case (call t m)
    with assms(2) show ?thesis by (simp add: turned_away_def)
  next
    case (full t m)
    with assms(2) show ?thesis by (cases "t = 0") (auto simp: turned_away_def)
  next
    case (overflow t)
    with assms(2) show ?thesis by (cases "t = 0") (auto simp: turned_away_def)
  next
    case (room t m)
    with assms(2,4) show ?thesis by (simp add: turned_away_def)
  next
    case (reset t)
    with assms(3) show ?thesis by simp
  next
    case (next_event us tag vs ok)
    with assms(2) show ?thesis by (simp add: turned_away_def)
  next
    case next_drained
    with assms(2) show ?thesis by (simp add: turned_away_def)
  qed (auto dest!: at)
qed

lemma stays_turned_away:
  assumes "reachable n md s s'" and "\<not> t_reset s'" and "turned_away s s"
    and "buffer_size (t_buffer s) > MaxPendingMessagesSize"
  shows "turned_away s s'"
  using assms(1,2)
proof (induction rule: reachable.induct)
  case start
  show ?case by (rule assms(3))
next
  case (more s' s'')
  then have "\<not> t_reset s'" using reset_stays by blast
  with more.IH turned_away_step [OF more.hyps(2) _ more.prems assms(4)] show ?case by simp
qed

text \<open>C21. A client can stop for good. While the event loop, which has found the buffer empty, has not
  yet set the idle flag again, other calls may fill the buffer with one message more than the
  maximum; then the flag is set, all threads are at rest and no completion is outstanding. From every
  such state, until the client is reset, each call of \<open>sendMessage\<close> is turned away at the test of the
  size, before it would look at the flag: nothing is written any more, no message leaves the buffer
  and none is counted as sent.\<close>

theorem overfull_client_is_stuck:
  "(\<exists>s :: 'm threads. reachable (Suc n) md (constructed md) s \<and> \<not> t_reset s \<and> (\<forall>t. pcs s t = At_Rest)
      \<and> t_tags s = [] \<and> buffer_size (t_buffer s) > MaxPendingMessagesSize)
    \<and> (\<forall>(s :: 'm threads) s'. reachable (Suc n) md (constructed md) s \<and> \<not> t_reset s
        \<and> (\<forall>t. pcs s t = At_Rest) \<and> t_tags s = [] \<and> buffer_size (t_buffer s) > MaxPendingMessagesSize
        \<and> reachable (Suc n) md s s' \<and> \<not> t_reset s'
      \<longrightarrow> t_wire s' = t_wire s \<and> t_buffer s' = t_buffer s \<and> t_sent s' = t_sent s \<and> t_tags s' = [])"
proof
  from overfull_run [of n md undefined]
  show "\<exists>s :: 'm threads. reachable (Suc n) md (constructed md) s \<and> \<not> t_reset s \<and> (\<forall>t. pcs s t = At_Rest)
      \<and> t_tags s = [] \<and> buffer_size (t_buffer s) > MaxPendingMessagesSize"
    by (force simp: vb.size_contents)
  have "turned_away s s'" if s: "reachable (Suc n) md (constructed md) s" "\<not> t_reset s"
    "\<forall>t. pcs s t = At_Rest" "t_tags s = []" "buffer_size (t_buffer s) > MaxPendingMessagesSize"
    and s': "reachable (Suc n) md s s'" "\<not> t_reset s'" for s s' :: "'m threads"
  proof -
    have "stream_inv s" by (rule stream_reachable [OF s(1) token_start(1) stream_start])
    with s have "turned_away s s" by (simp add: turned_away_def stream_inv_def)
    from stays_turned_away [OF s' this s(5)] show ?thesis .
  qed
  then show "\<forall>(s :: 'm threads) s'. reachable (Suc n) md (constructed md) s \<and> \<not> t_reset s
        \<and> (\<forall>t. pcs s t = At_Rest) \<and> t_tags s = [] \<and> buffer_size (t_buffer s) > MaxPendingMessagesSize
        \<and> reachable (Suc n) md s s' \<and> \<not> t_reset s'
      \<longrightarrow> t_wire s' = t_wire s \<and> t_buffer s' = t_buffer s \<and> t_sent s' = t_sent s \<and> t_tags s' = []"
    unfolding turned_away_def by blast
qed

section \<open>Witnesses\<close>

lemma one_message_waits:
  fixes m :: 'm
  shows "reachable 1 md (constructed md) (whole_call m (constructed md))"
    "\<not> t_reset (whole_call m (constructed md :: 'm threads))"
    "\<forall>t \<ge> 1. pcs (whole_call m (constructed md :: 'm threads)) t = At_Rest"
    "\<not> gone_idle (whole_call m (constructed md :: 'm threads))"
    "t_pushed (whole_call m (constructed md :: 'm threads)) = [m]"
proof -
  show "reachable 1 md (constructed md) (whole_call m (constructed md))"
    by (rule whole_call_run) (simp_all add: constructed_def constructing_def value_buffer_defs)
qed (simp_all add: gone_idle_def whole_call_def constructed_def constructing_def)

theorem event_loop_drains_witness:
  "\<exists>k (s' :: nat threads). loop_moves 1 [] (whole_call 7 (constructed [])) k s' \<and> k \<le> 23
    \<and> t_idle s' \<and> writes (t_wire s') = [7]"
proof -
  let ?s = "whole_call (7 :: nat) (constructed [])"
  note s = one_message_waits [where m = "7 :: nat" and md = "[]"]
  have "quiet 1 [] ?s" using s(1-3) by (simp add: quiet_def)
  from loop_runs_to_the_end [OF this no_move] obtain k s' where
    run: "loop_moves 1 [] ?s k s'" "\<not> (\<exists>s''. loop_move 1 [] s' s'')" by blast
  have "8 * length (buf (t_buffer ?s)) + 15 = 23"
    by (simp add: constructed_def constructing_def value_buffer_defs)
  with event_loop_drains [OF s(1-3) run(1)] run s(4,5) show ?thesis
    by (intro exI [of _ k] exI [of _ s']) auto
qed

theorem overfull_client_is_stuck_witness:
  "\<exists>s :: nat threads. reachable 1 [] (constructed []) s \<and> buffer_size (t_buffer s) > 1024
    \<and> (\<forall>s'. reachable 1 [] s s' \<and> \<not> t_reset s' \<longrightarrow> t_wire s' = t_wire s)"
proof -
  obtain s :: "nat threads" where s: "reachable (Suc 0) [] (constructed []) s" "\<not> t_reset s"
    "\<forall>t. pcs s t = At_Rest" "t_tags s = []" "buffer_size (t_buffer s) > MaxPendingMessagesSize"
    using conjunct1 [OF overfull_client_is_stuck [of 0 "[]"]] by blast
  with conjunct2 [OF overfull_client_is_stuck [of 0 "[]"]] show ?thesis
    unfolding MaxPendingMessagesSize_def One_nat_def by blast
qed

end
