(* ===== verification/Spec2Isabelle.thy ===== *)
theory Spec2Isabelle
  imports Concurrent_Server Span_Tree Event_Loop Stream_Factory Lifetimes Async_Client_Accounting
    Async_Client_Bounds Async_Client_Resets Async_Client_Liveness
begin

text \<open>
  cpp2sky, the C++ tracer for Apache SkyWalking, as its sources under \<^verbatim>\<open>source/\<close> and \<^verbatim>\<open>cpp2sky/\<close> have
  it, with theorems on each of its parts and on their composition.

  The program. An application makes a tracer from a configuration (\<^verbatim>\<open>tracer_impl.cc\<close>). The tracer
  makes a tracing context per request (\<^verbatim>\<open>tracing_context_impl.cc\<close>), either a new trace or, from the
  \<^verbatim>\<open>sw8\<close> header of the request (\<^verbatim>\<open>propagation_impl.cc\<close>, \<^verbatim>\<open>base64.h\<close>), the continuation of one. The
  application opens and closes spans on the context, by hand or with scope guards, sends headers
  of its own with outgoing requests, writes log lines with the ids of the trace, and reports the
  context. The tracer ignores the segment if its name has a configured suffix (\<^verbatim>\<open>suffix_matcher.cc\<close>),
  and otherwise moves it into the reporter client (\<^verbatim>\<open>grpc_async_client_impl.cc\<close>), which buffers it
  (\<^verbatim>\<open>buffer.h\<close>) and writes it to a gRPC stream from an event loop thread and from the application's.

  The theories, in the order of the calls:
  \<^item> \<open>Prelude\<close>: outcomes of C++ operations (\<open>fault + 'a\<close>: the library's exception, and each way to
    leave defined behaviour), bytes, views, 32-bit decimal printing.
  \<^item> \<open>Base64\<close>, \<open>Base64_Reference\<close>: both directions of \<^verbatim>\<open>utils/base64.h\<close>; equality with RFC 4648.
  \<^item> \<open>Value_Buffer\<close>: \<^verbatim>\<open>utils/buffer.h\<close> and the locale \<open>fifo_queue\<close> it is an instance of.
  \<^item> \<open>Random_Generator\<close>: \<^verbatim>\<open>utils/random_generator.cc\<close>; the locale \<open>id_source\<close>. \<open>Clock\<close>: \<^verbatim>\<open>time.h\<close> and
    \<^verbatim>\<open>utils/timer.h\<close>. \<open>Config\<close>: \<^verbatim>\<open>config.proto\<close>. \<open>Suffix_Matcher\<close>: \<^verbatim>\<open>matchers/suffix_matcher.cc\<close>.
  \<^item> \<open>Propagation\<close>: the constructors of \<^verbatim>\<open>propagation_impl.cc\<close>, every accepted header and every error.
  \<^item> \<open>Tracing_Context\<close>: spans, contexts and their factory, one definition per method.
    \<open>Segment_Table\<close>: the specification of a context as a table of spans, the invariant
    \<open>context_inv\<close>, and the refinement from which the properties of contexts follow. \<open>Span_Tree\<close>:
    the type of a reported segment. \<open>Span_Guards\<close>: \<open>StartEntrySpan\<close> and \<open>StartExitSpan\<close>.
    \<open>Lifetimes\<close>: contexts with owners, and guards that outlive them.
    \<open>Trace_Log\<close>: \<^verbatim>\<open>trace_log.h\<close> and what a log line is as JSON.
  \<^item> \<open>Async_Client\<close>: the reporter client, one step per call and per completion. \<open>Async_Client_Spec\<close>:
    its specification as a queue with a phase, the simulation \<open>implements\<close>, and the locale
    \<open>message_sink\<close> for the interface \<open>AsyncClient\<close>. \<open>Stream_Factory\<close>: the client with a factory of
    its caller, the locale \<open>stream_provider\<close> for that interface, and what happens with and without
    its contract. \<open>Event_Loop\<close>: the loop of \<open>EventLoopThread\<close>, which ends, blocks in \<open>Next\<close> or runs
    for ever, and when it does which.
  \<^item> \<open>Async_Client_Threads\<close>: the client as its threads interleave, one access to shared state per step
    of a relation, resets included; who may operate on the stream, the order of the messages,
    the assertions, and schedules that go wrong. \<open>Async_Client_Schedules\<close>: the runs of \<open>Async_Client\<close>
    are among its schedules, and a client at rest goes on. \<open>Async_Client_Accounting\<close>: where every
    message is at every moment. \<open>Async_Client_Bounds\<close>: how full the buffer gets.
    \<open>Async_Client_Progress\<close>: nobody waits for ever. \<open>Async_Client_Liveness\<close>: the event loop alone
    writes what waits, or has gone idle too early, and a client that never writes again.
    \<open>Async_Client_Resets\<close>: when a reset is safe, and how it goes wrong.
  \<^item> \<open>Tracer\<close>: construction and \<open>report\<close>, against the locale \<open>segment_sink\<close>. \<open>Trace_Continuation\<close>: the
    two ends of a header. \<open>Sample_Programs\<close>: \<^verbatim>\<open>example/sample_client.cc\<close> and the handler of
    \<^verbatim>\<open>example/sample.cc\<close>; \<open>Sample_Server\<close>: its \<open>main\<close>, over any sequence of requests.
    \<open>Concurrent_Server\<close>: the handlers of several threads, interleaved.

  State and effects. Objects are records; a method is a function from the state to an outcome
  with the new state. The \<open>TracingSpanImpl\<close> objects of a context are a store, and a handle is a
  position in it. Readings of clocks, draws of the random engine, flags and order of completions
  are arguments. Integers that the code keeps at a width are words: counters of 64 bits, ids of
  32. Assertions are enabled, and a failed one is a fault.

  Parameters, with their documented behaviour as hypotheses and an instance for the witnesses:
  \<open>absl::SimpleAtoi\<close> (\<open>simple_atoi_spec\<close>), \<open>absl::EndsWith\<close> (\<open>ends_with_spec\<close>), the random engine
  (\<open>draws_in_range\<close>), the formatter of spdlog (\<open>formatter_spec\<close>), the header access of the HTTP
  library, which calls the handler once per request and catches its exceptions (\<open>catches_spec\<close>). gRPC is the operations started and the tags the completion queue returns.

  Bounds and fuel. \<open>gogo_drain\<close> takes one flag per completion; a client has at most one operation
  outstanding, so one flag is enough (\<open>reset_ends_the_client\<close>), and \<open>gogo_is_drain\<close> relates it to
  the loop without fuel. \<open>drains\<close> uses 1026 completions: one for the operation under way and
  one per message of the buffer, which holds at most 1025 (\<open>buffer_bound\<close>; with \<open>n\<close> threads
  \<open>1024 + n\<close>, \<open>concurrent_buffer_bound\<close>). Statements on liveness are made of the threads
  (\<open>event_loop_drains\<close>, \<open>traced_request_reaches_collector\<close>), as \<open>drains\<close> holds only when every call
  and every completion is handled as a whole (\<open>message_can_be_stranded\<close>). Hypotheses of the form \<open>length \<le> 2 ^ 31\<close> say that span ids
  have not become negative; \<open>header_readable_until_ids_wrap\<close> says what happens then. The runs of the
  threads have no fuel: \<open>runs\<close> and \<open>loop_moves\<close> count the moves of one thread, and the bounds of
  \<open>Async_Client_Progress\<close> and \<open>Async_Client_Liveness\<close> are on these counts. A thread of the server needs at most four moves for a
  request (\<open>moves_left\<close>).

  Not modelled: channels, credentials and logging of the client; streams of the caller that throw;
  the log level; the responses the sample server sends; weak memory effects beyond the order of
  the accesses, and data races on the pointer to the stream and on \<open>exited_\<close> other than as
  interleavings of tests, assignments and calls through the pointer; the owner counts of spans (that of a context is in \<open>Lifetimes\<close>);
  \<^verbatim>\<open>assert.h\<close>, a constant for static assertions. The headers under \<^verbatim>\<open>cpp2sky/\<close> that only declare
  interfaces are modelled by what implements them, and the programs under \<^verbatim>\<open>cmake/\<close> are copies of
  the samples.
\<close>

section \<open>Properties that span the components\<close>

text \<open>C1. A trace survives the trip from process to process: the header a context writes for its
  last exit span is accepted by the other side, the context made from it continues the same
  trace, and its entry span refers to the trace, the segment, the exit span, the service, the
  instance, the endpoint and the address of the sender.\<close>

theorem trace_crosses_processes:
  assumes "TracingContextImpl next_id service_name instance_name parent ext g = Inr (c0, g')"
    and "calls_ok 0 xs" and "do_calls xs c0 = Inr c"
    and "createSW8HeaderValue target_address c = Inr (Some h)"
    and "length (table_of c) \<le> 2 ^ 31" and "simple_atoi_spec simple_atoi" and "generator_ready g2"
  shows "\<exists>seg sc c1 g3 c2. segment_store c = Some seg
    \<and> createSpanContext simple_atoi h = Inr sc
    \<and> newContext_from t (Some sc) g2 = Inr (c1, g3)
    \<and> createEntrySpan c1 = Inr (Some 0, c2)
    \<and> traceId c2 = Inr (seg_traceid seg)
    \<and> map (so_refs \<circ> fst) (table_of c2) = [[\<lparr>ref_reftype = CrossProcess,
        ref_traceid = seg_traceid seg, ref_parenttracesegmentid = seg_tracesegmentid seg,
        ref_parentspanid = word_of_nat (length (table_of c) - 1),
        ref_parentservice = service_name, ref_parentserviceinstance = instance_name,
        ref_parentendpoint = so_operationname (fst (hd (table_of c))),
        ref_networkaddressusedatpeer = target_address\<rparr>]]"
proof -
  from outgoing_header [OF assms(1-6)] obtain seg where seg: "segment_store c = Some seg"
    and sc: "createSpanContext simple_atoi h = Inr \<lparr>sc_sample = True, sc_trace_id = seg_traceid seg,
        sc_trace_segment_id = seg_tracesegmentid seg,
        sc_span_id = word_of_nat (length (table_of c) - 1),
        sc_service = service_name, sc_service_instance = instance_name,
        sc_endpoint = so_operationname (fst (hd (table_of c))),
        sc_target_address = target_address\<rparr>" (is "_ = Inr ?sc") by blast
  from incoming_context [OF assms(7), of t ?sc] obtain c1 g3 seg1 where
    c1: "newContext_from t (Some ?sc) g2 = Inr (c1, g3)"
      "segment_store c1 = Some seg1" "seg_traceid seg1 = seg_traceid seg"
    and impl: "TracingContextImpl uuid (factory_service_name (segment_factory t))
      (factory_instance_name (segment_factory t)) (Some ?sc) None g2 = Inr (c1, g3)"
    by auto
  note new = new_context [OF impl]
  from createEntrySpan_live [OF c1(2) new(2,3)] new(4,6) obtain c2 seg2 where
    c2: "createEntrySpan c1 = Inr (Some 0, c2)" "segment_store c2 = Some seg2"
    and t2: "table_of c2 = [(entry_object (Some ?sc) False, False)]" by auto
  have "frame c2 = frame c1" using frame_call [of Create_Entry_Span c1 c2] c2(1) by simp
  from segment_names(1) [OF this c1(2) c2(2)] c1(3) c2(2) have "traceId c2 = Inr (seg_traceid seg)"
    by (simp add: traceId_def segment_of_def)
  with seg sc c1(1) c2(1) show ?thesis
    by (intro exI [of _ seg] exI [of _ ?sc] exI [of _ c1] exI [of _ g3] exI [of _ c2])
      (simp add: t2 entry_object_def segment_ref_of_def)
qed

theorem trace_crosses_processes_witness:
  "\<exists>c h sc c1 g3 c2. do_calls [Create_Entry_Span, Create_Exit_Span (Some 0)] example_context = Inr c
    \<and> createSW8HeaderValue ''peer:80'' c = Inr (Some h)
    \<and> createSpanContext decimal_atoi h = Inr sc
    \<and> newContext_from example_tracer (Some sc) (new_generator (\<lambda>_. 0)) = Inr (c1, g3)
    \<and> createEntrySpan c1 = Inr (Some 0, c2)
    \<and> map (map ref_parentspanid \<circ> so_refs \<circ> fst) (table_of c2) = [[1]]"
proof -
  let ?xs = "[Create_Entry_Span, Create_Exit_Span (Some 0)]"
  obtain c where c: "do_calls ?xs example_context = Inr c"
    and t: "table_of c = [(entry_object None False, False), (exit_object 1 0 False, False)]"
    and live: "segment_store c \<noteq> None" "context_inv c"
    using example_calls [of ?xs] by auto
  from live(1) obtain seg where seg: "segment_store c = Some seg" by blast
  have "so_spantype (last (seg_spans seg)) = Some Exit" "seg_spans seg \<noteq> []"
    using seg_spans_table [OF seg live(2)] by (simp_all add: t exit_object_def)
  with createSW8HeaderValue_live [OF seg live(2), of "''peer:80''"] obtain h where
    h: "createSW8HeaderValue ''peer:80'' c = Inr (Some h)" by auto
  have ok: "calls_ok 0 ?xs" "length (table_of c) \<le> 2 ^ 31" by (simp_all add: t)
  from trace_crosses_processes [OF example_new ok(1) c h ok(2) decimal_atoi_spec
      generator_ready_new [OF zero_draws], of example_tracer]
  obtain sc c1 g3 c2 where r: "createSpanContext decimal_atoi h = Inr sc"
    "newContext_from example_tracer (Some sc) (new_generator (\<lambda>_. 0)) = Inr (c1, g3)"
    "createEntrySpan c1 = Inr (Some 0, c2)"
    and refs: "map (so_refs \<circ> fst) (table_of c2) = [[\<lparr>ref_reftype = CrossProcess,
        ref_traceid = seg_traceid seg, ref_parenttracesegmentid = seg_tracesegmentid seg,
        ref_parentspanid = word_of_nat (length (table_of c) - 1),
        ref_parentservice = ''svc'', ref_parentserviceinstance = ''inst'',
        ref_parentendpoint = so_operationname (fst (hd (table_of c))),
        ref_networkaddressusedatpeer = ''peer:80''\<rparr>]]"
    using seg by auto
  have "map (map ref_parentspanid \<circ> so_refs \<circ> fst) (table_of c2)
      = map (map ref_parentspanid) (map (so_refs \<circ> fst) (table_of c2))" by simp
  also have "\<dots> = [[1]]" unfolding refs by (simp add: t)
  finally show ?thesis using c h r
    by (intro exI [of _ c] exI [of _ h] exI [of _ sc] exI [of _ c1] exI [of _ g3] exI [of _ c2]) simp
qed

text \<open>The part of the tracer: what a report at the end of a traced request hands to the client.\<close>

lemma traced_request_reported:
  assumes "cfg_protocol cfg = GRPC" and "generator_ready g" and "ends_with_spec ends_with"
    and "names_ok (Scope name start inner stop)"
    and "\<not> (\<exists>sfx \<in> set (cfg_ignore_operation_name_suffix cfg). suffix sfx name)"
  obtains t c g' c1 c2 t' seg where "createInsecureGrpcTracer cfg = Inr t"
    and "newContext t g = Inr (c, g')"
    and "run_entry_scope ticks (Scope name start inner stop) c = Inr c1"
    and "report sendMessage ends_with (Some c1) t = Inr (True, Some c2, t')"
    and "sendMessage seg (reporter_client t) = Inr (reporter_client t')"
    and "reporter_client t = createClient (cfg_token cfg)"
    and "seg_spans seg = ((entry_object None False)\<lparr>so_operationname := name,
          so_starttime := fetch ticks start, so_endtime := fetch ticks stop\<rparr>)
        # map fst (scopes_rows ticks False 0 1 inner)"
proof -
  let ?t = "\<lparr>reporter_client = createClient (cfg_token cfg) :: segment_object async_client,
       segment_factory = TracingContextFactory cfg,
       ignore_matcher = new_suffix_matcher (cfg_ignore_operation_name_suffix cfg)\<rparr>"
  have t: "createInsecureGrpcTracer cfg = Inr ?t"
    using assms(1) by (simp add: createInsecureGrpcTracer_def TracerImpl_def init_def)
  obtain c g' seg0 where c: "newContext ?t g = Inr (c, g')"
    and impl: "TracingContextImpl uuid (cfg_service_name cfg) (cfg_instance_name cfg) None None g
      = Inr (c, g')"
    using random.new_context_ids [OF assms(2), of "cfg_service_name cfg" "cfg_instance_name cfg" None None]
    by (auto simp: newContext_def create_root_def TracingContextFactory_def)
  note new = new_context [OF impl]
  have "live c" using new(1,2) by (simp add: live_def)
  from run_entry_scope_live [OF this new(3) assms(4), of ticks] new(4,6) obtain c1 where
    c1: "run_entry_scope ticks (Scope name start inner stop) c = Inr c1" "live c1"
    and t1: "table_of c1 = ((entry_object None False)\<lparr>so_operationname := name,
          so_starttime := fetch ticks start, so_endtime := fetch ticks stop\<rparr>, True)
        # scopes_rows ticks False 0 1 inner" by auto
  from c1(2) obtain seg where seg: "segment_store c1 = Some seg" and inv: "context_inv c1"
    by (auto simp: live_def)
  have fin: "list_all snd (table_of c1)" using scope_rows_finished(2) by (simp add: t1)
  have nig: "\<not> ignored_table (ignore_matcher ?t) (table_of c1)"
    using assms(5) by (auto simp: ignored_table_def t1 new_suffix_matcher_def)
  have ready: "client_ready (reporter_client ?t)" by (simp add: client_ready_new)
  from grpc_sink.report_accepted [OF seg inv assms(3) fin nig ready] obtain cl where
    r: "report sendMessage ends_with (Some c1) ?t
      = Inr (True, Some (c1\<lparr>spans := [], segment_store := None\<rparr>), ?t\<lparr>reporter_client := cl\<rparr>)"
    and cl: "sendMessage seg (createClient (cfg_token cfg)) = Inr cl" by auto
  from that [OF t c c1(1) r] cl seg_spans_table [OF seg inv] show thesis by (simp add: t1)
qed

text \<open>C2. What becomes of a traced request. With a tracer made for GRPC whose suffixes do not match the
  name of the request, guards around the request and the calls it makes, and a report at the end,
  \<open>report\<close> returns true and what it hands to the client is the whole segment: the entry span and
  one finished exit span per call, with the parents, names and times of their blocks. Then, for the
  client as its threads run it: in every state of every interleaving in which the segment has
  entered the buffer, the application threads are at rest and there was no reset, the event loop
  alone, if the completions it gets are successful, has written the segment when it comes to wait,
  within eight moves per message in the buffer and fifteen others; unless it had gone idle or found
  the buffer empty before, and then the segment stays in the buffer. If the event loop makes no move
  during the report, the state the report leaves is one of those in which the segment gets written.\<close>

theorem traced_request_reaches_collector:
  assumes "cfg_protocol cfg = GRPC" and "generator_ready g" and "ends_with_spec ends_with"
    and "names_ok (Scope name start inner stop)"
    and "\<not> (\<exists>sfx \<in> set (cfg_ignore_operation_name_suffix cfg). suffix sfx name)"
    and "md = call_metadata (cfg_token cfg)"
  shows "\<exists>t c g' c1 c2 t' seg. createInsecureGrpcTracer cfg = Inr t
    \<and> newContext t g = Inr (c, g')
    \<and> run_entry_scope ticks (Scope name start inner stop) c = Inr c1
    \<and> report sendMessage ends_with (Some c1) t = Inr (True, Some c2, t')
    \<and> sendMessage seg (reporter_client t) = Inr (reporter_client t')
    \<and> seg_spans seg = ((entry_object None False)\<lparr>so_operationname := name,
          so_starttime := fetch ticks start, so_endtime := fetch ticks stop\<rparr>)
        # map fst (scopes_rows ticks False 0 1 inner)
    \<and> (\<forall>n s k s'. reachable n md (constructed md) s \<and> seg \<in> set (t_pushed s)
          \<and> (\<forall>u \<ge> 1. pcs s u = At_Rest) \<and> \<not> t_reset s \<and> loop_moves n md s k s'
        \<longrightarrow> k \<le> 8 * length (buf (t_buffer s)) + 15
          \<and> ((\<exists>s''. loop_move n md s' s'') \<or> seg \<in> set (writes (t_wire s'))
            \<or> gone_idle s \<and> seg \<in> set (buf (t_buffer s'))))
    \<and> (\<exists>s. s = only (\<lambda>_. At_Rest) 0 At_Rest (reporter_client t') ([seg], [])
        \<and> reachable 1 md (constructed md) s \<and> \<not> gone_idle s)"
proof -
  from traced_request_reported [OF assms(1-5)] obtain t c g' c1 c2 t' seg where
    run: "createInsecureGrpcTracer cfg = Inr t" "newContext t g = Inr (c, g')"
      "run_entry_scope ticks (Scope name start inner stop) c = Inr c1"
      "report sendMessage ends_with (Some c1) t = Inr (True, Some c2, t')"
    and sent: "sendMessage seg (reporter_client t) = Inr (reporter_client t')"
      "reporter_client t = createClient (cfg_token cfg)"
    and spans: "seg_spans seg = ((entry_object None False)\<lparr>so_operationname := name,
          so_starttime := fetch ticks start, so_endtime := fetch ticks stop\<rparr>)
        # map fst (scopes_rows ticks False 0 1 inner)" .
  have "\<forall>n s k s'. reachable n md (constructed md) s \<and> seg \<in> set (t_pushed s)
          \<and> (\<forall>u \<ge> 1. pcs s u = At_Rest) \<and> \<not> t_reset s \<and> loop_moves n md s k s'
        \<longrightarrow> k \<le> 8 * length (buf (t_buffer s)) + 15
          \<and> ((\<exists>s''. loop_move n md s' s'') \<or> seg \<in> set (writes (t_wire s'))
            \<or> gone_idle s \<and> seg \<in> set (buf (t_buffer s')))"
    by (intro allI impI) (rule drained_message)
  moreover have "\<exists>s. s = only (\<lambda>_. At_Rest) 0 At_Rest (reporter_client t') ([seg], [])
        \<and> reachable 1 md (constructed md) s \<and> \<not> gone_idle s"
    using first_message [OF sent(1) [unfolded sent(2)] assms(6)] by blast
  ultimately show ?thesis using run sent(1) spans
    by - (rule exI [of _ t], rule exI [of _ c], rule exI [of _ g'], rule exI [of _ c1], rule exI [of _ c2],
      rule exI [of _ t'], rule exI [of _ seg], intro conjI; assumption)
qed

theorem traced_request_reaches_collector_witness:
  "\<exists>t c g' c1 c2 t' seg k s'. createInsecureGrpcTracer \<lparr>cfg_protocol = GRPC,
      cfg_service_name = ''svc'', cfg_instance_name = ''inst'', cfg_address = ''oap:11800'',
      cfg_token = '''', cfg_delayed_buffer_size = 0,
      cfg_ignore_operation_name_suffix = [''/ignore''], cfg_cds_request_interval = 0\<rparr> = Inr t
    \<and> newContext t (new_generator (\<lambda>_. 0)) = Inr (c, g')
    \<and> run_entry_scope 1000000 (Scope ''/in'' \<lparr>point = 1000000\<rparr>
        [Scope ''/out'' \<lparr>point = 2000000\<rparr> [] \<lparr>point = 3000000\<rparr>] \<lparr>point = 4000000\<rparr>) c = Inr c1
    \<and> report sendMessage ends_with_by_drop (Some c1) t = Inr (True, Some c2, t')
    \<and> loop_moves 1 [] (only (\<lambda>_. At_Rest) 0 At_Rest (reporter_client t') ([seg], [])) k s'
    \<and> seg \<in> set (writes (t_wire s')) \<and> map so_operationname (seg_spans seg) = [''/in'', ''/out'']"
proof -
  define cfg where "cfg = \<lparr>cfg_protocol = GRPC,
      cfg_service_name = ''svc'', cfg_instance_name = ''inst'', cfg_address = ''oap:11800'',
      cfg_token = '''', cfg_delayed_buffer_size = 0,
      cfg_ignore_operation_name_suffix = [''/ignore''], cfg_cds_request_interval = 0\<rparr>"
  define inner where "inner = [Scope ''/out'' \<lparr>point = 2000000\<rparr> [] \<lparr>point = 3000000\<rparr>]"
  have cfg: "cfg_protocol cfg = GRPC" "names_ok (Scope ''/in'' \<lparr>point = 1000000\<rparr> inner \<lparr>point = 4000000\<rparr>)"
    "[] = call_metadata (cfg_token cfg)"
    by (simp_all add: call_metadata_def cfg_def inner_def)
  have kept: "\<not> (\<exists>sfx \<in> set (cfg_ignore_operation_name_suffix cfg). suffix sfx ''/in'')"
    by (auto simp: cfg_def dest: suffix_length_le)
  from traced_request_reaches_collector [OF cfg(1) generator_ready_new [OF zero_draws]
      ends_with_by_drop_spec cfg(2) kept cfg(3), of 1000000]
  obtain t c g' c1 c2 t' seg where all: "createInsecureGrpcTracer cfg = Inr t
    \<and> newContext t (new_generator (\<lambda>_. 0)) = Inr (c, g')
    \<and> run_entry_scope 1000000 (Scope ''/in'' \<lparr>point = 1000000\<rparr> inner \<lparr>point = 4000000\<rparr>) c = Inr c1
    \<and> report sendMessage ends_with_by_drop (Some c1) t = Inr (True, Some c2, t')
    \<and> sendMessage seg (reporter_client t) = Inr (reporter_client t')
    \<and> seg_spans seg = ((entry_object None False)\<lparr>so_operationname := ''/in'',
          so_starttime := fetch 1000000 \<lparr>point = 1000000\<rparr>,
          so_endtime := fetch 1000000 \<lparr>point = 4000000\<rparr>\<rparr>)
        # map fst (scopes_rows 1000000 False 0 1 inner)
    \<and> (\<forall>n s k s'. reachable n [] (constructed []) s \<and> seg \<in> set (t_pushed s)
          \<and> (\<forall>u \<ge> 1. pcs s u = At_Rest) \<and> \<not> t_reset s \<and> loop_moves n [] s k s'
        \<longrightarrow> k \<le> 8 * length (buf (t_buffer s)) + 15
          \<and> ((\<exists>s''. loop_move n [] s' s'') \<or> seg \<in> set (writes (t_wire s'))
            \<or> gone_idle s \<and> seg \<in> set (buf (t_buffer s'))))
    \<and> (\<exists>s. s = only (\<lambda>_. At_Rest) 0 At_Rest (reporter_client t') ([seg], [])
        \<and> reachable 1 [] (constructed []) s \<and> \<not> gone_idle s)"
    by (elim exE) (rule that)
  note all = conjunct1 [OF all] conjunct1 [OF conjunct2 [OF all]] conjunct2 [OF conjunct2 [OF all]]
  note run = conjunct1 [OF all(3)] conjunct1 [OF conjunct2 [OF all(3)]]
  note rest = conjunct2 [OF conjunct2 [OF all(3)]]
  let ?s = "only (\<lambda>_. At_Rest) 0 At_Rest (reporter_client t') ([seg], [])"
  have s: "reachable 1 [] (constructed []) ?s" "\<not> gone_idle ?s" using rest by blast+
  have "reporter_client t = createClient (cfg_token cfg)"
    using all(1) by (auto simp: createInsecureGrpcTracer_def TracerImpl_def init_def cfg_def)
  with conjunct1 [OF rest] have "\<not> client_reset (reporter_client t')"
    using send_extends [of seg "createClient (cfg_token cfg)"] implements_new [of "cfg_token cfg"]
    by (auto simp: extends_def implements_def implements_data_def)
  then have q: "\<not> t_reset ?s" "\<forall>u \<ge> 1. pcs ?s u = At_Rest" "seg \<in> set (t_pushed ?s)" by simp_all
  then have "quiet 1 [] ?s" using s by (simp add: quiet_def)
  from loop_runs_to_the_end [OF this no_move] obtain k s' where
    moves: "loop_moves 1 [] ?s k s'" "\<not> (\<exists>s''. loop_move 1 [] s' s'')" by blast
  have "seg \<in> set (writes (t_wire s'))"
    using conjunct1 [OF conjunct2 [OF conjunct2 [OF rest]]] s q moves by blast
  moreover have "map so_operationname (seg_spans seg) = [''/in'', ''/out'']"
    using conjunct1 [OF conjunct2 [OF rest]] by (simp add: inner_def)
  ultimately show ?thesis
    using all(1,2) run moves(1) unfolding cfg_def [symmetric] inner_def [symmetric]
    by - (rule exI [of _ t], rule exI [of _ c], rule exI [of _ g'], rule exI [of _ c1], rule exI [of _ c2],
      rule exI [of _ t'], rule exI [of _ seg], rule exI [of _ k], rule exI [of _ s'], intro conjI; assumption)
qed

end
